(* ===== verification/Fuzz_Prelude.thy ===== *)
theory Fuzz_Prelude
  imports Main "HOL-Library.Word" "HOL-Library.Monad_Syntax"
begin

unbundle bit_operations_syntax

text \<open>
  Shared material of the development: the machine types of the C sources, the little-endian
  byte view of a 32-bit field, the smearing lemma behind the power-of-two computation, and the
  list and option lemmas that several components use.  Facts that unfold C-level helpers are
  collected in \<open>c_simps\<close>, facts that invert a successful computation in \<open>c_dest\<close>.
\<close>

named_theorems c_simps
named_theorems c_dest

type_synonym u8 = "8 word"
type_synonym u16 = "16 word"
type_synonym u32 = "32 word"
type_synonym u64 = "64 word"

section \<open>Words\<close>

lemma bit_or_drop_bit [c_simps]:
  fixes x :: "'a::len word"
  shows "bit (x OR drop_bit d x) j \<longleftrightarrow> bit x j \<or> bit x (j + d)"
  by (simp add: bit_or_iff bit_drop_bit_eq add.commute)

lemma unat_of_nat_small:
  "n < 2 ^ LENGTH('a) \<Longrightarrow> unat (of_nat n :: 'a::len word) = n"
  by (simp add: unat_of_nat take_bit_nat_eq_self)

lemma unat_exp_word: "k < LENGTH('a) \<Longrightarrow> unat (2 ^ k :: 'a::len word) = 2 ^ k"
proof -
  assume "k < LENGTH('a)"
  then have "unat (of_nat (2 ^ k) :: 'a word) = 2 ^ k" by (intro unat_of_nat_small) simp
  then show ?thesis by simp
qed

lemma unat_of_nat_u32 [simp]: "n < 4294967296 \<Longrightarrow> unat (of_nat n :: u32) = n"
  by (rule unat_of_nat_small) simp

lemma unat_ucast_32_64 [simp]: "unat (ucast (x :: u32) :: u64) = unat x"
proof -
  have "unat x < 2 ^ 32" using unsigned_less [of x] by simp
  then have "unat x < 2 ^ 64" by simp
  then show ?thesis by (simp add: unsigned_ucast_eq take_bit_nat_eq_self)
qed

text \<open>
  The fields of the serialised format are copied with \<^verbatim>\<open>memcpy\<close>, so a 32-bit field is four
  bytes in the order of the machine, little-endian on the targets of the fuzzer.
\<close>

definition le32 :: "u32 \<Rightarrow> u8 list" where
  "le32 w = [ucast w, ucast (drop_bit 8 w), ucast (drop_bit 16 w), ucast (drop_bit 24 w)]"

definition rd32 :: "u8 list \<Rightarrow> u32" where
  "rd32 bs = ucast (bs ! 0) OR push_bit 8 (ucast (bs ! 1))
     OR push_bit 16 (ucast (bs ! 2)) OR push_bit 24 (ucast (bs ! 3))"

lemma length_le32 [simp]: "length (le32 w) = 4"
  by (simp add: le32_def)

lemma rd32_le32 [simp]: "rd32 (le32 w @ bs) = w"
proof (rule bit_word_eqI)
  fix n assume "n < LENGTH(32)"
  then have n: "n < 32" by simp
  then consider "n < 8" | "8 \<le> n" "n < 16" | "16 \<le> n" "n < 24" | "24 \<le> n" by linarith
  then show "bit (rd32 (le32 w @ bs)) n = bit w n"
    by cases (use n in \<open>auto simp: rd32_def le32_def bit_or_iff bit_push_bit_iff bit_ucast_iff
        bit_drop_bit_eq\<close>)
qed

text \<open>
  Memory that the fuzzer reads through pointers of several widths is a list of bytes:
  \<open>rd_word\<close> loads a little-endian word from the given bytes and \<open>le_word n\<close> stores the low
  \<open>n\<close> bytes of a word.
\<close>

fun rd_word :: "u8 list \<Rightarrow> 'a::len word" where
  "rd_word [] = 0"
| "rd_word (b # bs) = ucast b OR push_bit 8 (rd_word bs)"

fun le_word :: "nat \<Rightarrow> 'a::len word \<Rightarrow> u8 list" where
  "le_word 0 w = []"
| "le_word (Suc n) w = ucast w # le_word n (drop_bit 8 w)"

lemma length_le_word [simp]: "length (le_word n w) = n"
  by (induction n arbitrary: w) auto

lemma bit_rd_word:
  "bit (rd_word bs :: 'a::len word) i \<longleftrightarrow>
     i < LENGTH('a) \<and> i div 8 < length bs \<and> bit (bs ! (i div 8)) (i mod 8)"
proof (induction bs arbitrary: i)
  case (Cons b bs)
  show ?case
  proof (cases "i < 8")
    case True
    then show ?thesis
      by (auto simp: bit_or_iff bit_push_bit_iff bit_ucast_iff dest: bit_imp_le_length)
  next
    case False
    then obtain j where i: "i = j + 8" using le_Suc_ex [of 8 i] by (auto simp: add.commute)
    have "\<not> bit b i" "i div 8 = Suc (j div 8)" "i mod 8 = j mod 8"
      using False i by (auto dest: bit_imp_le_length)
    then show ?thesis
      by (auto simp: bit_or_iff bit_push_bit_iff bit_ucast_iff Cons.IH i dest: bit_imp_le_length)
  qed
qed simp

lemma nth_le_word: "k < n \<Longrightarrow> le_word n w ! k = ucast (drop_bit (8 * k) w)"
proof (induction n arbitrary: w k)
  case (Suc n)
  then show ?case by (cases k) (auto simp: algebra_simps)
qed simp

lemma bit_nth_le_word:
  "k < n \<Longrightarrow> bit (le_word n w ! k) j \<longleftrightarrow> j < 8 \<and> bit w (8 * k + j)"
  by (auto simp: nth_le_word bit_ucast_iff bit_drop_bit_eq add.commute)

lemma le_word_eqI:
  assumes "length bs = n" "\<And>k j. k < n \<Longrightarrow> j < 8 \<Longrightarrow> bit w (8 * k + j) \<longleftrightarrow> bit (bs ! k) j"
  shows "le_word n w = bs"
proof (rule nth_equalityI)
  fix k assume "k < length (le_word n w)"
  then show "le_word n w ! k = bs ! k"
    using assms by (intro bit_word_eqI) (auto simp: bit_nth_le_word)
qed (simp add: assms)

lemma le_word_rd_word [simp]:
  "length bs = n \<Longrightarrow> 8 * n \<le> LENGTH('a) \<Longrightarrow> le_word n (rd_word bs :: 'a::len word) = bs"
  by (rule le_word_eqI) (auto simp: bit_rd_word)

lemma rd_word_le_word [simp]:
  "LENGTH('a) = 8 * n \<Longrightarrow> rd_word (le_word n w) = (w :: 'a::len word)"
  by (rule bit_word_eqI) (auto simp: bit_rd_word bit_nth_le_word less_mult_imp_div_less mult.commute)

lemma rd_word_and:
  "length xs = length ys \<Longrightarrow>
     rd_word xs AND rd_word ys = (rd_word (map2 (AND) xs ys) :: 'a::len word)"
  by (rule bit_word_eqI) (auto simp: bit_rd_word bit_and_iff)

lemma rd_word_eq_0:
  assumes "8 * length bs \<le> LENGTH('a)"
  shows "(rd_word bs :: 'a::len word) = 0 \<longleftrightarrow> (\<forall>b \<in> set bs. b = 0)"
proof
  assume z: "(rd_word bs :: 'a word) = 0"
  have "bs = le_word (length bs) (rd_word bs :: 'a word)" using assms by simp
  also have "\<dots> = replicate (length bs) 0"
    by (rule le_word_eqI) (auto simp: z)
  finally show "\<forall>b \<in> set bs. b = 0" by (metis in_set_replicate)
next
  assume "\<forall>b \<in> set bs. b = 0"
  then show "(rd_word bs :: 'a word) = 0"
    by (intro bit_word_eqI) (auto simp: bit_rd_word all_set_conv_all_nth)
qed

lemma le_word_clear:
  assumes "length xs = n" "length ys = n" "8 * n \<le> LENGTH('a)"
  shows "le_word n (rd_word ys AND NOT (rd_word xs) :: 'a::len word) = map2 (\<lambda>x y. y AND NOT x) xs ys"
  by (rule le_word_eqI) (use assms in \<open>auto simp: bit_rd_word bit_and_iff bit_not_iff\<close>)

section \<open>Lists and options\<close>

lemma list_update_append_mid [simp]: "(xs @ y # ys)[length xs := z] = xs @ z # ys"
  by simp

lemma take_drop_append3:
  "take n (drop (length xs) (xs @ ys @ zs)) = take n (ys @ zs)"
  by simp

lemma bind_eq_Some [c_dest]: "(Option.bind m f = Some y) = (\<exists>x. m = Some x \<and> f x = Some y)"
  by (cases m) auto

lemma sum_list_map_le:
  fixes f :: "'a \<Rightarrow> nat"
  shows "x \<in> set xs \<Longrightarrow> f x \<le> sum_list (map f xs)"
  by (induction xs) auto

lemma nth_filter_prefix:
  "i < length xs \<Longrightarrow> P (xs ! i) \<Longrightarrow> filter P xs ! length (filter P (take i xs)) = xs ! i"
proof (induction xs arbitrary: i)
  case (Cons x xs)
  then show ?case by (cases i) auto
qed simp

end
