(* ===== verification/GM_Buffers.thy ===== *)
theory GM_Buffers
  imports Fuzz_Prelude
begin

text \<open>
  The growing buffers of the grammar mutator (\<^verbatim>\<open>Grammar-Mutator/include/helpers.h\<close>):
  \<open>next_pow2\<close> and \<open>maybe_grow\<close>.  A buffer is the pair of fields the macro
  \<^verbatim>\<open>BUF_VAR\<close> declares, a pointer (NULL or a block of bytes) and a capacity of type
  \<^verbatim>\<open>size_t\<close>, 64 bits wide.
\<close>

section \<open>Rounding up to a power of two\<close>

definition next_pow2 :: "u64 \<Rightarrow> u64" where
  "next_pow2 inp =
     (if inp = 0 \<or> inp > - 1 then 0
      else let out = inp - 1;
               out = out OR drop_bit 1 out;
               out = out OR drop_bit 2 out;
               out = out OR drop_bit 4 out;
               out = out OR drop_bit 8 out;
               out = out OR drop_bit 16 out
           in out + 1)"

section \<open>Growing a buffer\<close>

record grow_buf =
  gb_buf :: "u8 list option"
  gb_size :: u64

definition INITIAL_GROWTH_SIZE :: u64 where
  "INITIAL_GROWTH_SIZE = 64"

text \<open>
  The C library's \<^verbatim>\<open>realloc\<close>: when it succeeds the block has the requested length, keeps the old
  bytes that still fit, and has arbitrary bytes (\<open>pad\<close>) after them; when it fails it returns NULL.
\<close>

definition c_realloc :: "bool \<Rightarrow> (nat \<Rightarrow> u8) \<Rightarrow> u8 list option \<Rightarrow> nat \<Rightarrow> u8 list option" where
  "c_realloc ok pad old n =
     (if ok then (let bs = (case old of None \<Rightarrow> [] | Some b \<Rightarrow> b)
                  in Some (take n bs @ map pad [length bs..<n]))
      else None)"

definition maybe_grow ::
  "bool \<Rightarrow> (nat \<Rightarrow> u8) \<Rightarrow> grow_buf \<Rightarrow> u64 \<Rightarrow> u8 list option \<times> grow_buf" where
  "maybe_grow ok pad b size_needed =
     (if size_needed \<noteq> 0 \<and> gb_size b \<ge> size_needed then (gb_buf b, b)
      else
        let size_needed = (if size_needed < INITIAL_GROWTH_SIZE then INITIAL_GROWTH_SIZE
                           else size_needed);
            next_size = next_pow2 size_needed;
            next_size = (if next_size = 0 then size_needed else next_size);
            buf = c_realloc ok pad (gb_buf b) (unat next_size);
            size = (if buf \<noteq> None then next_size else 0)
        in (buf, \<lparr>gb_buf = buf, gb_size = size\<rparr>))"

text \<open>A buffer is well-formed when its capacity is the length of its block.\<close>

definition grow_buf_ok :: "grow_buf \<Rightarrow> bool" where
  "grow_buf_ok b \<longleftrightarrow>
     (case gb_buf b of None \<Rightarrow> gb_size b = 0 | Some bs \<Rightarrow> length bs = unat (gb_size b))"

section \<open>Lemmas\<close>

definition smear32 :: "u64 \<Rightarrow> u64" where
  "smear32 n =
     (let out = n OR drop_bit 1 n; out = out OR drop_bit 2 out; out = out OR drop_bit 4 out;
          out = out OR drop_bit 8 out in out OR drop_bit 16 out)"

lemma next_pow2_smear: "inp \<noteq> 0 \<Longrightarrow> next_pow2 inp = smear32 (inp - 1) + 1"
  by (simp add: next_pow2_def smear32_def Let_def word_order.extremum_strict not_less)

lemma ex_less_double: "(\<exists>d<2 * m. P (j + d)) \<longleftrightarrow> (\<exists>d<m. P (j + d)) \<or> (\<exists>d<m. P (j + m + d))"
  for m j :: nat
proof
  assume "\<exists>d<2 * m. P (j + d)"
  then obtain d where d: "d < 2 * m" "P (j + d)" by blast
  show "(\<exists>d<m. P (j + d)) \<or> (\<exists>d<m. P (j + m + d))"
  proof (cases "d < m")
    case False
    then have "d - m < m" "P (j + m + (d - m))" using d by auto
    then show ?thesis by blast
  qed (use d in blast)
next
  assume "(\<exists>d<m. P (j + d)) \<or> (\<exists>d<m. P (j + m + d))"
  then show "\<exists>d<2 * m. P (j + d)"
  proof
    assume "\<exists>d<m. P (j + m + d)"
    then obtain d where "d < m" "P (j + (m + d))" by (auto simp: add.assoc)
    then show ?thesis by (intro exI [of _ "m + d"]) auto
  next
    assume "\<exists>d<m. P (j + d)"
    then obtain d where "d < m" "P (j + d)" by blast
    then show ?thesis by (intro exI [of _ d]) auto
  qed
qed

lemma bit_smear_step:
  fixes x n :: u64
  assumes "\<And>j. bit x j \<longleftrightarrow> (\<exists>d<m. bit n (j + d))"
  shows "bit (x OR drop_bit m x) j \<longleftrightarrow> (\<exists>d<2 * m. bit n (j + d))"
  unfolding bit_or_drop_bit assms by (rule ex_less_double [symmetric])

lemma bit_smear32: "bit (smear32 n) j \<longleftrightarrow> (\<exists>d<32. bit n (j + d))"
proof -
  let ?a = "n OR drop_bit 1 n"
  let ?b = "?a OR drop_bit 2 ?a"
  let ?c = "?b OR drop_bit 4 ?b"
  let ?d = "?c OR drop_bit 8 ?c"
  have z: "bit n j \<longleftrightarrow> (\<exists>d<1. bit n (j + d))" for j by simp
  have a: "bit ?a j \<longleftrightarrow> (\<exists>d<2. bit n (j + d))" for j
    using bit_smear_step [of n 1 n, OF z] by simp
  have b: "bit ?b j \<longleftrightarrow> (\<exists>d<4. bit n (j + d))" for j
    using bit_smear_step [of ?a 2 n, OF a] by simp
  have c: "bit ?c j \<longleftrightarrow> (\<exists>d<8. bit n (j + d))" for j
    using bit_smear_step [of ?b 4 n, OF b] by simp
  have d: "bit ?d j \<longleftrightarrow> (\<exists>d<16. bit n (j + d))" for j
    using bit_smear_step [of ?c 8 n, OF c] by simp
  have "bit (?d OR drop_bit 16 ?d) j \<longleftrightarrow> (\<exists>d<32. bit n (j + d))"
    using bit_smear_step [of ?d 16 n, OF d] by simp
  then show ?thesis by (simp only: smear32_def Let_def)
qed

lemma bit_imp_exp_le: "bit n i \<Longrightarrow> 2 ^ i \<le> unat n" for n :: u64
proof (rule ccontr)
  assume "bit n i" "\<not> 2 ^ i \<le> unat n"
  then have "bit (unat n) i" "unat n div 2 ^ i = 0"
    by (auto simp: bit_unsigned_iff dest: bit_imp_le_length)
  then show False by (simp add: bit_iff_odd)
qed

lemma smear32_eq_mask:
  fixes n :: u64
  assumes top: "bit n k" and above: "\<And>i. bit n i \<Longrightarrow> i \<le> k" and "k < 32"
  shows "smear32 n = mask (Suc k)"
proof (rule bit_word_eqI)
  fix j assume "j < LENGTH(64)"
  have "(\<exists>d<32. bit n (j + d)) \<longleftrightarrow> j < Suc k"
  proof
    assume "\<exists>d<32. bit n (j + d)"
    then show "j < Suc k" using above by fastforce
  next
    assume "j < Suc k"
    then show "\<exists>d<32. bit n (j + d)"
      using top \<open>k < 32\<close> by (intro exI [of _ "k - j"]) auto
  qed
  then show "bit (smear32 n) j = bit (mask (Suc k) :: u64) j"
    using \<open>j < LENGTH(64)\<close> \<open>k < 32\<close> by (auto simp: bit_smear32 bit_mask_iff)
qed

lemma top_bit_exists:
  fixes n :: u64
  assumes "n \<noteq> 0"
  obtains k where "bit n k" "\<And>i. bit n i \<Longrightarrow> i \<le> k"
proof -
  let ?S = "{i. bit n i}"
  have fin: "finite ?S"
    by (rule finite_subset [of _ "{..<64}"]) (auto dest: bit_imp_le_length)
  have "?S \<noteq> {}" using assms by (auto simp: bit_eq_iff)
  then have "bit n (Max ?S)" "\<And>i. bit n i \<Longrightarrow> i \<le> Max ?S"
    using Max_in [OF fin] Max_ge [OF fin] by auto
  then show ?thesis by (rule that)
qed

lemma unat_less_if_top:
  fixes n :: u64
  assumes "\<And>i. bit n i \<Longrightarrow> i \<le> k" "k < 32"
  shows "unat n < 2 ^ Suc k"
proof -
  have "take_bit (Suc k) n = n"
    using assms(1) by (auto simp: bit_eq_iff bit_take_bit_iff less_Suc_eq_le)
  then have "unat n = unat (take_bit (Suc k) n)" by simp
  also have "\<dots> < 2 ^ Suc k" by (simp add: unsigned_take_bit_eq del: power_Suc)
  finally show ?thesis .
qed

lemma next_pow2_exact:
  assumes "inp \<noteq> 0" "unat inp \<le> 2 ^ 32"
  obtains k where "k \<le> 32" "unat (next_pow2 inp) = 2 ^ k"
    "unat inp \<le> 2 ^ k" "2 ^ k < 2 * unat inp"
proof (cases "inp = 1")
  case True
  then show ?thesis by (intro that [of 0]) (simp_all add: next_pow2_def)
next
  case False
  let ?n = "inp - 1"
  have un: "unat ?n = unat inp - 1" using assms(1) by (simp add: unat_minus_one)
  have "?n \<noteq> 0" using False by simp
  then obtain k where k: "bit ?n k" "\<And>i. bit ?n i \<Longrightarrow> i \<le> k"
    by (rule top_bit_exists) blast
  have lo: "2 ^ k \<le> unat ?n" by (rule bit_imp_exp_le) (rule k)
  then have "2 ^ k < (2 ^ 32 :: nat)"
    using un assms by (auto simp: unat_eq_zero)
  then have k32: "k < 32" by (rule power_less_imp_less_exp [rotated]) simp
  have up: "unat ?n < 2 ^ Suc k" by (rule unat_less_if_top) (use k k32 in auto)
  have sm: "smear32 ?n = mask (Suc k)" by (rule smear32_eq_mask) (use k k32 in auto)
  have "next_pow2 inp = 2 ^ Suc k"
    using next_pow2_smear [OF assms(1)] by (simp add: sm mask_eq_exp_minus_1)
  moreover have "unat (2 ^ Suc k :: u64) = 2 ^ Suc k" using k32
    by (intro unat_exp_word) simp
  moreover have "unat inp \<le> 2 ^ Suc k" "2 ^ Suc k < 2 * unat inp"
    using lo up un assms(1) by (auto simp: unat_eq_zero)
  ultimately show ?thesis using k32 by (intro that [of "Suc k"]) auto
qed

lemma smear32_ge: "n \<le> smear32 n"
proof -
  have "n = smear32 n AND n"
    by (rule bit_word_eqI) (auto simp: bit_and_iff bit_smear32 intro!: exI [of _ "0::nat"])
  then show ?thesis by (metis word_and_le2)
qed

lemma next_pow2_ge: "next_pow2 inp \<noteq> 0 \<Longrightarrow> inp \<le> next_pow2 inp"
proof -
  assume nz: "next_pow2 inp \<noteq> 0"
  then have i0: "inp \<noteq> 0" by (auto simp: next_pow2_def)
  then have "smear32 (inp - 1) + 1 \<noteq> 0" using nz by (simp add: next_pow2_smear)
  then have "unat (smear32 (inp - 1) + 1) = unat (smear32 (inp - 1)) + 1"
    by (simp add: unatSuc add.commute)
  moreover have "unat (inp - 1) \<le> unat (smear32 (inp - 1))"
    using smear32_ge word_le_nat_alt by blast
  moreover have "unat (inp - 1) = unat inp - 1" using i0 by (simp add: unat_minus_one)
  ultimately show ?thesis using i0 by (simp add: next_pow2_smear word_le_nat_alt)
qed

lemma length_c_realloc [c_simps]: "c_realloc ok pad old n = Some bs \<Longrightarrow> length bs = n"
  by (auto simp: c_realloc_def Let_def split: if_splits option.splits)

lemma c_realloc_prefix [c_simps]:
  "c_realloc ok pad (Some old) n = Some bs \<Longrightarrow> length old \<le> n \<Longrightarrow> take (length old) bs = old"
  by (auto simp: c_realloc_def Let_def split: if_splits)

lemma maybe_grow_grown:
  assumes "\<not> (n \<noteq> 0 \<and> gb_size b \<ge> n)"
  obtains m where "maybe_grow ok pad b n =
      (c_realloc ok pad (gb_buf b) (unat m),
       \<lparr>gb_buf = c_realloc ok pad (gb_buf b) (unat m), gb_size = (if ok then m else 0)\<rparr>)"
    "n \<le> m" "n = 0 \<longrightarrow> m = 64"
proof -
  let ?n = "if n < INITIAL_GROWTH_SIZE then INITIAL_GROWTH_SIZE else n"
  let ?m = "if next_pow2 ?n = 0 then ?n else next_pow2 ?n"
  have m: "?n \<le> ?m" using next_pow2_ge [of ?n] by auto
  have n: "n \<le> ?n" by (auto simp: INITIAL_GROWTH_SIZE_def not_less)
  have "next_pow2 64 = 64" by (simp add: next_pow2_def Let_def)
  then have "?m = 64" if "n = 0" using that by (simp add: INITIAL_GROWTH_SIZE_def)
  then show ?thesis
    using that [of ?m] assms m n by (auto simp: maybe_grow_def Let_def c_realloc_def split: if_splits)
qed

lemma next_pow2_above:
  fixes inp :: u64
  assumes "32 \<le> h" "unat inp = 2 ^ h + low + 1" "low < 2 ^ (h - 32)"
  shows "2 ^ h < unat (next_pow2 inp) \<and> unat (next_pow2 inp) < 2 ^ Suc h"
proof -
  let ?n = "inp - 1" and ?a = "unat (smear32 (inp - 1))"
  have i0: "inp \<noteq> 0" using assms(2) by auto
  then have un: "unat ?n = 2 ^ h + low" using assms(2) by (simp add: unat_minus_one)
  have bits: "bit ?n i \<longleftrightarrow> i = h \<or> bit low i" for i
  proof -
    have "unat ?n = set_bit h low"
      using assms(3) by (simp add: un set_bit_eq bit_iff_odd div_less order.strict_trans2 [OF _ power_increasing])
    then have "bit (unat ?n) i \<longleftrightarrow> i = h \<or> bit low i" by (auto simp: bit_set_bit_iff)
    then show ?thesis by (auto simp: bit_unsigned_iff dest: bit_imp_le_length)
  qed
  have low: "i < h - 32" if "bit low i" for i
  proof (rule ccontr)
    assume "\<not> i < h - 32"
    then have "low < 2 ^ i" using assms(3) by (meson leI less_le_trans one_le_numeral power_increasing)
    then show False using that by (simp add: bit_iff_odd)
  qed
  have le: "i \<le> h" if "bit ?a i" for i
    using that low bits by (fastforce simp: bit_unsigned_iff bit_smear32)
  have gap: "\<not> bit ?a (h - 32)"
    using low bits assms(1) by (fastforce simp: bit_unsigned_iff bit_smear32)
  have "take_bit (Suc h) ?a = ?a" using le by (auto simp: bit_eq_iff bit_take_bit_iff less_Suc_eq_le)
  then have "?a < 2 ^ Suc h" by (metis take_bit_nat_less_exp)
  moreover have "?a \<noteq> 2 ^ Suc h - 1" using gap assms(1) by (metis bit_mask_iff less_Suc_eq_le mask_eq_exp_minus_1 diff_le_self possible_bit_nat)
  ultimately have hi: "?a + 1 < 2 ^ Suc h" by linarith
  have "unat inp < 2 ^ 64" using unsigned_less [of inp] by simp
  moreover have "2 ^ h < unat inp" using assms(2) by simp
  ultimately have "h < 64" by (meson less_trans power_less_imp_less_exp one_less_numeral_iff semiring_norm(76))
  then have "(2 :: nat) ^ Suc h \<le> 2 ^ 64" by (intro power_increasing) auto
  then have "unat (smear32 ?n + 1) = ?a + 1" using hi by (simp add: unat_word_ariths)
  moreover have "2 ^ h \<le> ?a" using smear32_ge [of ?n] un by (simp add: word_le_nat_alt)
  ultimately show ?thesis using hi next_pow2_smear [OF i0] by simp
qed

section \<open>Properties\<close>

text \<open>
  C35: For a non-zero requested size of at most \<open>2\<^sup>3\<^sup>2\<close> bytes, \<open>next_pow2\<close> returns the least power of
  two that is at least the request: a power of two, not below the request and less than twice it.
\<close>
theorem next_pow2_rounds_up:
  assumes "inp \<noteq> 0" "unat inp \<le> 2 ^ 32"
  shows "\<exists>k\<le>32. unat (next_pow2 inp) = 2 ^ k \<and> unat inp \<le> 2 ^ k \<and> 2 ^ k < 2 * unat inp"
  using next_pow2_exact [OF assms] by metis

theorem next_pow2_rounds_up_witness:
  "\<exists>k\<le>32. unat (next_pow2 100) = 2 ^ k \<and> (100::nat) \<le> 2 ^ k \<and> 2 ^ k < (200::nat)"
  using next_pow2_rounds_up [of 100] by simp

lemma maybe_grow_spec:
  assumes ok: "grow_buf_ok b" and run: "maybe_grow alloc_ok pad b n = (r, b')"
  shows "grow_buf_ok b' \<and> r = gb_buf b' \<and>
    (\<forall>bs'. r = Some bs' \<longrightarrow> unat n \<le> length bs' \<and> (n = 0 \<longrightarrow> length bs' = 64) \<and>
       (\<forall>bs. gb_buf b = Some bs \<longrightarrow> take (length bs) bs' = (if n = 0 then take 64 bs else bs))) \<and>
    (alloc_ok \<longrightarrow> r \<noteq> None)"
proof (cases "n \<noteq> 0 \<and> gb_size b \<ge> n")
  case True
  then show ?thesis
    using ok run by (auto simp: maybe_grow_def grow_buf_ok_def word_le_nat_alt unat_eq_zero
        split: option.splits)
next
  case False
  obtain m where m: "maybe_grow alloc_ok pad b n =
      (c_realloc alloc_ok pad (gb_buf b) (unat m),
       \<lparr>gb_buf = c_realloc alloc_ok pad (gb_buf b) (unat m), gb_size = (if alloc_ok then m else 0)\<rparr>)"
    and nm: "n \<le> m" and m0: "n = 0 \<longrightarrow> m = 64"
    by (rule maybe_grow_grown [OF False, of alloc_ok pad])
  have len: "length bs \<le> unat m" if "n \<noteq> 0" "gb_buf b = Some bs" for bs
    using that ok False nm by (auto simp: grow_buf_ok_def word_le_nat_alt)
  show ?thesis
  proof (cases alloc_ok)
    case True
    then obtain bs' where bs': "c_realloc alloc_ok pad (gb_buf b) (unat m) = Some bs'"
      by (auto simp: c_realloc_def Let_def)
    have "take (length bs) bs' = (if n = 0 then take 64 bs else bs)" if "gb_buf b = Some bs" for bs
      using bs' len [OF _ that] m0 True that by (auto simp: c_realloc_def Let_def min_def)
    then show ?thesis
      using run m nm m0 True bs' by (auto simp: grow_buf_ok_def word_le_nat_alt length_c_realloc)
  next
    case False
    then show ?thesis using run m by (auto simp: grow_buf_ok_def c_realloc_def)
  qed
qed

text \<open>
  C34: \<open>maybe_grow\<close> keeps a buffer well-formed (its capacity is the length of its block) whether or
  not the reallocation succeeds, and returns NULL only when the allocator does.  A non-NULL result has
  at least the requested capacity, and a request for a non-zero size keeps every byte that was in the
  buffer.  A request for zero bytes reallocates to exactly 64 bytes, also a larger buffer, of which
  only the first 64 bytes are left.
\<close>
theorem maybe_grow_correct:
  assumes ok: "grow_buf_ok b" and run: "maybe_grow alloc_ok pad b n = (r, b')"
  shows "grow_buf_ok b' \<and> r = gb_buf b' \<and>
    (\<forall>bs'. r = Some bs' \<longrightarrow> unat n \<le> length bs' \<and> (n = 0 \<longrightarrow> length bs' = 64) \<and>
       (\<forall>bs. gb_buf b = Some bs \<longrightarrow> take (length bs) bs' = (if n = 0 then take 64 bs else bs))) \<and>
    (alloc_ok \<longrightarrow> r \<noteq> None)"
  by (rule maybe_grow_spec [OF ok run])

theorem maybe_grow_correct_witness:
  "\<exists>bs. fst (maybe_grow True (\<lambda>_. 0) \<lparr>gb_buf = Some [7, 9], gb_size = 2\<rparr> 3) = Some bs \<and>
     unat (3::u64) \<le> length bs \<and> take (length [7, 9::u8]) bs = [7, 9]"
proof -
  let ?b = "\<lparr>gb_buf = Some [7, 9], gb_size = 2\<rparr>"
  let ?r = "maybe_grow True (\<lambda>_. 0) ?b 3"
  have ok: "grow_buf_ok ?b" by (simp add: grow_buf_ok_def)
  have "?r = (fst ?r, snd ?r)" by simp
  note spec = maybe_grow_correct [OF ok this]
  then obtain bs where bs: "fst ?r = Some bs" by blast
  then have "unat (3::u64) \<le> length bs" "take (length [7, 9::u8]) bs = (if (3::u64) = 0 then take 64 [7, 9] else [7, 9])"
    using spec by (blast, simp)
  then show ?thesis using bs by auto
qed

text \<open>
  C36: Beyond \<open>2\<^sup>3\<^sup>2\<close> the computation of \<open>next_pow2\<close> can miss the power of two: its last shift is by
  16, so a bit of the request less one is copied to the 31 places below it only.  For a request
  \<open>2\<^sup>h + low + 1\<close> with \<open>32 \<le> h\<close> and \<open>low < 2\<^sup>h\<^sup>-\<^sup>3\<^sup>2\<close> the result lies strictly between \<open>2\<^sup>h\<close> and \<open>2\<^sup>h\<^sup>+\<^sup>1\<close>, so it
  is no power of two.
\<close>
theorem next_pow2_large_not_power:
  assumes "32 \<le> h" "unat inp = 2 ^ h + low + 1" "low < 2 ^ (h - 32)"
  shows "2 ^ h < unat (next_pow2 inp) \<and> unat (next_pow2 inp) < 2 ^ Suc h \<and> (\<nexists>k. unat (next_pow2 inp) = 2 ^ k)"
proof -
  note b = next_pow2_above [OF assms]
  have "\<nexists>k. unat (next_pow2 inp) = 2 ^ k"
  proof
    assume "\<exists>k. unat (next_pow2 inp) = 2 ^ k"
    then obtain k where "2 ^ h < (2 :: nat) ^ k" "(2 :: nat) ^ k < 2 ^ Suc h" using b by auto
    then have "h < k" "k < Suc h" by (meson one_less_numeral_iff power_less_imp_less_exp semiring_norm(76))+
    then show False by simp
  qed
  with b show ?thesis by blast
qed

theorem next_pow2_large_not_power_witness: "\<nexists>k. unat (next_pow2 (2 ^ 40 + 1)) = 2 ^ k"
  using next_pow2_large_not_power [of 40 "2 ^ 40 + 1" 0] by simp

end
