(* ===== verification/GM_Random.thy ===== *)
theory GM_Random
  imports Fuzz_Prelude
begin

text \<open>
  The random numbers of the grammar mutator (\<^verbatim>\<open>Grammar-Mutator/src/utils.c\<close>): seeding, the Romu
  generators in their 64-bit and 32-bit variants, and the unbiased \<open>random_below\<close>.  The locale
  \<open>random_source\<close> states what every client of \<open>random_below\<close> relies on; it is interpreted on both
  generators.
\<close>

section \<open>Generators\<close>

record 'w rng =
  seed0 :: 'w
  seed1 :: 'w
  seed2 :: 'w

definition ROTL :: "'a::len word \<Rightarrow> nat \<Rightarrow> 'a word" where
  "ROTL d lrot = push_bit lrot d OR drop_bit (LENGTH('a) - lrot) d"

definition HASH_SEED :: u64 where
  "HASH_SEED = 0xa5b35705"

definition le64 :: "u64 \<Rightarrow> u8 list" where
  "le64 w = map (\<lambda>i. ucast (drop_bit (8 * i) w)) [0..<8]"

text \<open>
  \<open>xxh64\<close> stands for the hash function \<^verbatim>\<open>XXH64\<close>.  With 32-bit words the constants are
  truncated by the assignment to \<^verbatim>\<open>RANDOM_RETURN\<close>, which \<open>ucast\<close> does here.
\<close>

definition random_set_seed :: "(u8 list \<Rightarrow> u64 \<Rightarrow> u64) \<Rightarrow> u64 \<Rightarrow> 'w::len word rng" where
  "random_set_seed xxh64 seed =
     (let s0 = ucast (xxh64 (le64 seed) HASH_SEED) :: 'w word;
          s1 = ucast (ucast s0 XOR (0x1234567890abcdef :: u64));
          s2 = ucast ((ucast s0 AND 0x1234567890abcdef) XOR (ucast s1 OR (0xfedcba9876543210 :: u64)))
      in \<lparr>seed0 = s0, seed1 = s1, seed2 = s2\<rparr>)"

definition random_next64 :: "u64 rng \<Rightarrow> u64 \<times> u64 rng" where
  "random_next64 s =
     (let xp = seed0 s;
          s = s\<lparr>seed0 := 15241094284759029579 * seed1 s\<rparr>;
          s = s\<lparr>seed1 := seed1 s - xp\<rparr>;
          s = s\<lparr>seed1 := ROTL (seed1 s) 27\<rparr>
      in (xp, s))"

definition random_next32 :: "u32 rng \<Rightarrow> u32 \<times> u32 rng" where
  "random_next32 s =
     (let xp = seed0 s; yp = seed1 s; zp = seed2 s;
          s = s\<lparr>seed0 := 3323815723 * zp\<rparr>;
          s = s\<lparr>seed1 := yp - xp\<rparr>;
          s = s\<lparr>seed1 := ROTL (seed1 s) 6\<rparr>;
          s = s\<lparr>seed2 := zp - yp\<rparr>;
          s = s\<lparr>seed2 := ROTL (seed2 s) 22\<rparr>
      in (xp, s))"

section \<open>Drawing below a limit\<close>

definition rnd_threshold :: "u32 \<Rightarrow> u64" where
  "rnd_threshold limit = - 1 - (- 1) mod ucast limit"

text \<open>
  The rejection loop draws until a value lies under the threshold; nothing in the source bounds the
  number of draws, so a run that never ends is \<open>None\<close>.  \<open>nx\<close> is the generator's step with its
  result widened to \<^verbatim>\<open>uint64_t\<close>.
\<close>

partial_function (option) random_below ::
  "('s \<Rightarrow> u64 \<times> 's) \<Rightarrow> u32 \<Rightarrow> 's \<Rightarrow> (u32 \<times> 's) option" where
  "random_below nx limit s =
     (if limit \<le> 1 then Some (0, s)
      else (case nx s of (unbiased_rnd, s') \<Rightarrow>
        if unbiased_rnd \<ge> rnd_threshold limit then random_below nx limit s'
        else Some (ucast (unbiased_rnd mod ucast limit), s')))"

definition widen32 :: "u32 \<times> 's \<Rightarrow> u64 \<times> 's" where
  "widen32 r = (ucast (fst r), snd r)"

text \<open>
  Clients draw from a source whose state is \<open>None\<close> once a draw did not return: the program hangs
  there, and the value that comes with it is never used by a running program.
\<close>

definition draw :: "('s \<Rightarrow> u64 \<times> 's) \<Rightarrow> 's option \<Rightarrow> u32 \<Rightarrow> u32 \<times> 's option" where
  "draw nx st limit =
     (case st of None \<Rightarrow> (0, None)
      | Some s \<Rightarrow> (case random_below nx limit s of None \<Rightarrow> (0, None) | Some (v, s') \<Rightarrow> (v, Some s')))"

section \<open>The interface of the clients\<close>

locale random_source =
  fixes rb :: "'r \<Rightarrow> u32 \<Rightarrow> u32 \<times> 'r"
  assumes rb_trivial: "limit \<le> 1 \<Longrightarrow> fst (rb r limit) = 0"
    and rb_bound: "1 < limit \<Longrightarrow> fst (rb r limit) < limit"
begin

lemma rb_less: "limit \<noteq> 0 \<Longrightarrow> fst (rb r limit) < limit"
  using rb_trivial [of limit r] rb_bound [of limit r]
  by (cases "limit \<le> 1") (auto simp: not_le word_gt_0)

lemma rb_nat_less:
  assumes "0 < n" "n < 2 ^ 32"
  shows "unat (fst (rb r (of_nat n))) < n"
proof -
  have "unat (of_nat n :: u32) = n" using assms by simp
  then have "(of_nat n :: u32) \<noteq> 0" using assms(1) by (metis less_irrefl unat_0)
  from rb_less [OF this, of r] show ?thesis
    using assms by (simp add: word_less_nat_alt)
qed

end

section \<open>Lemmas\<close>

lemma random_below_bound:
  assumes "random_below nx limit s = Some (v, s')"
  shows "(limit \<le> 1 \<longrightarrow> v = 0) \<and> (1 < limit \<longrightarrow> v < limit)"
proof -
  have "case vs of (v, s') \<Rightarrow> (limit \<le> 1 \<longrightarrow> v = 0) \<and> (1 < limit \<longrightarrow> v < limit)"
    if "random_below nx limit s = Some vs" for vs
  proof (rule random_below.raw_induct [where P = "\<lambda>nx limit s vs. case vs of (v, s') \<Rightarrow>
        (limit \<le> 1 \<longrightarrow> v = 0) \<and> (1 < limit \<longrightarrow> v < limit)", OF _ that])
    fix rec :: "('a \<Rightarrow> u64 \<times> 'a) \<Rightarrow> u32 \<Rightarrow> 'a \<Rightarrow> (u32 \<times> 'a) option"
    fix nx and limit :: u32 and s and vs :: "u32 \<times> 'a"
    assume IH: "\<And>nx limit s y. rec nx limit s = Some y \<Longrightarrow>
        case y of (v, s') \<Rightarrow> (limit \<le> 1 \<longrightarrow> v = 0) \<and> (1 < limit \<longrightarrow> v < limit)"
      and eq: "(if limit \<le> 1 then Some (0, s)
        else (case nx s of (unbiased_rnd, s') \<Rightarrow>
          if unbiased_rnd \<ge> rnd_threshold limit then rec nx limit s'
          else Some (ucast (unbiased_rnd mod ucast limit), s'))) = Some vs"
    have less: "ucast (x mod ucast limit) < limit" if "1 < limit" for x :: u64
    proof -
      have "unat limit \<noteq> 0" using that by (auto simp: unat_eq_zero)
      then have "unat (x mod ucast limit) < unat limit"
        by (simp add: unat_mod)
      then show ?thesis
        by (simp add: word_less_nat_alt unsigned_ucast_eq order.strict_trans1 [OF take_bit_nat_less_eq_self])
    qed
    show "case vs of (v, s') \<Rightarrow> (limit \<le> 1 \<longrightarrow> v = 0) \<and> (1 < limit \<longrightarrow> v < limit)"
    proof (cases "limit \<le> 1")
      case True
      then show ?thesis using eq by (auto simp: not_less)
    next
      case False
      then show ?thesis using eq IH less
        by (auto split: if_splits prod.splits simp: not_le)
    qed
  qed
  then show ?thesis using assms by fastforce
qed

lemma random_source_draw: "random_source (draw nx)"
proof
  fix limit :: u32 and r
  show "fst (draw nx r limit) = 0" if "limit \<le> 1"
    using that by (auto simp: draw_def split: option.splits dest: random_below_bound)
  show "fst (draw nx r limit) < limit" if "1 < limit"
  proof -
    have "0 < limit" using that by (rule order.strict_trans2 [rotated, OF less_imp_le]) simp
    then show ?thesis using that
      by (auto simp: draw_def split: option.splits dest: random_below_bound)
  qed
qed

interpretation romu64: random_source "draw random_next64"
  by (rule random_source_draw)

interpretation romu32: random_source "draw (widen32 \<circ> random_next32)"
  by (rule random_source_draw)

lemma unat_minus_one_u64: "unat (- 1 :: u64) = 2 ^ 64 - 1"
  by (simp add: unsigned_minus_1_eq_mask mask_eq_exp_minus_1)

lemma unat_rnd_threshold:
  assumes "limit \<noteq> 0"
  shows "unat (rnd_threshold limit) = unat limit * ((2 ^ 64 - 1) div unat limit)"
proof -
  let ?M = "2 ^ 64 - 1 :: nat"
  have "unat ((- 1 :: u64) mod ucast limit) = ?M mod unat limit"
    by (simp add: unat_mod unat_minus_one_u64)
  moreover have "(- 1 :: u64) mod ucast limit \<le> - 1" by simp
  ultimately have "unat (rnd_threshold limit) = ?M - ?M mod unat limit"
    by (simp add: rnd_threshold_def unat_sub unat_minus_one_u64)
  then show ?thesis by (simp add: minus_mod_eq_mult_div)
qed

lemma mult_div_ge: "0 < L \<Longrightarrow> L < b \<Longrightarrow> 2 * b \<le> a \<Longrightarrow> b \<le> L * (a div L)" for L a b :: nat
proof -
  assume "0 < L" "L < b" "2 * b \<le> a"
  moreover have "L * (a div L) + a mod L = a" by simp
  moreover have "a mod L < L" using \<open>0 < L\<close> by simp
  ultimately show ?thesis by linarith
qed

lemma card_residue_class:
  fixes L q r :: nat
  assumes "r < L"
  shows "card {n. n < L * q \<and> n mod L = r} = q"
proof -
  have "{n. n < L * q \<and> n mod L = r} = (\<lambda>k. k * L + r) ` {..<q}"
  proof (intro set_eqI iffI)
    fix n assume n: "n \<in> {n. n < L * q \<and> n mod L = r}"
    then have "n div L < q" using assms by (simp add: less_mult_imp_div_less mult.commute)
    moreover have "n = n div L * L + r" using n by (metis (mono_tags) div_mult_mod_eq mem_Collect_eq)
    ultimately show "n \<in> (\<lambda>k. k * L + r) ` {..<q}" by blast
  next
    fix n assume "n \<in> (\<lambda>k. k * L + r) ` {..<q}"
    then obtain k where k: "k < q" "n = k * L + r" by auto
    then have "k * L + L \<le> q * L" by (metis Suc_leI add.commute mult_Suc mult_le_mono1)
    then show "n \<in> {n. n < L * q \<and> n mod L = r}" using k assms by (simp add: mult.commute)
  qed
  moreover have "inj_on (\<lambda>k. k * L + r) {..<q}" using assms by (auto simp: inj_on_def)
  ultimately show ?thesis by (simp add: card_image)
qed

lemma card_accepted:
  assumes "1 < limit" "r < limit"
  shows "card {v :: u64. \<not> v \<ge> rnd_threshold limit \<and> ucast (v mod ucast limit) = r} =
    (2 ^ 64 - 1) div unat limit"
proof -
  let ?L = "unat limit" and ?q = "(2 ^ 64 - 1) div unat limit"
  let ?V = "{v :: u64. \<not> v \<ge> rnd_threshold limit \<and> ucast (v mod ucast limit) = r}"
  have L0: "limit \<noteq> 0" using assms by auto
  have T: "unat (rnd_threshold limit) = ?L * ?q" by (rule unat_rnd_threshold [OF L0])
  have res: "ucast (v mod ucast limit) = r \<longleftrightarrow> unat v mod ?L = unat r" for v :: u64
  proof -
    have "unat v mod ?L < ?L" using L0 by (simp add: unat_gt_0)
    also have "\<dots> < 2 ^ 32" using unsigned_less [of limit] by simp
    finally have "unat v mod ?L < 2 ^ 32" .
    then have "unat (ucast (v mod ucast limit) :: u32) = unat v mod ?L"
      by (simp add: unsigned_ucast_eq take_bit_nat_eq_self unat_mod)
    then show ?thesis by (metis word_unat_eq_iff)
  qed
  have "unat ` ?V = {n. n < ?L * ?q \<and> n mod ?L = unat r}"
  proof (intro set_eqI iffI)
    fix n assume "n \<in> unat ` ?V"
    then show "n \<in> {n. n < ?L * ?q \<and> n mod ?L = unat r}"
      by (auto simp: T res word_le_nat_alt)
  next
    fix n assume n: "n \<in> {n. n < ?L * ?q \<and> n mod ?L = unat r}"
    have "n < ?L * ?q" using n by blast
    also have "\<dots> \<le> 2 ^ 64 - 1" by (rule times_div_less_eq_dividend)
    finally have "n < 2 ^ 64" by simp
    then have "unat (of_nat n :: u64) = n" by (intro unat_of_nat_small) simp
    then show "n \<in> unat ` ?V"
      using n by (intro image_eqI [of _ _ "of_nat n"]) (auto simp: res word_le_nat_alt T)
  qed
  moreover have "card (unat ` ?V) = card ?V"
    by (rule card_image) (simp add: inj_on_def word_unat_eq_iff)
  ultimately have "card ?V = card {n. n < ?L * ?q \<and> n mod ?L = unat r}" by simp
  also have "\<dots> = ?q" by (rule card_residue_class) (use assms in \<open>simp add: word_less_nat_alt\<close>)
  finally show ?thesis .
qed

text \<open>A run on a sequence of draws: the first value under the threshold decides.\<close>

definition accepted_at :: "(nat \<Rightarrow> u64) \<Rightarrow> u32 \<Rightarrow> nat \<Rightarrow> u32 \<Rightarrow> nat \<Rightarrow> bool" where
  "accepted_at f limit i r k \<longleftrightarrow> i \<le> k \<and> (\<forall>m. i \<le> m \<and> m < k \<longrightarrow> rnd_threshold limit \<le> f m)
     \<and> \<not> rnd_threshold limit \<le> f k \<and> ucast (f k mod ucast limit) = r"

lemma accepted_at_step:
  "rnd_threshold limit \<le> f i \<Longrightarrow> accepted_at f limit i r k \<longleftrightarrow> accepted_at f limit (Suc i) r k"
  unfolding accepted_at_def by (metis Suc_le_eq le_eq_less_or_eq)

lemma random_below_accepted:
  assumes "1 < limit" "random_below (\<lambda>i. (f i, Suc i)) limit i = Some (r, j)"
  shows "\<exists>k. j = Suc k \<and> accepted_at f limit i r k"
proof -
  have "nx = (\<lambda>i. (f i, Suc i)) \<and> 1 < l \<longrightarrow> (\<exists>k. snd vs = Suc k \<and> accepted_at f l i (fst vs) k)"
    if "random_below nx l i = Some vs" for nx l i vs
  proof (rule random_below.raw_induct [where P = "\<lambda>nx l i vs. nx = (\<lambda>i. (f i, Suc i)) \<and> 1 < l \<longrightarrow>
        (\<exists>k. snd vs = Suc k \<and> accepted_at f l i (fst vs) k)", OF _ that], intro impI, elim conjE)
    fix rec :: "(nat \<Rightarrow> u64 \<times> nat) \<Rightarrow> u32 \<Rightarrow> nat \<Rightarrow> (u32 \<times> nat) option"
    fix nx and l :: u32 and i and vs :: "u32 \<times> nat"
    assume IH: "\<And>nx l i vs. rec nx l i = Some vs \<Longrightarrow> nx = (\<lambda>i. (f i, Suc i)) \<and> 1 < l \<longrightarrow>
        (\<exists>k. snd vs = Suc k \<and> accepted_at f l i (fst vs) k)"
      and eq: "(if l \<le> 1 then Some (0, i)
        else (case nx i of (unbiased_rnd, s') \<Rightarrow>
          if unbiased_rnd \<ge> rnd_threshold l then rec nx l s'
          else Some (ucast (unbiased_rnd mod ucast l), s'))) = Some vs"
      and nx: "nx = (\<lambda>i. (f i, Suc i))" and l: "1 < l"
    show "\<exists>k. snd vs = Suc k \<and> accepted_at f l i (fst vs) k"
    proof (cases "rnd_threshold l \<le> f i")
      case True
      then have "rec nx l (Suc i) = Some vs" using eq nx l by (simp add: not_le [symmetric])
      from IH [OF this] show ?thesis using nx l accepted_at_step [of l f i] True by blast
    next
      case False
      then have "vs = (ucast (f i mod ucast l), Suc i)" using eq nx l by (simp add: not_le [symmetric])
      then show ?thesis using False by (auto simp: accepted_at_def)
    qed
  qed
  then show ?thesis using assms by fastforce
qed

lemma accepted_random_below:
  "1 < limit \<Longrightarrow> accepted_at f limit i r k \<Longrightarrow> random_below (\<lambda>i. (f i, Suc i)) limit i = Some (r, Suc k)"
proof (induction "k - i" arbitrary: i)
  case 0
  then have "i = k" by (simp add: accepted_at_def)
  then show ?case using 0 by (simp add: random_below.simps [of _ limit k] accepted_at_def not_le [symmetric])
next
  case (Suc n)
  then have "i < k" "rnd_threshold limit \<le> f i" by (auto simp: accepted_at_def)
  moreover from this have "random_below (\<lambda>i. (f i, Suc i)) limit (Suc i) = Some (r, Suc k)"
    using Suc accepted_at_step [of limit f i r k] by simp
  ultimately show ?case using Suc.prems(1) by (simp add: random_below.simps [of _ limit i] not_le [symmetric])
qed

lemma random_below_stream:
  "1 < limit \<Longrightarrow> random_below (\<lambda>i. ((f(k := v)) i, Suc i)) limit 0 = Some (r, Suc k) \<longleftrightarrow>
     (\<forall>i<k. rnd_threshold limit \<le> f i) \<and> \<not> rnd_threshold limit \<le> v \<and> ucast (v mod ucast limit) = r"
proof -
  assume l: "1 < limit"
  have "random_below (\<lambda>i. ((f(k := v)) i, Suc i)) limit 0 = Some (r, Suc k) \<longleftrightarrow> accepted_at (f(k := v)) limit 0 r k"
    using random_below_accepted [OF l, of "f(k := v)" 0 r "Suc k"] accepted_random_below [OF l, of "f(k := v)" 0 r k] by auto
  then show ?thesis by (auto simp: accepted_at_def)
qed

text \<open>The step of the 64-bit generator backwards.\<close>

lemma ROTL_inverse:
  fixes x :: u64
  shows "ROTL (ROTL x 27) 37 = x" "ROTL (ROTL x 37) 27 = x"
  by (rule bit_word_eqI, auto simp: ROTL_def bit_or_iff bit_push_bit_iff bit_drop_bit_eq dest: bit_imp_le_length)+

lemma romu64_inv:
  fixes x :: u64
  shows "4888251478366616163 * (15241094284759029579 * x) = x" "15241094284759029579 * (4888251478366616163 * x) = x"
proof -
  have "(4888251478366616163 * 15241094284759029579 :: u64) = 1" "(15241094284759029579 * 4888251478366616163 :: u64) = 1"
    by simp_all
  then show "4888251478366616163 * (15241094284759029579 * x) = x" "15241094284759029579 * (4888251478366616163 * x) = x"
    by (simp_all only: mult.assoc [symmetric]) simp_all
qed

definition romu64_back :: "u64 rng \<Rightarrow> u64 rng" where
  "romu64_back s =
     (let y = 4888251478366616163 * seed0 s
      in s\<lparr>seed0 := y - ROTL (seed1 s) 37, seed1 := y\<rparr>)"

lemmas romu64_simps = random_next64_def romu64_back_def Let_def snd_conv rng.select_convs rng.update_convs
  romu64_inv ROTL_inverse

lemma romu64_back_next: "romu64_back (snd (random_next64 s)) = s"
  by (cases s) (simp only: romu64_simps, simp)

lemma romu64_next_back: "snd (random_next64 (romu64_back s)) = s"
  by (cases s) (simp only: romu64_simps, simp add: ROTL_inverse)

section \<open>Properties\<close>

text \<open>
  C30: Whatever the generator, a draw of \<open>random_below\<close> that returns is 0 for a limit of at most 1
  and lies strictly below any larger limit.
\<close>
theorem random_below_in_range:
  assumes "random_below nx limit s = Some (v, s')"
  shows "(limit \<le> 1 \<longrightarrow> v = 0 \<and> s' = s) \<and> (1 < limit \<longrightarrow> v < limit)"
proof -
  have "limit \<le> 1 \<Longrightarrow> s' = s" using assms by (simp add: random_below.simps)
  then show ?thesis using random_below_bound [OF assms] by blast
qed

theorem random_below_in_range_witness:
  "random_below random_next64 10 \<lparr>seed0 = 37, seed1 = 5, seed2 = 0\<rparr> =
     Some (7, snd (random_next64 \<lparr>seed0 = 37, seed1 = 5, seed2 = 0\<rparr>)) \<and> (7::u32) < 10"
proof -
  have "random_below random_next64 10 \<lparr>seed0 = 37, seed1 = 5, seed2 = 0\<rparr> =
     Some (7, snd (random_next64 \<lparr>seed0 = 37, seed1 = 5, seed2 = 0\<rparr>))"
    by (subst random_below.simps)
      (simp add: random_next64_def Let_def rnd_threshold_def word_le_nat_alt)
  with random_below_in_range [OF this] show ?thesis by simp
qed

text \<open>
  C31: \<open>random_below\<close> is unbiased.  With the draws of the generator as a sequence \<open>f\<close>, the number of values
  of draw \<open>k\<close> for which the call returns \<open>r\<close> after that draw is the same for every \<open>r\<close> below the limit:
  none when an earlier draw was accepted, and \<open>(2\<^sup>6\<^sup>4 - 1) div limit\<close> otherwise.
\<close>
theorem random_below_unbiased:
  assumes "1 < limit" "r < limit"
  shows "card {v. random_below (\<lambda>i. ((f(k := v)) i, Suc i)) limit 0 = Some (r, Suc k)} =
    (if \<forall>i<k. rnd_threshold limit \<le> f i then (2 ^ 64 - 1) div unat limit else 0)"
proof (cases "\<forall>i<k. rnd_threshold limit \<le> f i")
  case True
  then have "{v. random_below (\<lambda>i. ((f(k := v)) i, Suc i)) limit 0 = Some (r, Suc k)}
      = {v. \<not> v \<ge> rnd_threshold limit \<and> ucast (v mod ucast limit) = r}"
    by (simp only: random_below_stream [OF assms(1)]) auto
  then show ?thesis using True card_accepted [OF assms] by simp
next
  case False
  then have "{v. random_below (\<lambda>i. ((f(k := v)) i, Suc i)) limit 0 = Some (r, Suc k)} = {}"
    by (simp only: random_below_stream [OF assms(1)]) auto
  then show ?thesis using False by (simp only: card.empty if_False)
qed

theorem random_below_unbiased_witness:
  "card {v. random_below (\<lambda>i. (((\<lambda>_. - 1)(1 := v)) i, Suc i)) 6 0 = Some (5, Suc 1)} = (2 ^ 64 - 1) div unat (6::u32)"
proof -
  have "rnd_threshold 6 \<le> - 1" by simp
  then show ?thesis using random_below_unbiased [of 6 5 "\<lambda>_. - 1" 1] by (simp add: word_less_nat_alt)
qed

text \<open>
  C32: On 32-bit targets every draw fits under the threshold, so \<open>random_below\<close> always returns, after
  at most one step of the generator.
\<close>
theorem random_below_32_returns:
  "\<exists>v s'. random_below (widen32 \<circ> random_next32) limit s = Some (v, s') \<and>
     (s' = s \<or> s' = snd (random_next32 s))"
proof (cases "limit \<le> 1")
  case True
  then show ?thesis by (simp add: random_below.simps)
next
  case False
  then have L: "limit \<noteq> 0" by auto
  let ?L = "unat limit" and ?M = "2 ^ 64 - 1 :: nat"
  have "unat (fst (random_next32 s)) < 2 ^ 32" using unsigned_less [of "fst (random_next32 s)"] by simp
  moreover have "2 ^ 32 \<le> unat (rnd_threshold limit)"
  proof -
    have "?L < 2 ^ 32" using unsigned_less [of limit] by simp
    moreover have "0 < ?L" using L by (simp add: unat_gt_0)
    ultimately have "2 ^ 32 \<le> ?L * (?M div ?L)" by (intro mult_div_ge) simp_all
    then show ?thesis by (simp only: unat_rnd_threshold [OF L])
  qed
  ultimately have "\<not> rnd_threshold limit \<le> ucast (fst (random_next32 s))"
    by (simp add: word_le_nat_alt)
  then show ?thesis
    using False by (simp add: random_below.simps [of _ limit s] widen32_def)
qed

text \<open>
  C33: A step of the 64-bit generator loses no state: the step is a bijection on the states, so the
  generator permutes them and never collapses onto fewer.
\<close>
theorem random_next64_bijective: "bij (\<lambda>s. snd (random_next64 s))"
proof (rule bij_betw_byWitness [where f' = romu64_back])
  show "\<forall>s\<in>UNIV. romu64_back (snd (random_next64 s)) = s" by (simp only: romu64_back_next ball_UNIV simp_thms)
  show "\<forall>s\<in>UNIV. snd (random_next64 (romu64_back s)) = s" by (simp only: romu64_next_back ball_UNIV simp_thms)
qed simp_all

end
