(* ===== verification/GM_List.thy ===== *)
theory GM_List
  imports Fuzz_Prelude
begin

text \<open>
  The doubly linked list of the grammar mutator (\<^verbatim>\<open>Grammar-Mutator/src/list.c\<close>) on an explicit
  heap.  A node pointer is an address or NULL (\<open>None\<close>); an access to an address that is not
  allocated, a second \<^verbatim>\<open>free\<close> and a loop that does not end make the whole operation \<open>None\<close>, so that
  \<open>op \<dots> = Some \<dots>\<close> states memory safety and termination.  \<open>malloc\<close> fails, returning NULL, once
  the heap's allowance is used up.  The locale \<open>fifo\<close> is the contract the mutator relies on.
\<close>

section \<open>Heap\<close>

type_synonym addr = nat

record 'a list_node =
  nd_next :: "addr option"
  nd_prev :: "addr option"
  nd_data :: "'a option"

record list_t =
  lt_head :: "addr option"
  lt_tail :: "addr option"
  lt_size :: nat

record 'a lheap =
  cells :: "addr \<rightharpoonup> 'a list_node"
  brk :: addr
  avail :: nat

definition lmalloc :: "'a lheap \<Rightarrow> addr option \<times> 'a lheap" where
  "lmalloc h =
     (if avail h = 0 then (None, h)
      else (Some (brk h), h\<lparr>cells := (cells h)(brk h \<mapsto> \<lparr>nd_next = None, nd_prev = None, nd_data = None\<rparr>),
              brk := Suc (brk h), avail := avail h - 1\<rparr>))"

definition lstore :: "addr \<Rightarrow> ('a list_node \<Rightarrow> 'a list_node) \<Rightarrow> 'a lheap \<Rightarrow> 'a lheap option" where
  "lstore a f h = (case cells h a of None \<Rightarrow> None | Some c \<Rightarrow> Some (h\<lparr>cells := (cells h)(a \<mapsto> f c)\<rparr>))"

definition lfree :: "addr \<Rightarrow> 'a lheap \<Rightarrow> 'a lheap option" where
  "lfree a h = (case cells h a of None \<Rightarrow> None | Some _ \<Rightarrow> Some (h\<lparr>cells := (cells h)(a := None)\<rparr>))"

section \<open>Operations\<close>

definition list_create :: "'a lheap \<Rightarrow> list_t option \<times> 'a lheap" where
  "list_create h =
     (if avail h = 0 then (None, h)
      else (Some \<lparr>lt_head = None, lt_tail = None, lt_size = 0\<rparr>, h\<lparr>avail := avail h - 1\<rparr>))"

partial_function (option) list_free_loop ::
  "bool \<Rightarrow> addr option \<Rightarrow> 'a option list \<Rightarrow> 'a lheap \<Rightarrow> ('a option list \<times> 'a lheap) option" where
  "list_free_loop free_func cur freed h =
     (case cur of
        None \<Rightarrow> Some (freed, h)
      | Some c \<Rightarrow> do {
          node \<leftarrow> cells h c;
          let nxt = nd_next node;
          let freed = (if free_func then freed @ [nd_data node] else freed);
          h \<leftarrow> lstore c (\<lambda>n. n\<lparr>nd_next := None, nd_prev := None, nd_data := None\<rparr>) h;
          h \<leftarrow> lfree c h;
          list_free_loop free_func nxt freed h
        })"

text \<open>The result lists the data handed to \<^verbatim>\<open>free_func\<close>, in order, when there is one.\<close>

definition list_free_with_data_free_func ::
  "bool \<Rightarrow> list_t option \<Rightarrow> 'a lheap \<Rightarrow> ('a option list \<times> 'a lheap) option" where
  "list_free_with_data_free_func free_func l h =
     (case l of None \<Rightarrow> Some ([], h) | Some l \<Rightarrow> list_free_loop free_func (lt_head l) [] h)"

definition list_free :: "list_t option \<Rightarrow> 'a lheap \<Rightarrow> 'a lheap option" where
  "list_free l h = map_option snd (list_free_with_data_free_func False l h)"

definition list_insert ::
  "list_t option \<Rightarrow> 'a option \<Rightarrow> 'a lheap \<Rightarrow> (addr option \<times> list_t option \<times> 'a lheap) option" where
  "list_insert l d h =
     (case l of None \<Rightarrow> Some (None, None, h)
      | Some l \<Rightarrow> (case lmalloc h of
          (None, h) \<Rightarrow> Some (None, Some l, h)
        | (Some node, h) \<Rightarrow> do {
            h \<leftarrow> lstore node (\<lambda>n. n\<lparr>nd_data := d, nd_next := lt_head l, nd_prev := None\<rparr>) h;
            (l, h) \<leftarrow>
              (if lt_tail l = None then Some (l\<lparr>lt_tail := Some node\<rparr>, h)
               else do { hd \<leftarrow> lt_head l; h \<leftarrow> lstore hd (\<lambda>n. n\<lparr>nd_prev := Some node\<rparr>) h; Some (l, h) });
            Some (Some node, Some (l\<lparr>lt_head := Some node, lt_size := Suc (lt_size l)\<rparr>), h)
          }))"

definition list_append ::
  "list_t option \<Rightarrow> 'a option \<Rightarrow> 'a lheap \<Rightarrow> (addr option \<times> list_t option \<times> 'a lheap) option" where
  "list_append l d h =
     (case l of None \<Rightarrow> Some (None, None, h)
      | Some l \<Rightarrow> (case lmalloc h of
          (None, h) \<Rightarrow> Some (None, Some l, h)
        | (Some node, h) \<Rightarrow> do {
            h \<leftarrow> lstore node (\<lambda>n. n\<lparr>nd_data := d, nd_next := None, nd_prev := lt_tail l\<rparr>) h;
            (l, h) \<leftarrow>
              (if lt_head l = None then Some (l\<lparr>lt_head := Some node\<rparr>, h)
               else do { tl \<leftarrow> lt_tail l; h \<leftarrow> lstore tl (\<lambda>n. n\<lparr>nd_next := Some node\<rparr>) h; Some (l, h) });
            Some (Some node, Some (l\<lparr>lt_tail := Some node, lt_size := Suc (lt_size l)\<rparr>), h)
          }))"

text \<open>The unlinking of one node, the body of the loop of \<^verbatim>\<open>list_remove\<close> once the data matches.\<close>

definition list_unlink :: "addr \<Rightarrow> 'a list_node \<Rightarrow> list_t \<Rightarrow> 'a lheap \<Rightarrow> (list_t \<times> 'a lheap) option" where
  "list_unlink cur node l h = do {
     let l = (if lt_head l = Some cur then l\<lparr>lt_head := nd_next node\<rparr> else l);
     let l = (if lt_tail l = Some cur then l\<lparr>lt_tail := nd_prev node\<rparr> else l);
     h \<leftarrow> (case nd_prev node of None \<Rightarrow> Some h | Some p \<Rightarrow> lstore p (\<lambda>n. n\<lparr>nd_next := nd_next node\<rparr>) h);
     h \<leftarrow> (case nd_next node of None \<Rightarrow> Some h | Some q \<Rightarrow> lstore q (\<lambda>n. n\<lparr>nd_prev := nd_prev node\<rparr>) h);
     h \<leftarrow> lstore cur (\<lambda>n. n\<lparr>nd_next := None, nd_prev := None, nd_data := None\<rparr>) h;
     h \<leftarrow> lfree cur h;
     Some (l\<lparr>lt_size := lt_size l - 1\<rparr>, h)
   }"

partial_function (option) list_remove_loop ::
  "'a option \<Rightarrow> addr option \<Rightarrow> list_t \<Rightarrow> 'a lheap \<Rightarrow> (bool \<times> list_t \<times> 'a lheap) option" where
  "list_remove_loop d cur l h =
     (case cur of
        None \<Rightarrow> Some (False, l, h)
      | Some c \<Rightarrow> do {
          node \<leftarrow> cells h c;
          if nd_data node = d then do { (l, h) \<leftarrow> list_unlink c node l h; Some (True, l, h) }
          else list_remove_loop d (nd_next node) l h
        })"

definition list_remove ::
  "list_t option \<Rightarrow> 'a option \<Rightarrow> 'a lheap \<Rightarrow> (bool \<times> list_t option \<times> 'a lheap) option" where
  "list_remove l d h =
     (case l of None \<Rightarrow> Some (False, None, h)
      | Some l \<Rightarrow>
          if lt_size l = 0 \<or> lt_head l = None then Some (False, Some l, h)
          else do { (r, l, h) \<leftarrow> list_remove_loop d (lt_head l) l h; Some (r, Some l, h) })"

definition list_pop_front ::
  "list_t option \<Rightarrow> 'a lheap \<Rightarrow> ('a option \<times> list_t option \<times> 'a lheap) option" where
  "list_pop_front l h =
     (case l of None \<Rightarrow> Some (None, None, h)
      | Some l \<Rightarrow>
          if lt_size l = 0 \<or> lt_head l = None then Some (None, Some l, h)
          else do {
            head \<leftarrow> lt_head l;
            node \<leftarrow> cells h head;
            let d = nd_data node;
            let l = l\<lparr>lt_head := nd_next node\<rparr>;
            (l, h) \<leftarrow>
              (if Some head = lt_tail l then Some (l\<lparr>lt_tail := None\<rparr>, h)
               else do { q \<leftarrow> nd_next node; h \<leftarrow> lstore q (\<lambda>n. n\<lparr>nd_prev := None\<rparr>) h; Some (l, h) });
            h \<leftarrow> lstore head (\<lambda>n. n\<lparr>nd_next := None, nd_prev := None, nd_data := None\<rparr>) h;
            h \<leftarrow> lfree head h;
            Some (d, Some (l\<lparr>lt_size := lt_size l - 1\<rparr>), h)
          })"

partial_function (option) list_get_loop ::
  "nat \<Rightarrow> u32 \<Rightarrow> addr option \<Rightarrow> 'a lheap \<Rightarrow> 'a option option" where
  "list_get_loop i j cur h = do {
     c \<leftarrow> cur;
     node \<leftarrow> cells h c;
     if unat j < i then list_get_loop i (j + 1) (nd_next node) h else Some (nd_data node)
   }"

definition list_get :: "list_t option \<Rightarrow> nat \<Rightarrow> 'a lheap \<Rightarrow> 'a option option" where
  "list_get l i h =
     (case l of None \<Rightarrow> Some None
      | Some l \<Rightarrow>
          if lt_size l = 0 \<or> lt_head l = None then Some None
          else if i \<ge> lt_size l then Some None
          else list_get_loop i 0 (lt_head l) h)"

definition list_empty :: "list_t option \<Rightarrow> bool" where
  "list_empty l =
     (case l of None \<Rightarrow> True | Some l \<Rightarrow> lt_size l = 0 \<or> lt_head l = None)"

section \<open>Abstraction\<close>

text \<open>
  \<open>dlseg c p pr l nx xs\<close>: from \<open>p\<close>, whose back pointer is \<open>pr\<close>, the cells of \<open>xs\<close> (address and
  data) are linked in both directions up to the last cell \<open>l\<close>, whose forward pointer is \<open>nx\<close>.
\<close>

fun dlseg :: "(addr \<rightharpoonup> 'a list_node) \<Rightarrow> addr option \<Rightarrow> addr option \<Rightarrow> addr option \<Rightarrow> addr option \<Rightarrow>
    (addr \<times> 'a option) list \<Rightarrow> bool" where
  "dlseg c p pr l nx [] \<longleftrightarrow> p = nx \<and> l = pr"
| "dlseg c p pr l nx ((a, d) # xs) \<longleftrightarrow> p = Some a \<and>
     (case c a of None \<Rightarrow> False
      | Some n \<Rightarrow> nd_prev n = pr \<and> nd_data n = d \<and> dlseg c (nd_next n) (Some a) l nx xs)"

definition heap_ok :: "'a lheap \<Rightarrow> bool" where
  "heap_ok h \<longleftrightarrow> (\<forall>a\<ge>brk h. cells h a = None)"

definition list_cells :: "'a lheap \<Rightarrow> list_t \<Rightarrow> (addr \<times> 'a option) list \<Rightarrow> bool" where
  "list_cells h l xs \<longleftrightarrow> dlseg (cells h) (lt_head l) None (lt_tail l) None xs \<and>
     lt_size l = length xs \<and> distinct (map fst xs) \<and> heap_ok h"

definition list_abs :: "'a lheap \<Rightarrow> list_t \<Rightarrow> 'a option list \<Rightarrow> bool" where
  "list_abs h l ys \<longleftrightarrow> (\<exists>xs. list_cells h l xs \<and> map snd xs = ys)"

section \<open>Segments\<close>

lemma dlseg_append:
  "dlseg c p pr l nx (xs @ ys) \<longleftrightarrow> (\<exists>m q. dlseg c p pr m q xs \<and> dlseg c q m l nx ys)"
  by (induction xs arbitrary: p pr) (auto split: option.splits, blast+)

lemma dlseg_frame [simp]:
  "a \<notin> fst ` set xs \<Longrightarrow> dlseg (c(a := v)) p pr l nx xs = dlseg c p pr l nx xs"
  by (induction xs arbitrary: p pr) (auto split: option.splits)

lemma dlseg_alloc: "dlseg c p pr l nx xs \<Longrightarrow> (a, d) \<in> set xs \<Longrightarrow> \<exists>n. c a = Some n \<and> nd_data n = d"
  by (induction xs arbitrary: p pr) (auto split: option.splits)

lemma dlseg_single:
  "dlseg c p pr l nx [(a, d)] \<longleftrightarrow> p = Some a \<and> l = Some a \<and>
     c a = Some \<lparr>nd_next = nx, nd_prev = pr, nd_data = d\<rparr>"
  by (auto split: option.splits intro!: list_node.equality)

lemma dlseg_set_prev:
  "dlseg c p pr l nx ((a, d) # xs) \<Longrightarrow> a \<notin> fst ` set xs \<Longrightarrow> c a = Some n \<Longrightarrow>
   dlseg (c(a \<mapsto> n\<lparr>nd_prev := pr'\<rparr>)) p pr' l nx ((a, d) # xs)"
  by (auto split: option.splits)

lemma dlseg_set_next:
  "dlseg c p pr l nx (xs @ [(a, d)]) \<Longrightarrow> a \<notin> fst ` set xs \<Longrightarrow> c a = Some n \<Longrightarrow>
   dlseg (c(a \<mapsto> n\<lparr>nd_next := nx'\<rparr>)) p pr l nx' (xs @ [(a, d)])"
  unfolding dlseg_append by (auto split: option.splits)

lemma dlseg_last: "dlseg c p pr l nx xs \<Longrightarrow> xs \<noteq> [] \<Longrightarrow> l = Some (fst (last xs))"
  by (induction xs arbitrary: p pr) (auto split: option.splits)

lemma dlseg_head_None: "dlseg c p pr l None xs \<Longrightarrow> p = None \<longleftrightarrow> xs = []"
  by (cases xs) auto

lemma dlseg_tail_None: "dlseg c p None l nx xs \<Longrightarrow> l = None \<longleftrightarrow> xs = []"
  using dlseg_last [of c p None l nx xs] by (cases xs) auto

lemma list_cellsD:
  assumes "list_cells h l xs"
  shows "dlseg (cells h) (lt_head l) None (lt_tail l) None xs" "lt_size l = length xs"
    "distinct (map fst xs)" "heap_ok h" "lt_head l = None \<longleftrightarrow> xs = []" "lt_tail l = None \<longleftrightarrow> xs = []"
    "lt_size l = 0 \<longleftrightarrow> xs = []"
  using assms dlseg_head_None [of "cells h" "lt_head l" None "lt_tail l" xs]
    dlseg_tail_None [of "cells h" "lt_head l" "lt_tail l" None xs]
  by (simp_all add: list_cells_def)

lemma heap_ok_malloc:
  "heap_ok h \<Longrightarrow> lmalloc h = (r, h') \<Longrightarrow> heap_ok h'"
  by (auto simp: heap_ok_def lmalloc_def split: if_splits)

lemma heap_ok_update: "heap_ok h \<Longrightarrow> a < brk h \<Longrightarrow> heap_ok (h\<lparr>cells := (cells h)(a := v)\<rparr>)"
  by (auto simp: heap_ok_def)

lemma heap_ok_fresh: "heap_ok h \<Longrightarrow> dlseg (cells h) p pr l nx xs \<Longrightarrow> brk h \<notin> fst ` set xs"
  by (fastforce simp: heap_ok_def dest: dlseg_alloc)

section \<open>Operations on well-formed lists\<close>

lemma list_insert_cells:
  assumes "list_cells h l xs" "avail h \<noteq> 0"
  shows "\<exists>l' h'. list_insert (Some l) d h = Some (Some (brk h), Some l', h') \<and>
    list_cells h' l' ((brk h, d) # xs) \<and> avail h' = avail h - 1 \<and>
    (\<forall>a. a \<notin> insert (brk h) (fst ` set xs) \<longrightarrow> cells h' a = cells h a)"
proof -
  note D = list_cellsD [OF assms(1)]
  have fresh: "brk h \<notin> fst ` set xs" using D by (blast dest: heap_ok_fresh)
  show ?thesis
  proof (cases xs)
    case Nil
    then show ?thesis using D assms(2)
      by (auto simp: list_insert_def lmalloc_def lstore_def list_cells_def heap_ok_def)
  next
    case (Cons x ys)
    obtain a e where x: "x = (a, e)" by (cases x)
    obtain n where n: "cells h a = Some n" using D(1) Cons x by (auto split: option.splits)
    have "dlseg ((cells h)(a \<mapsto> n\<lparr>nd_prev := Some (brk h)\<rparr>)) (lt_head l) (Some (brk h)) (lt_tail l) None xs"
      using dlseg_set_prev [of "cells h" "lt_head l" None "lt_tail l" None a e ys n] D n Cons x by auto
    then show ?thesis using D assms(2) Cons x n fresh
      by (auto simp: list_insert_def lmalloc_def lstore_def list_cells_def heap_ok_def)
  qed
qed

lemma list_append_cells:
  assumes "list_cells h l xs" "avail h \<noteq> 0"
  shows "\<exists>l' h'. list_append (Some l) d h = Some (Some (brk h), Some l', h') \<and>
    list_cells h' l' (xs @ [(brk h, d)]) \<and> avail h' = avail h - 1 \<and>
    (\<forall>a. a \<notin> insert (brk h) (fst ` set xs) \<longrightarrow> cells h' a = cells h a)"
proof -
  note D = list_cellsD [OF assms(1)]
  have fresh: "brk h \<notin> fst ` set xs" using D by (blast dest: heap_ok_fresh)
  show ?thesis
  proof (cases xs rule: rev_cases)
    case Nil
    then show ?thesis using D assms(2)
      by (auto simp: list_append_def lmalloc_def lstore_def list_cells_def heap_ok_def)
  next
    case (snoc ys x)
    obtain a e where x: "x = (a, e)" by (cases x)
    obtain n where n: "cells h a = Some n" using dlseg_alloc [OF D(1)] snoc x by fastforce
    have t: "lt_tail l = Some a" using dlseg_last [OF D(1)] snoc x by simp
    have ne: "lt_head l \<noteq> None" using D snoc by simp
    have "dlseg ((cells h)(a \<mapsto> n\<lparr>nd_next := Some (brk h)\<rparr>)) (lt_head l) None (lt_tail l) (Some (brk h)) xs"
      using dlseg_set_next [of "cells h" "lt_head l" None "lt_tail l" None ys a e n] D n snoc x by auto
    then have "dlseg ((cells h)(a \<mapsto> n\<lparr>nd_next := Some (brk h)\<rparr>,
        brk h \<mapsto> \<lparr>nd_next = None, nd_prev = Some a, nd_data = d\<rparr>))
        (lt_head l) None (Some (brk h)) None (xs @ [(brk h, d)])"
      using fresh t unfolding dlseg_append [of _ _ _ _ _ xs]
      by (intro exI [of _ "Some a"] exI [of _ "Some (brk h)"]) simp
    moreover have "brk h \<noteq> a" using fresh snoc x by auto
    ultimately have "dlseg ((cells h)(brk h \<mapsto> \<lparr>nd_next = None, nd_prev = Some a, nd_data = d\<rparr>,
        a \<mapsto> n\<lparr>nd_next := Some (brk h)\<rparr>)) (lt_head l) None (Some (brk h)) None (xs @ [(brk h, d)])"
      by (simp add: fun_upd_twist)
    then show ?thesis using D(2-) assms(2) snoc x n fresh t ne
      by (auto simp: list_append_def lmalloc_def lstore_def list_cells_def heap_ok_def)
  qed
qed

lemma list_pop_front_cells:
  assumes "list_cells h l ((a, d) # xs)"
  shows "\<exists>l' h'. list_pop_front (Some l) h = Some (d, Some l', h') \<and> list_cells h' l' xs \<and>
    cells h' a = None \<and> avail h' = avail h \<and>
    (\<forall>b. b \<notin> insert a (fst ` set xs) \<longrightarrow> cells h' b = cells h b)"
proof -
  note D = list_cellsD [OF assms]
  obtain n where n: "cells h a = Some n" "nd_data n = d" using dlseg_alloc [OF D(1)] by fastforce
  have hd: "lt_head l = Some a" using D(1) by simp
  show ?thesis
  proof (cases xs)
    case Nil
    then show ?thesis using D n
      by (auto simp: list_pop_front_def lstore_def lfree_def list_cells_def heap_ok_def)
  next
    case (Cons x ys)
    obtain b e where x: "x = (b, e)" by (cases x)
    obtain m where m: "cells h b = Some m" using dlseg_alloc [OF D(1)] Cons x by fastforce
    have tl: "lt_tail l \<noteq> Some a"
      using dlseg_last [OF D(1)] D(3) Cons x by (auto simp: image_iff split: if_splits)
    have "dlseg (cells h) (nd_next n) (Some a) (lt_tail l) None ((b, e) # ys)"
      using D(1) n Cons x by simp
    from dlseg_set_prev [OF this, of m None]
    have "dlseg ((cells h)(b \<mapsto> m\<lparr>nd_prev := None\<rparr>)) (nd_next n) None (lt_tail l) None xs"
      using D(3) m Cons x by simp
    moreover have "nd_next n = Some b" using D(1) n Cons x by simp
    ultimately show ?thesis using D(2-) n m hd tl Cons x
      by (auto simp: list_pop_front_def lstore_def lfree_def list_cells_def heap_ok_def)
  qed
qed

lemma list_pop_front_cells_Nil:
  "list_cells h l [] \<Longrightarrow> list_pop_front (Some l) h = Some (None, Some l, h)"
  by (auto simp: list_pop_front_def dest: list_cellsD)

lemma list_get_loop_seg:
  assumes "dlseg (cells h) p pr l None xs" "k \<le> i" "i - k < length xs" "i < 2 ^ 32"
  shows "list_get_loop i (of_nat k) p h = Some (snd (xs ! (i - k)))"
  using assms
proof (induction xs arbitrary: k p pr)
  case Nil
  then show ?case by simp
next
  case (Cons x xs)
  obtain a d where x: "x = (a, d)" by (cases x)
  obtain n where n: "cells h a = Some n" "nd_data n = d" "p = Some a"
    and seg: "dlseg (cells h) (nd_next n) (Some a) l None xs"
    using Cons.prems(1) x by (auto split: option.splits)
  have k: "unat (of_nat k :: u32) = k" using Cons.prems by simp
  show ?case
  proof (cases "k < i")
    case True
    then have "list_get_loop i (of_nat (Suc k)) (nd_next n) h = Some (snd (xs ! (i - Suc k)))"
      using Cons.prems by (intro Cons.IH [OF seg]) auto
    then show ?thesis using True n x k
      by (subst list_get_loop.simps) (simp add: nth_Cons' add.commute)
  next
    case False
    then show ?thesis using Cons.prems n x k by (subst list_get_loop.simps) simp
  qed
qed

lemma list_free_loop_seg:
  assumes "dlseg (cells h) p pr l None xs" "distinct (map fst xs)"
  shows "\<exists>h'. list_free_loop f p freed h = Some (freed @ (if f then map snd xs else []), h') \<and>
    cells h' = (\<lambda>a. if a \<in> fst ` set xs then None else cells h a) \<and> brk h' = brk h \<and> avail h' = avail h"
  using assms
proof (induction xs arbitrary: p pr h freed)
  case Nil
  then show ?case by (auto simp: list_free_loop.simps)
next
  case (Cons x xs)
  obtain a d where x: "x = (a, d)" by (cases x)
  obtain n where n: "cells h a = Some n" "nd_data n = d" "p = Some a"
    and seg: "dlseg (cells h) (nd_next n) (Some a) l None xs"
    using Cons.prems(1) x by (auto split: option.splits)
  have a: "a \<notin> fst ` set xs" using Cons.prems(2) x by auto
  let ?h = "h\<lparr>cells := (cells h)(a := None)\<rparr>"
  let ?freed = "if f then freed @ [d] else freed"
  have "list_free_loop f p freed h = list_free_loop f (nd_next n) ?freed ?h"
    using n by (subst list_free_loop.simps) (simp add: lstore_def lfree_def)
  moreover have "dlseg (cells ?h) (nd_next n) (Some a) l None xs" using seg a by simp
  ultimately show ?case
    using Cons.IH [of ?h "nd_next n" "Some a" ?freed] Cons.prems(2) x by (fastforce simp: fun_eq_iff)
qed

text \<open>
  Unlinking in two halves: the forward pointer on the left of the removed cell, then the back pointer
  on its right.
\<close>

lemma relink_left:
  assumes "dlseg c p None m q us" "distinct (map fst us)"
  shows "case m of None \<Rightarrow> us = [] | Some a \<Rightarrow> a \<in> fst ` set us \<and>
    (\<exists>n. c a = Some n \<and> dlseg (c(a \<mapsto> n\<lparr>nd_next := q'\<rparr>)) p None m q' us)"
proof (cases us rule: rev_cases)
  case Nil
  then show ?thesis using assms by simp
next
  case (snoc ys x)
  obtain a e where x: "x = (a, e)" by (cases x)
  have m: "m = Some a" using dlseg_last [OF assms(1)] snoc x by simp
  obtain n where n: "c a = Some n" using dlseg_alloc [OF assms(1)] snoc x by fastforce
  have "dlseg (c(a \<mapsto> n\<lparr>nd_next := q'\<rparr>)) p None m q' us"
    using dlseg_set_next [of c p None m q ys a e n] assms snoc x n by auto
  then show ?thesis using m n snoc x by auto
qed

lemma relink_right:
  assumes "dlseg c p pr l None vs" "distinct (map fst vs)"
  shows "case p of None \<Rightarrow> vs = [] | Some a \<Rightarrow> a \<in> fst ` set vs \<and>
    (\<exists>n. c a = Some n \<and> dlseg (c(a \<mapsto> n\<lparr>nd_prev := pr'\<rparr>)) p pr' l None vs)"
proof (cases vs)
  case Nil
  then show ?thesis using assms by simp
next
  case (Cons x ys)
  obtain a e where x: "x = (a, e)" by (cases x)
  obtain n where n: "c a = Some n" "p = Some a" using assms(1) Cons x by (auto split: option.splits)
  show ?thesis
    using dlseg_set_prev [of c p pr l None a e ys n pr'] assms Cons x n by auto
qed

lemma list_unlink_cells:
  assumes wf: "list_cells h l (us @ (a, d) # vs)" and n: "cells h a = Some n"
  shows "\<exists>l' h'. list_unlink a n l h = Some (l', h') \<and> list_cells h' l' (us @ vs) \<and>
    cells h' a = None \<and> avail h' = avail h \<and>
    (\<forall>b. b \<notin> insert a (fst ` set (us @ vs)) \<longrightarrow> cells h' b = cells h b)"
proof -
  note D = list_cellsD [OF wf]
  let ?c = "cells h" and ?q = "nd_next n" and ?m = "nd_prev n"
  obtain left: "dlseg ?c (lt_head l) None ?m (Some a) us"
    and right: "dlseg ?c ?q (Some a) (lt_tail l) None vs"
    using D(1) n by (auto simp: dlseg_append)
  have dist: "distinct (map fst us)" "distinct (map fst vs)" "a \<notin> fst ` set us" "a \<notin> fst ` set vs"
    "fst ` set us \<inter> fst ` set vs = {}" using D(3) by auto
  have hd: "lt_head l = Some a \<longleftrightarrow> us = []"
    using left dist by (cases us) auto
  have tl: "lt_tail l = Some a \<longleftrightarrow> vs = []"
    using right dist dlseg_last [OF right] by (cases vs rule: rev_cases) (auto simp: image_iff)
  have me: "?m = None \<longleftrightarrow> us = []" using dlseg_tail_None [OF left] .
  have qe: "?q = None \<longleftrightarrow> vs = []" using dlseg_head_None [OF right] .
  define c1 where "c1 = (case ?m of None \<Rightarrow> ?c | Some p \<Rightarrow> ?c(p \<mapsto> (the (?c p))\<lparr>nd_next := ?q\<rparr>))"
  define c2 where "c2 = (case ?q of None \<Rightarrow> c1 | Some q \<Rightarrow> c1(q \<mapsto> (the (c1 q))\<lparr>nd_prev := ?m\<rparr>))"
  have L: "us \<noteq> [] \<Longrightarrow> dlseg c1 (lt_head l) None ?m ?q us"
    using relink_left [OF left dist(1), of ?q] me by (auto simp: c1_def split: option.splits)
  have pm: "\<And>p. ?m = Some p \<Longrightarrow> p \<in> fst ` set us" using relink_left [OF left dist(1)] by auto
  with dist(5) have "\<And>p. ?m = Some p \<Longrightarrow> p \<notin> fst ` set vs" by blast
  then have R1: "dlseg c1 ?q (Some a) (lt_tail l) None vs"
    using right by (auto simp: c1_def split: option.splits)
  have R: "vs \<noteq> [] \<Longrightarrow> dlseg c2 ?q ?m (lt_tail l) None vs"
    using relink_right [OF R1 dist(2), of ?m] qe by (auto simp: c2_def split: option.splits)
  have qm: "\<And>q. ?q = Some q \<Longrightarrow> q \<in> fst ` set vs" using relink_right [OF R1 dist(2)] by auto
  with dist(5) have "\<And>q. ?q = Some q \<Longrightarrow> q \<notin> fst ` set us" by blast
  then have L2: "us \<noteq> [] \<Longrightarrow> dlseg c2 (lt_head l) None ?m ?q us"
    using L by (auto simp: c2_def split: option.splits)
  let ?l = "\<lparr>lt_head = (if us = [] then ?q else lt_head l), lt_tail = (if vs = [] then ?m else lt_tail l),
      lt_size = length us + length vs\<rparr>"
  let ?h = "h\<lparr>cells := c2(a := None)\<rparr>"
  have seg: "dlseg c2 (lt_head ?l) None (lt_tail ?l) None (us @ vs)"
  proof -
    have "dlseg c2 (lt_head ?l) None ?m ?q us" using L2 me by (cases "us = []") auto
    moreover have "dlseg c2 ?q ?m (lt_tail ?l) None vs" using R qe by (cases "vs = []") auto
    ultimately show ?thesis unfolding dlseg_append by blast
  qed
  have same: "b \<notin> fst ` set (us @ vs) \<Longrightarrow> c2 b = ?c b" for b
    using pm qm by (auto simp: c1_def c2_def split: option.splits)
  have run: "list_unlink a n l h = Some (?l, ?h)"
  proof -
    have p: "\<And>p. ?m = Some p \<Longrightarrow> ?c p \<noteq> None"
      using relink_left [OF left dist(1)] by auto
    have q: "\<And>q. ?q = Some q \<Longrightarrow> c1 q \<noteq> None"
      using relink_right [OF R1 dist(2)] by auto
    have c2a: "c2 a = Some n" using same [of a] dist n by auto
    have "(case ?m of None \<Rightarrow> Some h | Some p \<Rightarrow> lstore p (\<lambda>n'. n'\<lparr>nd_next := ?q\<rparr>) h) = Some (h\<lparr>cells := c1\<rparr>)"
      using p by (auto simp: lstore_def c1_def split: option.splits)
    moreover have "(case ?q of None \<Rightarrow> Some (h\<lparr>cells := c1\<rparr>)
        | Some q \<Rightarrow> lstore q (\<lambda>n'. n'\<lparr>nd_prev := ?m\<rparr>) (h\<lparr>cells := c1\<rparr>)) = Some (h\<lparr>cells := c2\<rparr>)"
      using q by (auto simp: lstore_def c2_def split: option.splits)
    ultimately show ?thesis
      using hd tl D(2) c2a by (simp add: list_unlink_def Let_def lstore_def lfree_def)
  qed
  have "dlseg (c2(a := None)) (lt_head ?l) None (lt_tail ?l) None (us @ vs)"
    using seg dist(3,4) by (subst dlseg_frame) auto
  moreover have "heap_ok ?h"
  proof -
    have "c2 b = None" if "brk h \<le> b" for b
    proof -
      have none: "?c b = None" using D(4) that by (simp add: heap_ok_def)
      then have "b \<notin> fst ` set (us @ vs)"
        using dlseg_alloc [OF left] dlseg_alloc [OF right] by fastforce
      then show ?thesis using same none by metis
    qed
    then show ?thesis by (simp add: heap_ok_def)
  qed
  ultimately have "list_cells ?h ?l (us @ vs)" using dist by (simp add: list_cells_def)
  then show ?thesis using run same by (intro exI [of _ ?l] exI [of _ ?h]) auto
qed

lemma list_remove_loop_cells:
  assumes "list_cells h l (us @ vs)" "dlseg (cells h) p pr (lt_tail l) None vs" "d \<notin> snd ` set us"
  shows "\<exists>l' h'. list_remove_loop d p l h = Some (d \<in> snd ` set vs, l', h') \<and>
    list_abs h' l' (remove1 d (map snd (us @ vs))) \<and> avail h' = avail h"
  using assms
proof (induction vs arbitrary: us p pr)
  case Nil
  then show ?case
    by (auto simp: list_remove_loop.simps list_abs_def image_iff remove1_idem)
next
  case (Cons x vs)
  obtain a e where x: "x = (a, e)" by (cases x)
  obtain n where n: "cells h a = Some n" "nd_data n = e" "p = Some a"
    and seg: "dlseg (cells h) (nd_next n) (Some a) (lt_tail l) None vs"
    using Cons.prems(2) x by (auto split: option.splits)
  show ?case
  proof (cases "e = d")
    case True
    have nd: "d \<notin> set (map snd us)" using Cons.prems(3) by simp
    obtain l' h' where r: "list_unlink a n l h = Some (l', h')" "list_cells h' l' (us @ vs)"
      "avail h' = avail h"
      using list_unlink_cells [of h l us a e vs n] Cons.prems(1) x n(1) by auto
    moreover have "remove1 d (map snd (us @ x # vs)) = map snd (us @ vs)"
      using nd x True by (simp add: remove1_append)
    ultimately show ?thesis using n True x
      by (subst list_remove_loop.simps) (auto simp: list_abs_def)
  next
    case False
    then have "\<exists>l' h'. list_remove_loop d (nd_next n) l h = Some (d \<in> snd ` set vs, l', h') \<and>
        list_abs h' l' (remove1 d (map snd ((us @ [x]) @ vs))) \<and> avail h' = avail h"
      using Cons.prems x by (intro Cons.IH [of "us @ [x]" _ "Some a"]) (auto simp: seg)
    then show ?thesis using n False x by (subst list_remove_loop.simps) auto
  qed
qed

section \<open>The interface of the clients\<close>

text \<open>
  A client appends to the end and pops from the front.  \<open>room\<close> is the number of allocations the
  state can still serve.
\<close>

locale fifo =
  fixes content :: "'s \<Rightarrow> 'q \<Rightarrow> 'a list \<Rightarrow> bool"
    and room :: "'s \<Rightarrow> nat"
    and push :: "'q \<Rightarrow> 'a \<Rightarrow> 's \<Rightarrow> ('q \<times> 's) option"
    and pop :: "'q \<Rightarrow> 's \<Rightarrow> ('a option \<times> 'q \<times> 's) option"
  assumes push_content: "content s q xs \<Longrightarrow> 0 < room s \<Longrightarrow>
      \<exists>q' s'. push q x s = Some (q', s') \<and> content s' q' (xs @ [x]) \<and> room s' = room s - 1"
    and pop_Cons: "content s q (x # xs) \<Longrightarrow>
      \<exists>q' s'. pop q s = Some (Some x, q', s') \<and> content s' q' xs \<and> room s' = room s"
    and pop_Nil: "content s q [] \<Longrightarrow> pop q s = Some (None, q, s)"
begin

primrec push_all :: "'a list \<Rightarrow> 'q \<Rightarrow> 's \<Rightarrow> ('q \<times> 's) option" where
  "push_all [] q s = Some (q, s)"
| "push_all (x # xs) q s = Option.bind (push q x s) (\<lambda>(q, s). push_all xs q s)"

primrec pop_n :: "nat \<Rightarrow> 'q \<Rightarrow> 's \<Rightarrow> ('a option list \<times> 'q \<times> 's) option" where
  "pop_n 0 q s = Some ([], q, s)"
| "pop_n (Suc n) q s = Option.bind (pop q s) (\<lambda>(x, q, s).
     Option.bind (pop_n n q s) (\<lambda>(xs, q, s). Some (x # xs, q, s)))"

lemma push_all_content:
  assumes "content s q xs" "length ys \<le> room s"
  shows "\<exists>q' s'. push_all ys q s = Some (q', s') \<and> content s' q' (xs @ ys) \<and> room s' = room s - length ys"
  using assms
proof (induction ys arbitrary: xs q s)
  case (Cons y ys)
  obtain q1 s1 where 1: "push q y s = Some (q1, s1)" "content s1 q1 (xs @ [y])" "room s1 = room s - 1"
    using push_content [OF Cons.prems(1), of y] Cons.prems(2) by auto
  then show ?case using Cons.IH [OF 1(2)] Cons.prems(2) by auto
qed simp

lemma pop_n_content:
  assumes "content s q xs"
  shows "\<exists>q' s'. pop_n n q s = Some (map Some (take n xs) @ replicate (n - length xs) None, q', s') \<and>
    content s' q' (drop n xs)"
  using assms
proof (induction n arbitrary: q s xs)
  case (Suc n)
  show ?case
  proof (cases xs)
    case Nil
    then show ?thesis using Suc.IH [OF Suc.prems] pop_Nil Suc.prems by auto
  next
    case (Cons x ys)
    obtain q1 s1 where 1: "pop q s = Some (Some x, q1, s1)" "content s1 q1 ys"
      using pop_Cons Suc.prems Cons by blast
    then show ?thesis using Suc.IH [OF 1(2)] Cons by auto
  qed
qed simp

end

text \<open>The contract on \<open>list_append\<close> and \<open>list_pop_front\<close> for lists of non-NULL data.\<close>

definition list_content :: "'a lheap \<Rightarrow> list_t \<Rightarrow> 'a list \<Rightarrow> bool" where
  "list_content h l xs \<longleftrightarrow> list_abs h l (map Some xs)"

definition list_push :: "list_t \<Rightarrow> 'a \<Rightarrow> 'a lheap \<Rightarrow> (list_t \<times> 'a lheap) option" where
  "list_push l x h = Option.bind (list_append (Some l) (Some x) h) (\<lambda>(_, l, h). map_option (\<lambda>l. (l, h)) l)"

definition list_pop :: "list_t \<Rightarrow> 'a lheap \<Rightarrow> ('a option \<times> list_t \<times> 'a lheap) option" where
  "list_pop l h = Option.bind (list_pop_front (Some l) h) (\<lambda>(d, l, h). map_option (\<lambda>l. (d, l, h)) l)"

interpretation lq: fifo list_content avail list_push list_pop
proof
  fix s :: "'a lheap" and q :: list_t and xs :: "'a list" and x :: 'a
  show "\<exists>q' s'. list_push q x s = Some (q', s') \<and> list_content s' q' (xs @ [x]) \<and> avail s' = avail s - 1"
    if c: "list_content s q xs" and room: "0 < avail s"
  proof -
    obtain cs where cs: "list_cells s q cs" "map snd cs = map Some xs"
      using c unfolding list_content_def list_abs_def by blast
    obtain l' h' where r: "list_append (Some q) (Some x) s = Some (Some (brk s), Some l', h')"
      "list_cells h' l' (cs @ [(brk s, Some x)])" "avail h' = avail s - 1"
      using list_append_cells [OF cs(1), of "Some x"] room by auto
    have "list_content h' l' (xs @ [x])"
      using r(2) cs(2) unfolding list_content_def list_abs_def
      by (intro exI [of _ "cs @ [(brk s, Some x)]"]) simp
    then show ?thesis using r by (simp add: list_push_def)
  qed
  show "\<exists>q' s'. list_pop q s = Some (Some x, q', s') \<and> list_content s' q' xs \<and> avail s' = avail s"
    if c: "list_content s q (x # xs)"
  proof -
    obtain a cs where cs: "list_cells s q ((a, Some x) # cs)" "map snd cs = map Some xs"
      using c by (auto simp: list_content_def list_abs_def map_eq_Cons_conv)
    then show ?thesis
      using list_pop_front_cells [OF cs(1)] by (auto simp: list_pop_def list_content_def list_abs_def)
  qed
  show "list_pop q s = Some (None, q, s)" if "list_content s q []"
    using that by (auto simp: list_content_def list_abs_def list_pop_def list_pop_front_cells_Nil)
qed

text \<open>A list of two nodes on a heap that can serve one more allocation, for the witnesses.\<close>

definition demo_heap :: "nat lheap" where
  "demo_heap = \<lparr>cells = [1 \<mapsto> \<lparr>nd_next = Some 2, nd_prev = None, nd_data = Some 10\<rparr>,
      2 \<mapsto> \<lparr>nd_next = None, nd_prev = Some 1, nd_data = Some 20\<rparr>], brk = 3, avail = 1\<rparr>"

definition demo_list :: list_t where
  "demo_list = \<lparr>lt_head = Some 1, lt_tail = Some 2, lt_size = 2\<rparr>"

lemma demo_cells: "list_cells demo_heap demo_list [(1, Some 10), (2, Some 20)]"
  by (auto simp: list_cells_def heap_ok_def demo_heap_def demo_list_def)

lemma demo_abs: "list_abs demo_heap demo_list [Some 10, Some 20]"
  unfolding list_abs_def using demo_cells by (intro exI [of _ "[(1, Some 10), (2, Some 20)]"]) simp

section \<open>Properties\<close>

text \<open>
  C25: On a well-formed list that holds \<open>ys\<close>, \<open>list_insert\<close> and \<open>list_append\<close> never fault.  While
  \<^verbatim>\<open>malloc\<close> succeeds they return the new node and the list holds the data in front of, respectively
  behind, \<open>ys\<close>, well-formed in both directions with the right size; when it fails they return NULL and
  change nothing.
\<close>
theorem list_insert_append_correct:
  assumes "list_abs h l ys"
  shows "if avail h = 0
    then list_insert (Some l) d h = Some (None, Some l, h) \<and> list_append (Some l) d h = Some (None, Some l, h)
    else (\<exists>l' h'. list_insert (Some l) d h = Some (Some (brk h), Some l', h') \<and> list_abs h' l' (d # ys)) \<and>
      (\<exists>l' h'. list_append (Some l) d h = Some (Some (brk h), Some l', h') \<and> list_abs h' l' (ys @ [d]))"
proof (cases "avail h = 0")
  case True
  then show ?thesis by (simp add: list_insert_def list_append_def lmalloc_def)
next
  case False
  obtain xs where xs: "list_cells h l xs" "map snd xs = ys" using assms by (auto simp: list_abs_def)
  have "\<exists>l' h'. list_insert (Some l) d h = Some (Some (brk h), Some l', h') \<and> list_abs h' l' (d # ys)"
    using list_insert_cells [OF xs(1) False, of d] xs(2) unfolding list_abs_def
    by (metis (no_types, lifting) list.simps(9) snd_conv)
  moreover have "\<exists>l' h'. list_append (Some l) d h = Some (Some (brk h), Some l', h') \<and> list_abs h' l' (ys @ [d])"
    using list_append_cells [OF xs(1) False, of d] xs(2) unfolding list_abs_def
    by (metis (no_types, lifting) list.simps(8,9) map_append snd_conv)
  ultimately show ?thesis using False by simp
qed

theorem list_insert_append_correct_witness:
  "(\<exists>l h. list_insert (Some demo_list) (Some 5) demo_heap = Some (Some 3, Some l, h) \<and>
      list_abs h l [Some 5, Some 10, Some 20]) \<and>
   (\<exists>l h. list_append (Some demo_list) (Some 5) demo_heap = Some (Some 3, Some l, h) \<and>
      list_abs h l [Some 10, Some 20, Some 5])"
  using list_insert_append_correct [OF demo_abs, of "Some 5"] by (simp add: demo_heap_def)

lemma list_cells_dom: "list_cells h l xs \<Longrightarrow> fst ` set xs \<subseteq> dom (cells h)"
  using dlseg_alloc list_cellsD(1) by fastforce

text \<open>
  C26: On a well-formed list, \<open>list_pop_front\<close> returns NULL and changes nothing when the list is empty,
  and otherwise returns the first data, frees the node at the head, and no other, and leaves the rest
  well-formed.
\<close>
theorem list_pop_front_correct:
  assumes "list_abs h l ys"
  shows "case ys of [] \<Rightarrow> list_pop_front (Some l) h = Some (None, Some l, h)
    | d # ds \<Rightarrow> \<exists>a l' h'. lt_head l = Some a \<and> a \<in> dom (cells h) \<and> list_pop_front (Some l) h = Some (d, Some l', h')
        \<and> list_abs h' l' ds \<and> dom (cells h') = dom (cells h) - {a}"
proof -
  obtain xs where xs: "list_cells h l xs" "map snd xs = ys" using assms by (auto simp: list_abs_def)
  show ?thesis
  proof (cases xs)
    case Nil
    then show ?thesis using xs list_pop_front_cells_Nil by auto
  next
    case (Cons x cs)
    obtain a d where x: "x = (a, d)" by (cases x)
    obtain l' h' where p: "list_pop_front (Some l) h = Some (d, Some l', h')" "list_cells h' l' cs" "cells h' a = None"
      "\<And>b. b \<notin> insert a (fst ` set cs) \<Longrightarrow> cells h' b = cells h b"
      using xs list_pop_front_cells [of h l a d cs] Cons x by blast
    have "insert a (fst ` set cs) \<subseteq> dom (cells h)" "fst ` set cs \<subseteq> dom (cells h')"
      using list_cells_dom [OF xs(1)] list_cells_dom [OF p(2)] Cons x by auto
    moreover have "a \<notin> fst ` set cs" using list_cellsD(3) [OF xs(1)] Cons x by simp
    ultimately have "b \<in> dom (cells h') \<longleftrightarrow> b \<in> dom (cells h) - {a}" for b
      using p(3) p(4) [of b] by (cases "b \<in> insert a (fst ` set cs)") auto
    then have "dom (cells h') = dom (cells h) - {a}" by blast
    moreover have "lt_head l = Some a" "a \<in> dom (cells h)"
      using list_cellsD(1) [OF xs(1)] list_cells_dom [OF xs(1)] Cons x by auto
    moreover have "list_abs h' l' (map snd cs)" using p(2) by (auto simp: list_abs_def)
    moreover have "ys = d # map snd cs" using xs(2) Cons x by simp
    ultimately show ?thesis using p(1) by simp
  qed
qed

theorem list_pop_front_correct_witness:
  "\<exists>l h. list_pop_front (Some demo_list) demo_heap = Some (Some 10, Some l, h) \<and> list_abs h l [Some 20]
     \<and> dom (cells h) = {2}"
proof -
  obtain a l h where "lt_head demo_list = Some a" "list_pop_front (Some demo_list) demo_heap = Some (Some 10, Some l, h)"
    "list_abs h l [Some 20]" "dom (cells h) = dom (cells demo_heap) - {a}"
    using list_pop_front_correct [OF demo_abs] by auto
  then show ?thesis by (auto simp: demo_list_def demo_heap_def)
qed

text \<open>
  C24: On a well-formed list, \<open>list_remove\<close> reports whether the data occurs and removes its first
  occurrence only, relinking both neighbours; it never faults and always ends.
\<close>
theorem list_remove_correct:
  assumes "list_abs h l ys"
  shows "\<exists>l' h'. list_remove (Some l) d h = Some (d \<in> set ys, Some l', h') \<and> list_abs h' l' (remove1 d ys)"
proof -
  obtain xs where xs: "list_cells h l xs" "map snd xs = ys" using assms by (auto simp: list_abs_def)
  note D = list_cellsD [OF xs(1)]
  show ?thesis
  proof (cases "xs = []")
    case True
    then show ?thesis using xs D assms by (auto simp: list_remove_def)
  next
    case False
    then show ?thesis
      using list_remove_loop_cells [of h l "[]" xs "lt_head l" None d] xs D by (force simp: list_remove_def)
  qed
qed

theorem list_remove_correct_witness:
  "\<exists>l h. list_remove (Some demo_list) (Some 20) demo_heap = Some (True, Some l, h) \<and> list_abs h l [Some 10]"
  using list_remove_correct [OF demo_abs, of "Some 20"] by simp

text \<open>
  C28: On a well-formed list, \<open>list_get\<close> returns the data at an index in range (for indices its 32-bit
  loop counter can reach) and NULL for an index out of range.
\<close>
theorem list_get_correct:
  assumes "list_abs h l ys" "i < 2 ^ 32"
  shows "list_get (Some l) i h = Some (if i < length ys then ys ! i else None)"
proof -
  obtain xs where xs: "list_cells h l xs" "map snd xs = ys" using assms by (auto simp: list_abs_def)
  note D = list_cellsD [OF xs(1)]
  show ?thesis
  proof (cases "i < length xs")
    case True
    then show ?thesis using list_get_loop_seg [OF D(1), of 0 i] D xs assms(2)
      by (auto simp: list_get_def)
  next
    case False
    then show ?thesis using D xs by (auto simp: list_get_def)
  qed
qed

theorem list_get_correct_witness:
  "list_get (Some demo_list) 1 demo_heap = Some (Some 20) \<and> list_get (Some demo_list) 2 demo_heap = Some None"
  using list_get_correct [OF demo_abs, of 1] list_get_correct [OF demo_abs, of 2] by simp

text \<open>
  C27: Destroying a well-formed list frees each of its nodes exactly once and nothing else, and hands
  every stored data to the destructor in list order.
\<close>
theorem list_free_correct:
  assumes "list_cells h l xs"
  shows "\<exists>h'. list_free_with_data_free_func True (Some l) h = Some (map snd xs, h') \<and>
    list_free (Some l) h = Some h' \<and>
    cells h' = (\<lambda>a. if a \<in> fst ` set xs then None else cells h a)"
proof -
  note D = list_cellsD [OF assms]
  obtain h1 where 1: "list_free_loop True (lt_head l) [] h = Some (map snd xs, h1)"
    "cells h1 = (\<lambda>a. if a \<in> fst ` set xs then None else cells h a)" "brk h1 = brk h" "avail h1 = avail h"
    using list_free_loop_seg [OF D(1,3), of True "[]"] by auto
  obtain h2 where 2: "list_free_loop False (lt_head l) [] h = Some ([], h2)"
    "cells h2 = (\<lambda>a. if a \<in> fst ` set xs then None else cells h a)" "brk h2 = brk h" "avail h2 = avail h"
    using list_free_loop_seg [OF D(1,3), of False "[]"] by auto
  have "h1 = h2" using 1 2 by (intro lheap.equality) auto
  then show ?thesis using 1 2 by (auto simp: list_free_with_data_free_func_def list_free_def)
qed

theorem list_free_correct_witness:
  "\<exists>h. list_free_with_data_free_func True (Some demo_list) demo_heap = Some ([Some 10, Some 20], h) \<and>
     cells h 1 = None \<and> cells h 2 = None"
  using list_free_correct [OF demo_cells] by auto

text \<open>
  C29: The list is a first-in first-out queue for its clients: appending any number of data the heap has
  room for and then popping returns the data in the order they were appended, followed by NULL.
\<close>
theorem list_fifo:
  assumes "list_content h l []" "length xs \<le> avail h"
  shows "\<exists>l1 h1 l2 h2. lq.push_all xs l h = Some (l1, h1) \<and> lt_size l1 = length xs \<and>
    lq.pop_n (Suc (length xs)) l1 h1 = Some (map Some xs @ [None], l2, h2) \<and> list_content h2 l2 []"
proof -
  obtain l1 h1 where 1: "lq.push_all xs l h = Some (l1, h1)" "list_content h1 l1 xs"
    using lq.push_all_content [OF assms] by auto
  moreover have "lt_size l1 = length xs"
    using 1(2) by (auto simp: list_content_def list_abs_def dest!: list_cellsD(2) map_eq_imp_length_eq)
  moreover have "take (Suc (length xs)) xs = xs" by simp
  ultimately show ?thesis using lq.pop_n_content [OF 1(2), of "Suc (length xs)"] by auto
qed

theorem list_fifo_witness:
  "\<exists>l1 h1 l2 h2. lq.push_all [7, 8] \<lparr>lt_head = None, lt_tail = None, lt_size = 0\<rparr>
      \<lparr>cells = Map.empty, brk = 1, avail = 2\<rparr> = Some (l1, h1) \<and> lt_size l1 = 2 \<and>
     lq.pop_n 3 l1 h1 = Some ([Some (7::nat), Some 8, None], l2, h2)"
proof -
  have "list_content (\<lparr>cells = Map.empty, brk = 1, avail = 2\<rparr> :: nat lheap)
      \<lparr>lt_head = None, lt_tail = None, lt_size = 0\<rparr> []"
    by (auto simp: list_content_def list_abs_def list_cells_def heap_ok_def)
  from list_fifo [OF this, of "[7, 8]"] show ?thesis by (fastforce simp: numeral_3_eq_3)
qed

end
