(* ===== verification/GM_Tree.thy ===== *)
theory GM_Tree
  imports GM_Random
begin

text \<open>
  Parse trees of the grammar mutator (\<^verbatim>\<open>Grammar-Mutator/src/tree.c\<close>, \<^verbatim>\<open>include/tree.h\<close>).  A tree
  owns its nodes and shares none of them, so a node is a value and a \<^verbatim>\<open>node_t *\<close> into a tree is
  the path of subnode indices that leads to it from the root; the root is the empty path, the
  \<^verbatim>\<open>parent\<close> field of a node is its path without the last index, and a NULL subnode is \<open>None\<close>.
  Allocation succeeds in this theory; the buffers are those of \<open>GM_Buffers\<close>.  A loop over the
  subnodes of a node is a function over the list of subnodes.
\<close>

section \<open>Nodes\<close>

datatype node =
  Node (node_id: u32) (rule_id: u32) (val_buf: "u8 list") (subnodes: "node option list")
    (recursion_edge_size: nat) (non_term_size: nat)

type_synonym path = "nat list"

record edge =
  edge_parent :: path
  edge_subnode :: path
  edge_offset :: nat

definition node_create :: "u32 \<Rightarrow> node" where
  "node_create i = Node i 0 [] [] 0 (if i \<noteq> 0 then 1 else 0)"

definition node_create_with_rule_id :: "u32 \<Rightarrow> u32 \<Rightarrow> node" where
  "node_create_with_rule_id i r =
     (case node_create i of Node i _ v ns re nt \<Rightarrow> Node i r v ns re nt)"

fun node_set_val :: "node \<Rightarrow> u8 list \<Rightarrow> node" where
  "node_set_val (Node i r v ns re nt) val =
     (if length val = 0 then Node i r v ns re nt else Node i r val ns re nt)"

definition node_create_with_val :: "u32 \<Rightarrow> u8 list option \<Rightarrow> node" where
  "node_create_with_val i val =
     (let node = node_create_with_rule_id i 0
      in case val of None \<Rightarrow> node | Some v \<Rightarrow> node_set_val node v)"

text \<open>
  \<open>junk\<close> is the indeterminate content of the entries \<^verbatim>\<open>realloc\<close> adds to an array that exists; a new
  array is zeroed by \<^verbatim>\<open>calloc\<close>.
\<close>

fun node_init_subnodes :: "(nat \<Rightarrow> node option) \<Rightarrow> node \<Rightarrow> nat \<Rightarrow> node" where
  "node_init_subnodes junk (Node i r v ns re nt) n =
     (if i = 0 then Node i r v ns re nt
      else if n = 0 then Node i r v [] re nt
      else if ns \<noteq> [] then Node i r v (take n ns @ map junk [length ns..<n]) re nt
      else Node i r v (replicate n None) re nt)"

fun node_set_subnode :: "node \<Rightarrow> nat \<Rightarrow> node option \<Rightarrow> node" where
  "node_set_subnode (Node i r v ns re nt) k sub =
     (if i = 0 then Node i r v ns re nt
      else if k \<ge> length ns then Node i r v ns re nt
      else Node i r v (ns[k := sub]) re nt)"

fun node_set_header :: "node \<Rightarrow> u32 \<Rightarrow> nat \<Rightarrow> nat \<Rightarrow> node" where
  "node_set_header (Node i _ v ns _ _) r re nt = Node i r v ns re nt"

fun node_clone :: "node \<Rightarrow> node"
  and clone_subnodes :: "node \<Rightarrow> nat \<Rightarrow> node option list \<Rightarrow> node" where
  "node_clone (Node i r v ns re nt) =
     (let new_node = node_create i;
          new_node = node_set_header new_node r re nt;
          new_node = node_set_val new_node v
      in if length ns \<noteq> 0
         then clone_subnodes (node_init_subnodes (\<lambda>_. None) new_node (length ns)) 0 ns
         else new_node)"
| "clone_subnodes new_node i [] = new_node"
| "clone_subnodes new_node i (None # ns) = clone_subnodes (node_set_subnode new_node i None) (Suc i) ns"
| "clone_subnodes new_node i (Some n # ns) =
     clone_subnodes (node_set_subnode new_node i (Some (node_clone n))) (Suc i) ns"

fun node_equal :: "node \<Rightarrow> node \<Rightarrow> bool"
  and equal_subnodes :: "node option list \<Rightarrow> node option list \<Rightarrow> bool" where
  "node_equal (Node ia ra va nsa _ _) (Node ib rb vb nsb _ _) =
     (if ia \<noteq> ib then False
      else if ra \<noteq> rb then False
      else if length va \<noteq> length vb then False
      else if va \<noteq> vb then False
      else if length nsa \<noteq> length nsb then False
      else equal_subnodes nsa nsb)"
| "equal_subnodes (Some a # as) (Some b # bs) =
     (if \<not> node_equal a b then False else equal_subnodes as bs)"
| "equal_subnodes (None # as) (None # bs) = equal_subnodes as bs"
| "equal_subnodes (None # as) (Some b # bs) = False"
| "equal_subnodes (Some a # as) (None # bs) = False"
| "equal_subnodes _ _ = True"

text \<open>\<^verbatim>\<open>node_get_size\<close> fills in both size fields of the node and of its subnodes.\<close>

fun node_get_size :: "node \<Rightarrow> node"
  and get_size_subnodes :: "u32 \<Rightarrow> nat \<Rightarrow> nat \<Rightarrow> node option list \<Rightarrow> node option list \<times> nat \<times> nat" where
  "node_get_size (Node i r v ns _ _) =
     (if i = 0 then Node i r v ns 0 0
      else (case get_size_subnodes i 0 1 ns of (ns', re, nt) \<Rightarrow> Node i r v ns' re nt))"
| "get_size_subnodes i re nt [] = ([], re, nt)"
| "get_size_subnodes i re nt (None # ns) =
     (case get_size_subnodes i re nt ns of (ns', r) \<Rightarrow> (None # ns', r))"
| "get_size_subnodes i re nt (Some n # ns) =
     (let re = (if i = node_id n then re + 1 else re);
          n' = node_get_size n;
          re = re + recursion_edge_size n';
          nt = nt + non_term_size n'
      in case get_size_subnodes i re nt ns of (ns', r) \<Rightarrow> (Some n' # ns', r))"

section \<open>Paths\<close>

fun subtree :: "node \<Rightarrow> path \<Rightarrow> node option" where
  "subtree n [] = Some n"
| "subtree n (k # p) =
     (if k < length (subnodes n) then
        (case subnodes n ! k of None \<Rightarrow> None | Some m \<Rightarrow> subtree m p)
      else None)"

fun set_subnodes :: "node \<Rightarrow> node option list \<Rightarrow> node" where
  "set_subnodes (Node i r v _ re nt) ns = Node i r v ns re nt"

text \<open>Overwriting the pointer that holds the node at a path (the root pointer for the empty path).\<close>

fun replace_at :: "node \<Rightarrow> path \<Rightarrow> node \<Rightarrow> node" where
  "replace_at n [] m = m"
| "replace_at n (k # p) m =
     (if k < length (subnodes n) then
        (case subnodes n ! k of
           None \<Rightarrow> (if p = [] then set_subnodes n ((subnodes n)[k := Some m]) else n)
         | Some c \<Rightarrow> set_subnodes n ((subnodes n)[k := Some (replace_at c p m)]))
      else n)"

text \<open>
  \<open>node_replace_subnode t root subnode new\<close>: \<open>root\<close> and \<open>subnode\<close> are pointers into the tree \<open>t\<close>;
  NULL arguments make it fail as in the source.
\<close>

definition node_replace_subnode ::
  "node \<Rightarrow> path option \<Rightarrow> path option \<Rightarrow> node option \<Rightarrow> bool \<times> node" where
  "node_replace_subnode t root sub new_sub =
     (case (root, sub, new_sub) of
        (Some r, Some p, Some m) \<Rightarrow>
          (case subtree t p of
             None \<Rightarrow> (False, t)
           | Some s \<Rightarrow>
               if node_id s \<noteq> node_id m then (False, t)
               else if p = [] \<or> butlast p \<noteq> r then (False, t)
               else (True, replace_at t p m))
      | _ \<Rightarrow> (False, t))"

section \<open>Picking at random\<close>

fun pick_non_term :: "('r \<Rightarrow> u32 \<Rightarrow> u32 \<times> 'r) \<Rightarrow> path \<Rightarrow> node \<Rightarrow> 'r \<Rightarrow> path option \<times> 'r"
  and pick_non_term_subnodes ::
    "('r \<Rightarrow> u32 \<Rightarrow> u32 \<times> 'r) \<Rightarrow> path \<Rightarrow> nat \<Rightarrow> nat \<Rightarrow> node option list \<Rightarrow> 'r \<Rightarrow> path option \<times> 'r" where
  "pick_non_term rb p (Node i r v ns re nt) s =
     (if nt = 0 then (None, s)
      else (case rb s (of_nat nt) of (w, s) \<Rightarrow>
        let prob = unat w
        in if prob < 1 then (Some p, s)
           else pick_non_term_subnodes rb p 0 (prob - 1) ns s))"
| "pick_non_term_subnodes rb p k prob [] s = (None, s)"
| "pick_non_term_subnodes rb p k prob (None # ns) s =
     pick_non_term_subnodes rb p (Suc k) prob ns s"
| "pick_non_term_subnodes rb p k prob (Some n # ns) s =
     (if node_id n = 0 then pick_non_term_subnodes rb p (Suc k) prob ns s
      else if prob < non_term_size n then pick_non_term rb (p @ [k]) n s
      else pick_non_term_subnodes rb p (Suc k) (prob - non_term_size n) ns s)"

definition node_pick_non_term_subnode ::
  "('r \<Rightarrow> u32 \<Rightarrow> u32 \<times> 'r) \<Rightarrow> node option \<Rightarrow> 'r \<Rightarrow> path option \<times> 'r" where
  "node_pick_non_term_subnode rb node s =
     (case node of None \<Rightarrow> (None, s) | Some n \<Rightarrow> pick_non_term rb [] n s)"

fun pick_recursion_edge :: "('r \<Rightarrow> u32 \<Rightarrow> u32 \<times> 'r) \<Rightarrow> path \<Rightarrow> node \<Rightarrow> 'r \<Rightarrow> edge option \<times> 'r"
  and pick_edge_subnodes ::
    "('r \<Rightarrow> u32 \<Rightarrow> u32 \<times> 'r) \<Rightarrow> path \<Rightarrow> u32 \<Rightarrow> nat \<Rightarrow> nat \<Rightarrow> node option list \<Rightarrow> 'r \<Rightarrow> edge option \<times> 'r" where
  "pick_recursion_edge rb p (Node i r v ns re nt) s =
     (if re = 0 then (None, s)
      else (case rb s (of_nat re) of (w, s) \<Rightarrow>
        pick_edge_subnodes rb p i 0 (unat w) ns s))"
| "pick_edge_subnodes rb p i k prob [] s = (None, s)"
| "pick_edge_subnodes rb p i k prob (None # ns) s =
     pick_edge_subnodes rb p i (Suc k) prob ns s"
| "pick_edge_subnodes rb p i k prob (Some n # ns) s =
     (if i = node_id n \<and> prob < 1
      then (Some \<lparr>edge_parent = p, edge_subnode = p @ [k], edge_offset = k\<rparr>, s)
      else
        let prob = (if i = node_id n then prob - 1 else prob)
        in if prob < recursion_edge_size n then pick_recursion_edge rb (p @ [k]) n s
           else pick_edge_subnodes rb p i (Suc k) (prob - recursion_edge_size n) ns s)"

definition node_pick_recursion_edge ::
  "('r \<Rightarrow> u32 \<Rightarrow> u32 \<times> 'r) \<Rightarrow> node option \<Rightarrow> 'r \<Rightarrow> edge option \<times> 'r" where
  "node_pick_recursion_edge rb node s =
     (case node of None \<Rightarrow> (None, s) | Some n \<Rightarrow> pick_recursion_edge rb [] n s)"

definition node_get_parent_edge :: "path option \<Rightarrow> edge option" where
  "node_get_parent_edge node =
     (case node of None \<Rightarrow> None
      | Some p \<Rightarrow> if p = [] then None
          else Some \<lparr>edge_parent = butlast p, edge_subnode = p, edge_offset = last p\<rparr>)"

section \<open>Traversals\<close>

fun node_to_buf :: "u8 list \<Rightarrow> node \<Rightarrow> u8 list"
  and subnodes_to_buf :: "u8 list \<Rightarrow> node option list \<Rightarrow> u8 list" where
  "node_to_buf data (Node i r v ns re nt) =
     (if length ns = 0 then (if length v = 0 then data else data @ v)
      else subnodes_to_buf data ns)"
| "subnodes_to_buf data [] = data"
| "subnodes_to_buf data (None # ns) = subnodes_to_buf data ns"
| "subnodes_to_buf data (Some n # ns) = subnodes_to_buf (node_to_buf data n) ns"

fun node_get_recursion_edges :: "path \<Rightarrow> node \<Rightarrow> edge list \<Rightarrow> edge list"
  and recursion_edges_subnodes :: "path \<Rightarrow> u32 \<Rightarrow> nat \<Rightarrow> node option list \<Rightarrow> edge list \<Rightarrow> edge list" where
  "node_get_recursion_edges p (Node i r v ns re nt) l =
     (if length ns = 0 then l else recursion_edges_subnodes p i 0 ns l)"
| "recursion_edges_subnodes p i k [] l = l"
| "recursion_edges_subnodes p i k (None # ns) l = recursion_edges_subnodes p i (Suc k) ns l"
| "recursion_edges_subnodes p i k (Some n # ns) l =
     (let l = (if i = node_id n then l @ [\<lparr>edge_parent = p, edge_subnode = p @ [k], edge_offset = k\<rparr>] else l);
          l = node_get_recursion_edges (p @ [k]) n l
      in recursion_edges_subnodes p i (Suc k) ns l)"

fun node_get_non_terminal_nodes :: "path \<Rightarrow> node \<Rightarrow> path list \<Rightarrow> path list"
  and non_terminals_subnodes :: "path \<Rightarrow> nat \<Rightarrow> node option list \<Rightarrow> path list \<Rightarrow> path list" where
  "node_get_non_terminal_nodes p (Node i r v ns re nt) l =
     (if i = 0 then l else non_terminals_subnodes p 0 ns (l @ [p]))"
| "non_terminals_subnodes p k [] l = l"
| "non_terminals_subnodes p k (None # ns) l = non_terminals_subnodes p (Suc k) ns l"
| "non_terminals_subnodes p k (Some n # ns) l =
     non_terminals_subnodes p (Suc k) ns (node_get_non_terminal_nodes (p @ [k]) n l)"

section \<open>Trees\<close>

record tree =
  root :: "node option"
  data_buf :: "u8 list"
  ser_buf :: "u8 list"
  non_terminal_node_list :: "path list option"
  recursion_edge_list :: "edge list option"

definition tree_create :: tree where
  "tree_create = \<lparr>root = None, data_buf = [], ser_buf = [], non_terminal_node_list = None,
     recursion_edge_list = None\<rparr>"

definition tree_to_buf :: "tree \<Rightarrow> tree" where
  "tree_to_buf t =
     t\<lparr>data_buf := (case root t of None \<Rightarrow> [] | Some n \<Rightarrow> node_to_buf [] n)\<rparr>"

definition tree_clone :: "tree \<Rightarrow> tree" where
  "tree_clone t = tree_create\<lparr>root := map_option node_clone (root t)\<rparr>"

definition tree_equal :: "tree option \<Rightarrow> tree option \<Rightarrow> bool" where
  "tree_equal ta tb =
     (case (ta, tb) of
        (Some a, Some b) \<Rightarrow>
          (case (root a, root b) of
             (Some m, Some n) \<Rightarrow> node_equal m n
           | (None, None) \<Rightarrow> True
           | _ \<Rightarrow> False)
      | (None, None) \<Rightarrow> True
      | _ \<Rightarrow> False)"

text \<open>A NULL root is dereferenced by the source: \<open>None\<close>.\<close>

definition tree_get_size :: "tree \<Rightarrow> (nat \<times> tree) option" where
  "tree_get_size t =
     (case root t of None \<Rightarrow> None
      | Some n \<Rightarrow>
          if node_id n = 0 then Some (0, t)
          else let n' = node_get_size n in Some (non_term_size n', t\<lparr>root := Some n'\<rparr>))"

definition tree_get_recursion_edges :: "tree \<Rightarrow> tree" where
  "tree_get_recursion_edges t =
     t\<lparr>recursion_edge_list :=
        Some (case root t of None \<Rightarrow> [] | Some n \<Rightarrow> node_get_recursion_edges [] n [])\<rparr>"

definition tree_get_non_terminal_nodes :: "tree \<Rightarrow> tree" where
  "tree_get_non_terminal_nodes t =
     t\<lparr>non_terminal_node_list :=
        Some (case root t of None \<Rightarrow> [] | Some n \<Rightarrow> node_get_non_terminal_nodes [] n [])\<rparr>"

section \<open>Well-formed trees\<close>

text \<open>Terminal nodes (id 0) have no subnodes; \<open>full\<close> trees have no NULL subnode.\<close>

fun wf_node :: "node \<Rightarrow> bool" where
  "wf_node (Node i r v ns re nt) \<longleftrightarrow> (i = 0 \<longrightarrow> ns = []) \<and>
     (\<forall>s\<in>set ns. case s of None \<Rightarrow> True | Some n \<Rightarrow> wf_node n)"

fun full_node :: "node \<Rightarrow> bool" where
  "full_node (Node i r v ns re nt) \<longleftrightarrow>
     (\<forall>s\<in>set ns. case s of None \<Rightarrow> False | Some n \<Rightarrow> full_node n)"

text \<open>Both size fields are those \<open>node_get_size\<close> computes.\<close>

definition sized :: "node \<Rightarrow> bool" where
  "sized n \<longleftrightarrow> node_get_size n = n"

text \<open>A tree without its size fields, what \<open>node_equal\<close> compares.\<close>

primrec erase :: "node \<Rightarrow> node" where
  "erase (Node i r v ns re nt) = Node i r v (map (map_option erase) ns) 0 0"

lemma wf_node_iff [simp]:
  "wf_node (Node i r v ns re nt) \<longleftrightarrow> (i = 0 \<longrightarrow> ns = []) \<and> (\<forall>m. Some m \<in> set ns \<longrightarrow> wf_node m)"
  by (auto split: option.splits)

lemma full_node_iff [simp]:
  "full_node (Node i r v ns re nt) \<longleftrightarrow> None \<notin> set ns \<and> (\<forall>m. Some m \<in> set ns \<longrightarrow> full_node m)"
  by (auto split: option.splits) (metis option.exhaust)

declare wf_node.simps [simp del] full_node.simps [simp del]

lemma node_induct [case_names Node]:
  assumes "\<And>i r v ns re nt. (\<And>m. Some m \<in> set ns \<Longrightarrow> P m) \<Longrightarrow> P (Node i r v ns re nt)"
  shows "P n"
proof (induction n)
  case (Node i r v ns re nt)
  then show ?case by (intro assms) force
qed

section \<open>Lemmas\<close>

lemma clone_subnodes_eq:
  "i \<noteq> 0 \<Longrightarrow> clone_subnodes (Node i r v (xs @ replicate (length ns) None) re nt) (length xs) ns =
     Node i r v (xs @ map (map_option node_clone) ns) re nt"
proof (induction ns arbitrary: xs)
  case (Cons s ns)
  have upd: "(xs @ None # replicate (length ns) None)[length xs := y] = (xs @ [y]) @ replicate (length ns) None"
    for y :: "node option" by simp
  show ?case
  proof (cases s)
    case None
    then show ?thesis using Cons.IH [of "xs @ [None]"] Cons.prems by (simp add: upd)
  next
    case (Some n)
    then show ?thesis using Cons.IH [of "xs @ [Some (node_clone n)]"] Cons.prems by (simp add: upd)
  qed
qed simp

lemma node_clone_eq:
  "node_clone (Node i r v ns re nt) =
     Node i r v (if i = 0 then [] else map (map_option node_clone) ns) re nt"
proof (cases "i = 0")
  case True
  have "clone_subnodes (Node 0 r v [] re nt) k ns = Node 0 r v [] re nt" for k
    by (induction ns arbitrary: k) (auto split: option.splits, metis clone_subnodes.simps node_set_subnode.simps option.exhaust)
  then show ?thesis using True by (auto simp: node_create_def Let_def)
next
  case False
  then show ?thesis using clone_subnodes_eq [of i r v "[]" ns re nt] by (auto simp: node_create_def Let_def)
qed

lemma node_clone_id: "wf_node n \<Longrightarrow> node_clone n = n"
proof (induction n rule: node_induct)
  case (Node i r v ns re nt)
  have "wf_node m" if "Some m \<in> set ns" for m
    using Node.prems that by simp
  then have "map_option node_clone x = x" if "x \<in> set ns" for x
    by (cases x) (use that Node.IH in auto)
  then show ?case using Node.prems by (auto simp: node_clone_eq map_idI simp del: node_clone.simps)
qed

lemma equal_subnodes_eq:
  assumes "\<And>m n. Some m \<in> set as \<Longrightarrow> node_equal m n \<longleftrightarrow> erase m = erase n" "length as = length bs"
  shows "equal_subnodes as bs \<longleftrightarrow> map (map_option erase) as = map (map_option erase) bs"
  using assms(2,1)
proof (induction as bs rule: list_induct2)
  case (Cons a as b bs)
  then show ?case by (cases a; cases b) auto
qed simp

lemma node_equal_erase: "node_equal a b \<longleftrightarrow> erase a = erase b"
proof (induction a arbitrary: b rule: node_induct)
  case (Node i r v ns re nt)
  show ?case
  proof (cases b)
    case (Node i' r' v' ns' re' nt')
    have "length ns = length ns' \<Longrightarrow> equal_subnodes ns ns' \<longleftrightarrow> map (map_option erase) ns = map (map_option erase) ns'"
      by (rule equal_subnodes_eq) (use Node.IH in auto)
    then show ?thesis using Node by (auto dest: map_eq_imp_length_eq)
  qed
qed

subsection \<open>Sizes\<close>

definition nt_sum :: "node option list \<Rightarrow> nat" where
  "nt_sum ns = sum_list (map (case_option 0 non_term_size) ns)"

definition re_sum :: "u32 \<Rightarrow> node option list \<Rightarrow> nat" where
  "re_sum i ns =
     sum_list (map (case_option 0 (\<lambda>n. (if i = node_id n then 1 else 0) + recursion_edge_size n)) ns)"

lemma nt_sum_simps [simp]:
  "nt_sum [] = 0" "nt_sum (None # ns) = nt_sum ns" "nt_sum (Some n # ns) = non_term_size n + nt_sum ns"
  by (simp_all add: nt_sum_def)

lemma re_sum_simps [simp]:
  "re_sum i [] = 0" "re_sum i (None # ns) = re_sum i ns"
  "re_sum i (Some n # ns) = (if i = node_id n then 1 else 0) + recursion_edge_size n + re_sum i ns"
  by (simp_all add: re_sum_def)

lemma node_get_size_id [simp]: "node_id (node_get_size n) = node_id n"
  by (cases n) (simp split: prod.splits)

lemma get_size_subnodes_eq:
  "get_size_subnodes i re nt ns =
     (let ns' = map (map_option node_get_size) ns in (ns', re + re_sum i ns', nt + nt_sum ns'))"
proof (induction ns arbitrary: re nt)
  case (Cons s ns)
  then show ?case by (cases s) (auto simp: Let_def)
qed (simp add: Let_def)

lemma node_get_size_eq:
  "node_get_size (Node i r v ns re nt) =
     (if i = 0 then Node i r v ns 0 0
      else let ns' = map (map_option node_get_size) ns in Node i r v ns' (re_sum i ns') (1 + nt_sum ns'))"
  by (simp add: get_size_subnodes_eq Let_def)

declare node_get_size.simps [simp del]

lemma map_option_fixed: "map (map_option f) ns = ns \<longleftrightarrow> (\<forall>m. Some m \<in> set ns \<longrightarrow> f m = m)"
  by (induction ns) (auto simp: map_option_case split: option.splits)

lemma Some_in_map_option:
  "Some m \<in> set (map (map_option f) ns) \<longleftrightarrow> (\<exists>n. Some n \<in> set ns \<and> m = f n)"
  by (auto simp: image_iff) (metis map_option_eq_Some, metis option.map(2))

lemma sized_iff:
  "sized (Node i r v ns re nt) \<longleftrightarrow>
     (if i = 0 then re = 0 \<and> nt = 0
      else (\<forall>m. Some m \<in> set ns \<longrightarrow> sized m) \<and> re = re_sum i ns \<and> nt = 1 + nt_sum ns)"
proof -
  have fixed: "map (map_option node_get_size) ns = ns \<longleftrightarrow> (\<forall>m. Some m \<in> set ns \<longrightarrow> sized m)"
    by (simp only: map_option_fixed sized_def)
  show ?thesis
  proof (cases "map (map_option node_get_size) ns = ns")
    case True
    then show ?thesis using fixed by (auto simp: sized_def [of "Node i r v ns re nt"] node_get_size_eq)
  next
    case False
    then show ?thesis using fixed
      by (auto simp: sized_def [of "Node i r v ns re nt"] node_get_size_eq Let_def)
  qed
qed

lemma sized_node_get_size: "sized (node_get_size n)"
proof (induction n rule: node_induct)
  case (Node i r v ns re nt)
  then show ?case by (auto simp: node_get_size_eq Let_def sized_iff Some_in_map_option simp del: set_map)
qed

lemma wf_node_get_size: "wf_node (node_get_size n) \<longleftrightarrow> wf_node n"
proof (induction n rule: node_induct)
  case (Node i r v ns re nt)
  have "(\<forall>m. Some m \<in> set (map (map_option node_get_size) ns) \<longrightarrow> wf_node m) \<longleftrightarrow>
        (\<forall>m. Some m \<in> set ns \<longrightarrow> wf_node m)"
    unfolding Some_in_map_option using Node by blast
  then show ?case by (simp add: node_get_size_eq Let_def)
qed

lemma erase_node_get_size: "erase (node_get_size n) = erase n"
proof (induction n rule: node_induct)
  case (Node i r v ns re nt)
  have "map_option (erase \<circ> node_get_size) x = map_option erase x" if "x \<in> set ns" for x
    by (cases x) (use that Node in auto)
  then show ?case by (auto simp: node_get_size_eq Let_def option.map_comp)
qed

subsection \<open>Traversals reach every position once\<close>

text \<open>\<open>sub_at ns k j q\<close>: the subtree at \<open>j # q\<close> when \<open>ns\<close> are the subnodes from index \<open>k\<close> on.\<close>

definition sub_at :: "node option list \<Rightarrow> nat \<Rightarrow> nat \<Rightarrow> path \<Rightarrow> node option" where
  "sub_at ns k j q =
     (if k \<le> j \<and> j - k < length ns then (case ns ! (j - k) of None \<Rightarrow> None | Some m \<Rightarrow> subtree m q) else None)"

lemma subtree_Cons [simp]: "subtree n (j # q) = sub_at (subnodes n) 0 j q"
  by (simp add: sub_at_def)

declare subtree.simps(2) [simp del]

lemma sub_at_simps [simp]:
  "sub_at [] k j q = None"
  "sub_at (s # ns) k j q =
     (if j = k then (case s of None \<Rightarrow> None | Some m \<Rightarrow> subtree m q) else sub_at ns (Suc k) j q)"
  by (auto simp: sub_at_def nth_Cons' not_less Suc_diff_le split: option.splits)

lemma sub_at_ge: "sub_at ns k j q = Some m \<Longrightarrow> k \<le> j"
  by (auto simp: sub_at_def split: if_splits)

lemma sub_at_lt [simp]: "j < k \<Longrightarrow> sub_at ns k j q = None"
  by (simp add: sub_at_def)

definition non_terminal_at :: "node \<Rightarrow> path \<Rightarrow> bool" where
  "non_terminal_at n q \<longleftrightarrow> (\<exists>m. subtree n q = Some m \<and> node_id m \<noteq> 0)"

definition non_terminal_in :: "node option list \<Rightarrow> nat \<Rightarrow> path \<Rightarrow> bool" where
  "non_terminal_in ns k q \<longleftrightarrow>
     (case q of [] \<Rightarrow> False | j # q' \<Rightarrow> \<exists>m. sub_at ns k j q' = Some m \<and> node_id m \<noteq> 0)"

lemma non_terminal_in_simps:
  "\<not> non_terminal_in [] k q"
  "non_terminal_in (None # ns) k q \<longleftrightarrow> non_terminal_in ns (Suc k) q"
  "non_terminal_in (Some n # ns) k q \<longleftrightarrow>
     (\<exists>q'. q = k # q' \<and> non_terminal_at n q') \<or> non_terminal_in ns (Suc k) q"
  by (auto simp: non_terminal_in_def non_terminal_at_def split: list.splits if_splits)

lemma non_terminal_at_Node:
  "wf_node (Node i r v ns re nt) \<Longrightarrow>
     non_terminal_at (Node i r v ns re nt) q \<longleftrightarrow> i \<noteq> 0 \<and> (q = [] \<or> non_terminal_in ns 0 q)"
  by (cases q) (auto simp: non_terminal_at_def non_terminal_in_def)

lemma non_terminal_in_fresh: "non_terminal_in ns k q \<Longrightarrow> j < k \<Longrightarrow> q \<noteq> j # q'"
  by (auto simp: non_terminal_in_def)

lemma non_terminal_nodes_spec:
  "wf_node n \<Longrightarrow> \<exists>ps. node_get_non_terminal_nodes p n l = l @ map ((@) p) ps \<and> distinct ps \<and>
     set ps = Collect (non_terminal_at n) \<and> length ps = non_term_size (node_get_size n)"
  "(\<And>m. Some m \<in> set ns \<Longrightarrow> wf_node m) \<Longrightarrow>
     \<exists>ps. non_terminals_subnodes p k ns l = l @ map ((@) p) ps \<and> distinct ps \<and>
       set ps = Collect (non_terminal_in ns k) \<and> length ps = nt_sum (map (map_option node_get_size) ns)"
proof (induction p n l and p k ns l rule: node_get_non_terminal_nodes_non_terminals_subnodes.induct)
  case (1 p i r v ns re nt l)
  show ?case
  proof (cases "i = 0")
    case True
    then show ?thesis using 1
      by (intro exI [of _ "[]"]) (auto simp: node_get_size_eq non_terminal_at_Node)
  next
    case False
    then obtain ps where ps: "non_terminals_subnodes p 0 ns (l @ [p]) = (l @ [p]) @ map ((@) p) ps"
      "distinct ps" "set ps = Collect (non_terminal_in ns 0)"
      "length ps = nt_sum (map (map_option node_get_size) ns)"
      using 1 by auto
    then have "[] \<notin> set ps" by (auto simp: non_terminal_in_def)
    then show ?thesis using False ps 1(2)
      by (intro exI [of _ "[] # ps"]) (auto simp: node_get_size_eq Let_def non_terminal_at_Node)
  qed
next
  case (2 p k l)
  then show ?case by (auto simp: non_terminal_in_simps)
next
  case (3 p k ns l)
  then show ?case by (auto simp: non_terminal_in_simps)
next
  case (4 p k n ns l)
  obtain ps where ps: "node_get_non_terminal_nodes (p @ [k]) n l = l @ map ((@) (p @ [k])) ps" "distinct ps"
     "set ps = Collect (non_terminal_at n)" "length ps = non_term_size (node_get_size n)"
    using 4(1) 4(3) [of n] by (metis list.set_intros(1))
  obtain qs where qs: "non_terminals_subnodes p (Suc k) ns (l @ map ((@) (p @ [k])) ps) =
       (l @ map ((@) (p @ [k])) ps) @ map ((@) p) qs" "distinct qs"
     "set qs = Collect (non_terminal_in ns (Suc k))"
     "length qs = nt_sum (map (map_option node_get_size) ns)"
    using 4(2,3) unfolding ps(1) by (metis list.set_intros(2))
  have "map ((@) (p @ [k])) ps = map ((@) p) (map ((#) k) ps)" by simp
  moreover have "distinct (map ((#) k) ps @ qs)"
    using ps(2) qs(2,3) non_terminal_in_fresh [of ns "Suc k" _ k]
    by (auto simp: distinct_map inj_on_def)
  ultimately show ?case using ps qs
    by (intro exI [of _ "map ((#) k) ps @ qs"]) (auto simp: non_terminal_in_simps)
qed

subsection \<open>Recursion edges\<close>

text \<open>The edge from the node at \<open>q\<close> to its subnode \<open>j\<close>, below \<open>p\<close>.\<close>

definition mk_edge :: "path \<Rightarrow> path \<times> nat \<Rightarrow> edge" where
  "mk_edge p = (\<lambda>(q, j). \<lparr>edge_parent = p @ q, edge_subnode = p @ q @ [j], edge_offset = j\<rparr>)"

definition recursion_at :: "node \<Rightarrow> path \<times> nat \<Rightarrow> bool" where
  "recursion_at n = (\<lambda>(q, j). \<exists>a b. subtree n q = Some a \<and> subtree n (q @ [j]) = Some b \<and> node_id a = node_id b)"

definition recursion_in :: "u32 \<Rightarrow> node option list \<Rightarrow> nat \<Rightarrow> path \<times> nat \<Rightarrow> bool" where
  "recursion_in i ns k = (\<lambda>(q, j). case q of
      [] \<Rightarrow> (\<exists>b. sub_at ns k j [] = Some b \<and> i = node_id b)
    | h # q' \<Rightarrow> (\<exists>a b. sub_at ns k h q' = Some a \<and> sub_at ns k h (q' @ [j]) = Some b \<and> node_id a = node_id b))"

lemma mk_edge_shift: "mk_edge (p @ [k]) (q, j) = mk_edge p (k # q, j)"
  by (simp add: mk_edge_def)

lemma recursion_in_simps:
  "\<not> recursion_in i [] k e"
  "recursion_in i (None # ns) k e \<longleftrightarrow> recursion_in i ns (Suc k) e"
  "recursion_in i (Some n # ns) k e \<longleftrightarrow>
     e = ([], k) \<and> i = node_id n \<or> (\<exists>q j. e = (k # q, j) \<and> recursion_at n (q, j)) \<or> recursion_in i ns (Suc k) e"
  by ((cases e; cases "fst e"; auto simp: recursion_in_def recursion_at_def)+)

lemma recursion_at_Node:
  "recursion_at (Node i r v ns re nt) e \<longleftrightarrow> recursion_in i ns 0 e"
  by (cases e; cases "fst e") (auto simp: recursion_at_def recursion_in_def)

lemma recursion_in_fresh:
  "recursion_in i ns (Suc k) e \<Longrightarrow> e \<noteq> ([], k) \<and> (\<forall>q j. e \<noteq> (k # q, j))"
  by (auto simp: recursion_in_def)

lemma recursion_edges_spec:
  "wf_node n \<Longrightarrow> \<exists>es. node_get_recursion_edges p n l = l @ map (mk_edge p) es \<and> distinct es \<and>
     set es = Collect (recursion_at n) \<and> length es = recursion_edge_size (node_get_size n)"
  "(\<And>m. Some m \<in> set ns \<Longrightarrow> wf_node m) \<Longrightarrow>
     \<exists>es. recursion_edges_subnodes p i k ns l = l @ map (mk_edge p) es \<and> distinct es \<and>
       set es = Collect (recursion_in i ns k) \<and> length es = re_sum i (map (map_option node_get_size) ns)"
proof (induction p n l and p i k ns l rule: node_get_recursion_edges_recursion_edges_subnodes.induct)
  case (1 p i r v ns re nt l)
  then show ?case
    by (cases "ns = []") (auto simp: node_get_size_eq Let_def recursion_at_Node recursion_in_simps
      fun_eq_iff [of "recursion_at (Node i r v ns re nt)"])
next
  case (2 p i k l)
  then show ?case by (auto simp: recursion_in_simps)
next
  case (3 p i k ns l)
  then show ?case by (auto simp: recursion_in_simps)
next
  case (4 p i k n ns l)
  define here where "here = (if i = node_id n then [([], k)] else ([] :: (path \<times> nat) list))"
  define l' where "l' = l @ map (mk_edge p) here"
  have l': "(if i = node_id n then l @ [\<lparr>edge_parent = p, edge_subnode = p @ [k], edge_offset = k\<rparr>] else l) = l'"
    by (simp add: l'_def here_def mk_edge_def)
  obtain es where es: "node_get_recursion_edges (p @ [k]) n l' = l' @ map (mk_edge (p @ [k])) es" "distinct es"
     "set es = Collect (recursion_at n)" "length es = recursion_edge_size (node_get_size n)"
    using 4(1) [OF l' [symmetric]] 4(3) by auto
  obtain fs where fs: "recursion_edges_subnodes p i (Suc k) ns (l' @ map (mk_edge (p @ [k])) es) =
       (l' @ map (mk_edge (p @ [k])) es) @ map (mk_edge p) fs" "distinct fs"
     "set fs = Collect (recursion_in i ns (Suc k))"
     "length fs = re_sum i (map (map_option node_get_size) ns)"
    using 4(2) [OF l' [symmetric] es(1) [symmetric]] 4(3) by auto
  let ?sh = "\<lambda>(q, j). (k # q, j)"
  have "map (mk_edge (p @ [k])) es = map (mk_edge p) (map ?sh es)"
    by (auto simp: mk_edge_shift)
  moreover have "distinct (here @ map ?sh es @ fs)"
    using es(2) fs(2,3)
    by (auto simp: distinct_map inj_on_def here_def dest: recursion_in_fresh)
  moreover have "set (here @ map ?sh es @ fs) = Collect (recursion_in i (Some n # ns) k)"
    using es(3) fs(3) by (auto simp: recursion_in_simps here_def image_iff)
  ultimately show ?case using es(1,4) fs(1,4) l'
    by (intro exI [of _ "here @ map ?sh es @ fs"]) (auto simp: l'_def here_def)
qed

subsection \<open>Random picks\<close>

lemma nt_sum_mem: "Some m \<in> set ns \<Longrightarrow> non_term_size m \<le> nt_sum ns"
  unfolding nt_sum_def by (rule member_le_sum_list [of "case_option 0 non_term_size (Some m)", simplified]) force

lemma re_sum_mem: "Some m \<in> set ns \<Longrightarrow> recursion_edge_size m \<le> re_sum i ns"
  by (induction ns) (auto simp: re_sum_def split: option.splits)

lemma pick_non_term_subnodes_spec:
  assumes "\<And>m p s. Some m \<in> set ns \<Longrightarrow> node_id m \<noteq> 0 \<Longrightarrow>
      \<exists>q s'. pick_non_term rb p m s = (Some (p @ q), s') \<and> non_terminal_at m q"
    and "\<And>m. Some m \<in> set ns \<Longrightarrow> node_id m = 0 \<Longrightarrow> non_term_size m = 0"
    and "prob < nt_sum ns"
  shows "\<exists>q s'. pick_non_term_subnodes rb p k prob ns s = (Some (p @ q), s') \<and> non_terminal_in ns k q"
  using assms
proof (induction ns arbitrary: k prob)
  case (Cons x ns)
  show ?case
  proof (cases x)
    case None
    then show ?thesis using Cons by (simp add: non_terminal_in_simps)
  next
    case (Some m)
    show ?thesis
    proof (cases "node_id m \<noteq> 0 \<and> prob < non_term_size m")
      case True
      moreover obtain q s' where "pick_non_term rb (p @ [k]) m s = (Some ((p @ [k]) @ q), s')" "non_terminal_at m q"
        using Cons.prems(1) [of m "p @ [k]" s] True Some by auto
      ultimately show ?thesis using Some by (auto simp: non_terminal_in_simps)
    next
      case False
      then have "prob - non_term_size m < nt_sum ns" "node_id m = 0 \<Longrightarrow> non_term_size m = 0"
        using Cons.prems(2,3) Some by (auto simp: less_diff_conv2)
      then show ?thesis
        using Cons.IH [of "prob - non_term_size m" "Suc k"] Cons.prems(1,2) False Some
        by (auto simp: non_terminal_in_simps)
    qed
  qed
qed simp

lemma pick_edge_subnodes_spec:
  assumes "\<And>m p s. Some m \<in> set ns \<Longrightarrow> 0 < recursion_edge_size m \<Longrightarrow>
      \<exists>e s'. pick_recursion_edge rb p m s = (Some (mk_edge p e), s') \<and> recursion_at m e"
    and "prob < re_sum i ns"
  shows "\<exists>e s'. pick_edge_subnodes rb p i k prob ns s = (Some (mk_edge p e), s') \<and> recursion_in i ns k e"
  using assms
proof (induction ns arbitrary: k prob)
  case (Cons x ns)
  show ?case
  proof (cases x)
    case None
    then show ?thesis using Cons by (simp add: recursion_in_simps)
  next
    case (Some m)
    define prob' where "prob' = (if i = node_id m then prob - 1 else prob)"
    consider (here) "i = node_id m" "prob = 0"
      | (below) "\<not> (i = node_id m \<and> prob < 1)" "prob' < recursion_edge_size m"
      | (after) "\<not> (i = node_id m \<and> prob < 1)" "\<not> prob' < recursion_edge_size m" by auto
    then show ?thesis
    proof cases
      case here
      then show ?thesis using Some
        by (intro exI [of _ "([], k)"]) (auto simp: recursion_in_simps mk_edge_def)
    next
      case below
      obtain q j s' where "pick_recursion_edge rb (p @ [k]) m s = (Some (mk_edge (p @ [k]) (q, j)), s')"
          "recursion_at m (q, j)"
        using Cons.prems(1) [of m "p @ [k]" s] below(2) Some by force
      then show ?thesis using below Some
        by (intro exI [of _ "(k # q, j)"] exI [of _ s'])
          (auto simp: recursion_in_simps prob'_def [symmetric] mk_edge_shift)
    next
      case after
      then have "prob' - recursion_edge_size m < re_sum i ns"
        using Cons.prems(2) Some by (auto simp: prob'_def split: if_splits)
      then obtain e s' where "pick_edge_subnodes rb p i (Suc k) (prob' - recursion_edge_size m) ns s = (Some (mk_edge p e), s')"
          "recursion_in i ns (Suc k) e"
        using Cons.IH [of "prob' - recursion_edge_size m" "Suc k"] Cons.prems(1) Some by auto
      then show ?thesis using after Some
        by (intro exI [of _ e] exI [of _ s']) (auto simp: recursion_in_simps prob'_def [symmetric])
    qed
  qed
qed simp

context random_source
begin

lemma pick_non_term_spec:
  "\<lbrakk>wf_node n; sized n; node_id n \<noteq> 0; non_term_size n < 2 ^ 32\<rbrakk> \<Longrightarrow>
     \<exists>q s'. pick_non_term rb p n s = (Some (p @ q), s') \<and> non_terminal_at n q"
proof (induction n arbitrary: p s rule: node_induct)
  case (Node i r v ns re nt)
  have nt: "nt = 1 + nt_sum ns" "nt < 2 ^ 32" "i \<noteq> 0"
    using Node.prems by (auto simp: sized_iff)
  have sub: "wf_node m \<and> sized m \<and> non_term_size m < 2 ^ 32" if "Some m \<in> set ns" for m
    using Node.prems that nt nt_sum_mem [OF that] by (auto simp: sized_iff)
  obtain w s' where w: "rb s (of_nat nt) = (w, s')" by (cases "rb s (of_nat nt)")
  have "unat w < nt" using rb_nat_less [of nt s] nt w by simp
  show ?case
  proof (cases "unat w < 1")
    case True
    then show ?thesis using w nt by (auto simp: non_terminal_at_def)
  next
    case False
    have "node_id m = 0 \<Longrightarrow> non_term_size m = 0" if "Some m \<in> set ns" for m
      using sub [OF that] by (cases m) (simp add: sized_iff)
    moreover have "unat w - 1 < nt_sum ns" using False \<open>unat w < nt\<close> nt by simp
    ultimately obtain q s'' where "pick_non_term_subnodes rb p 0 (unat w - 1) ns s' = (Some (p @ q), s'')"
        "non_terminal_in ns 0 q"
      using pick_non_term_subnodes_spec [of ns rb "unat w - 1" p 0 s'] Node.IH sub by blast
    then show ?thesis using w nt False Node.prems(1)
      by (intro exI [of _ q] exI [of _ s'']) (auto simp: non_terminal_at_Node)
  qed
qed

lemma pick_recursion_edge_spec:
  "\<lbrakk>wf_node n; sized n; 0 < recursion_edge_size n; recursion_edge_size n < 2 ^ 32\<rbrakk> \<Longrightarrow>
     \<exists>e s'. pick_recursion_edge rb p n s = (Some (mk_edge p e), s') \<and> recursion_at n e"
proof (induction n arbitrary: p s rule: node_induct)
  case (Node i r v ns re nt)
  have re: "re = re_sum i ns" "re < 2 ^ 32" "0 < re" and i: "i \<noteq> 0"
    using Node.prems by (auto simp: sized_iff split: if_splits)
  have sub: "wf_node m \<and> sized m \<and> recursion_edge_size m < 2 ^ 32" if "Some m \<in> set ns" for m
    using Node.prems that re i re_sum_mem [OF that, of i] by (auto simp: sized_iff)
  obtain w s' where w: "rb s (of_nat re) = (w, s')" by (cases "rb s (of_nat re)")
  have "unat w < re_sum i ns" using rb_nat_less [of re s] re w by simp
  then obtain e s'' where "pick_edge_subnodes rb p i 0 (unat w) ns s' = (Some (mk_edge p e), s'')"
      "recursion_in i ns 0 e"
    using pick_edge_subnodes_spec [of ns rb "unat w" i p 0 s'] Node.IH sub by blast
  then show ?case using w re by (intro exI [of _ e] exI [of _ s'']) (auto simp: recursion_at_Node)
qed

end

subsection \<open>The text of a tree\<close>

lemma subnodes_to_buf_acc:
  assumes "\<And>m d. Some m \<in> set ns \<Longrightarrow> node_to_buf d m = d @ node_to_buf [] m"
  shows "subnodes_to_buf d ns = d @ concat (map (case_option [] (node_to_buf [])) ns)"
  using assms
proof (induction ns arbitrary: d)
  case (Cons x ns)
  have IH: "subnodes_to_buf d' ns = d' @ concat (map (case_option [] (node_to_buf [])) ns)" for d'
    by (rule Cons.IH) (rule Cons.prems, simp)
  have "node_to_buf d m = d @ node_to_buf [] m" if "x = Some m" for m
    by (rule Cons.prems) (simp add: that)
  then show ?case by (cases x) (simp_all add: IH)
qed simp

lemma node_to_buf_acc: "node_to_buf d n = d @ node_to_buf [] n"
proof (induction n arbitrary: d rule: node_induct)
  case (Node i r v ns re nt)
  have "subnodes_to_buf d' ns = d' @ concat (map (case_option [] (node_to_buf [])) ns)" for d'
    by (rule subnodes_to_buf_acc) (rule Node)
  then show ?case by simp
qed

lemma node_to_buf_Node [simp]:
  "node_to_buf d (Node i r v ns re nt) =
     d @ (if ns = [] then v else concat (map (case_option [] (node_to_buf [])) ns))"
  by (simp add: subnodes_to_buf_acc [OF node_to_buf_acc])

declare node_to_buf.simps [simp del]

lemma node_to_buf_erase: "node_to_buf [] (erase n) = node_to_buf [] n"
proof (induction n rule: node_induct)
  case (Node i r v ns re nt)
  have "case_option [] (node_to_buf []) (map_option erase x) = case_option [] (node_to_buf []) x" if "x \<in> set ns" for x
    by (cases x) (use that Node in auto)
  then show ?case by (auto simp: intro: arg_cong [where f = concat])
qed

lemma node_to_buf_replace:
  "subtree t p = Some s \<Longrightarrow>
     \<exists>pre post. \<forall>m. node_to_buf [] (replace_at t p m) = pre @ node_to_buf [] m @ post"
proof (induction t p arbitrary: s rule: subtree.induct)
  case (1 n)
  then show ?case by (intro exI [of _ "[]"]) simp
next
  case (2 n k p)
  obtain c where c: "k < length (subnodes n)" "subnodes n ! k = Some c" "subtree c p = Some s"
    using 2(2) by (auto simp: sub_at_def split: if_splits option.splits)
  obtain pre post where *: "\<And>m. node_to_buf [] (replace_at c p m) = pre @ node_to_buf [] m @ post"
    using 2(1) [OF c] by blast
  obtain i r v ns re nt where n: "n = Node i r v ns re nt" by (cases n)
  let ?f = "\<lambda>xs. concat (map (case_option [] (node_to_buf [])) xs)"
  have "?f (ns[k := Some x]) = ?f (take k ns) @ node_to_buf [] x @ ?f (drop (Suc k) ns)" for x
    using c(1) by (simp add: n upd_conv_take_nth_drop)
  then show ?case using c n *
    by (intro exI [of _ "?f (take k ns) @ pre"] exI [of _ "post @ ?f (drop (Suc k) ns)"]) auto
qed

lemma replace_at_same: "subtree t p = Some s \<Longrightarrow> replace_at t p s = t"
proof (induction t p rule: subtree.induct)
  case (2 n k p)
  then show ?case
    by (cases n) (auto simp: sub_at_def list_update_same_conv split: if_splits option.splits)
qed simp

lemma subtree_replace_at: "subtree t p = Some s \<Longrightarrow> subtree (replace_at t p m) (p @ q) = subtree m q"
proof (induction t p rule: subtree.induct)
  case (2 n k p)
  then show ?case
    by (cases n) (auto simp: sub_at_def split: if_splits option.splits)
qed simp

lemma wf_replace_at:
  "wf_node t \<Longrightarrow> wf_node m \<Longrightarrow> subtree t p = Some s \<Longrightarrow> wf_node (replace_at t p m)"
proof (induction t p rule: subtree.induct)
  case (2 n k p)
  obtain i r v ns re nt where n: "n = Node i r v ns re nt" by (cases n)
  obtain c where c: "k < length ns" "ns ! k = Some c" "subtree c p = Some s"
    using 2(4) n by (auto simp: sub_at_def split: if_splits option.splits)
  have "wf_node c" using 2(2) n c nth_mem [OF c(1)] by auto
  then have "wf_node (replace_at c p m)" using 2(1) 2(3) c n by simp
  then show ?case using c 2(2) n by (auto dest!: set_update_subset_insert [THEN subsetD])
qed simp

lemma full_replace_at:
  "full_node t \<Longrightarrow> full_node m \<Longrightarrow> subtree t p = Some s \<Longrightarrow> full_node (replace_at t p m)"
proof (induction t p rule: subtree.induct)
  case (2 n k p)
  obtain i r v ns re nt where n: "n = Node i r v ns re nt" by (cases n)
  obtain c where c: "k < length ns" "ns ! k = Some c" "subtree c p = Some s"
    using 2(4) n by (auto simp: sub_at_def split: if_splits option.splits)
  have "full_node c" using 2(2) n c nth_mem [OF c(1)] by auto
  then have "full_node (replace_at c p m)" using 2(1) 2(3) c n by simp
  then show ?case using c 2(2) n by (auto dest!: set_update_subset_insert [THEN subsetD])
qed simp

lemma node_id_replace_at:
  "subtree t p = Some s \<Longrightarrow> node_id m = node_id s \<Longrightarrow> node_id (replace_at t p m) = node_id t"
  by (cases t; cases p) (auto simp: sub_at_def split: option.splits if_splits)

subsection \<open>Every position can be drawn\<close>

text \<open>A source of random numbers that returns the numbers of a list, 0 when one is out of range.\<close>

fun scripted :: "u32 list \<Rightarrow> u32 \<Rightarrow> u32 \<times> u32 list" where
  "scripted [] limit = (0, [])"
| "scripted (w # ws) limit = (if w < limit then w else 0, ws)"

interpretation scripted: random_source scripted
proof
  show "fst (scripted r limit) = 0" if "limit \<le> 1" for r limit
    using that by (cases r) (auto simp: word_le_nat_alt word_less_nat_alt intro: unat_eq_zero [THEN iffD1])
  show "fst (scripted r limit) < limit" if "1 < limit" for r limit
    using that by (cases r) (auto simp: word_less_nat_alt)
qed

lemma scripted_nat:
  "k < n \<Longrightarrow> n < 2 ^ 32 \<Longrightarrow> scripted (of_nat k # ws) (of_nat n) = (of_nat k, ws)"
  by (simp add: word_less_nat_alt)

lemma pick_non_term_subnodes_at:
  assumes "j < length ns" "ns ! j = Some c" "node_id c \<noteq> 0" "0 < non_term_size c"
    and "\<And>m. Some m \<in> set ns \<Longrightarrow> node_id m = 0 \<Longrightarrow> non_term_size m = 0"
  shows "pick_non_term_subnodes rb p k (nt_sum (take j ns)) ns s = pick_non_term rb (p @ [k + j]) c s"
  using assms
proof (induction ns arbitrary: j k)
  case (Cons x ns)
  show ?case
  proof (cases j)
    case (Suc j')
    have IH: "pick_non_term_subnodes rb p (Suc k) (nt_sum (take j' ns)) ns s = pick_non_term rb (p @ [k + j]) c s"
      using Cons.IH [of j' "Suc k"] Cons.prems Suc by simp
    have "\<And>m. x = Some m \<Longrightarrow> node_id m = 0 \<Longrightarrow> non_term_size m = 0"
      using Cons.prems(5) by simp
    with IH Suc show ?thesis by (cases x) auto
  qed (use Cons.prems in simp)
qed simp

lemma nt_sum_take_less:
  "j < length ns \<Longrightarrow> ns ! j = Some c \<Longrightarrow> nt_sum (take j ns) + non_term_size c \<le> nt_sum ns"
proof (induction ns arbitrary: j)
  case (Cons x ns)
  then show ?case by (cases j; cases x) auto
qed simp

lemma re_sum_take_less:
  "j < length ns \<Longrightarrow> ns ! j = Some c \<Longrightarrow>
     re_sum i (take j ns) + (if i = node_id c then 1 else 0) + recursion_edge_size c \<le> re_sum i ns"
proof (induction ns arbitrary: j)
  case (Cons x ns)
  then show ?case by (cases j; cases x) fastforce+
qed simp

lemma pick_non_term_reaches:
  "\<lbrakk>wf_node n; sized n; non_term_size n < 2 ^ 32; non_terminal_at n q\<rbrakk> \<Longrightarrow>
     \<exists>ws. pick_non_term scripted p n ws = (Some (p @ q), [])"
proof (induction q arbitrary: n p)
  case Nil
  obtain i r v ns re nt where n: "n = Node i r v ns re nt" by (cases n)
  then have "0 < nt" using Nil by (auto simp: non_terminal_at_def sized_iff)
  then show ?case using Nil n scripted_nat [of 0 nt "[]"] by (intro exI [of _ "[0]"]) auto
next
  case (Cons j q)
  obtain i r v ns re nt where n: "n = Node i r v ns re nt" by (cases n)
  have sub: "i \<noteq> 0" "nt = 1 + nt_sum ns" "\<And>m. Some m \<in> set ns \<Longrightarrow> wf_node m \<and> sized m"
    using Cons.prems by (auto simp: n sized_iff non_terminal_at_Node simp del: wf_node_iff) auto
  obtain c where c: "j < length ns" "ns ! j = Some c" "non_terminal_at c q"
    using Cons.prems(4) by (auto simp: n non_terminal_at_def sub_at_def split: if_splits option.splits)
  have mem: "Some c \<in> set ns" using c by (metis nth_mem)
  obtain i' r' v' ns' re' nt' where c': "c = Node i' r' v' ns' re' nt'" by (cases c)
  have "node_id c \<noteq> 0" "0 < non_term_size c"
    using c(3) sub(3) [OF mem] by (auto simp: c' non_terminal_at_Node sized_iff simp del: wf_node_iff)
  moreover have "node_id m = 0 \<Longrightarrow> non_term_size m = 0" if "Some m \<in> set ns" for m
    using sub(3) [OF that] by (cases m) (simp add: sized_iff)
  ultimately have at: "pick_non_term_subnodes scripted p 0 (nt_sum (take j ns)) ns s = pick_non_term scripted (p @ [j]) c s" for s
    using pick_non_term_subnodes_at [OF c(1,2), of scripted p 0 s] by simp
  have lt: "1 + nt_sum (take j ns) < nt" "nt < 2 ^ 32"
    using nt_sum_take_less [OF c(1,2)] \<open>0 < non_term_size c\<close> sub(2) Cons.prems(3) n by auto
  obtain ws where ws: "pick_non_term scripted (p @ [j]) c ws = (Some ((p @ [j]) @ q), [])"
    using Cons.IH [of c "p @ [j]"] sub(3) [OF mem] c(3) nt_sum_mem [OF mem] lt sub(2) by auto
  have "unat (of_nat (1 + nt_sum (take j ns)) :: u32) = 1 + nt_sum (take j ns)"
    using lt by (intro unat_of_nat_small) simp
  then show ?case using at ws lt scripted_nat [OF lt, of ws] n
    by (intro exI [of _ "of_nat (1 + nt_sum (take j ns)) # ws"]) auto
qed

lemma pick_edge_subnodes_skip:
  "j \<le> length ns \<Longrightarrow>
     pick_edge_subnodes rb p i k (re_sum i (take j ns) + e) ns s = pick_edge_subnodes rb p i (k + j) e (drop j ns) s"
proof (induction ns arbitrary: j k)
  case (Cons x ns)
  show ?case
  proof (cases j)
    case (Suc j')
    have IH: "pick_edge_subnodes rb p i (Suc k) (re_sum i (take j' ns) + e) ns s =
        pick_edge_subnodes rb p i (k + j) e (drop j' ns) s"
      using Cons.IH [of j' "Suc k"] Cons.prems Suc by simp
    then show ?thesis using Suc by (cases x) (auto simp: Let_def add.assoc)
  qed simp
qed simp

lemma pick_recursion_edge_reaches:
  "\<lbrakk>wf_node n; sized n; recursion_edge_size n < 2 ^ 32; recursion_at n (q, j)\<rbrakk> \<Longrightarrow>
     \<exists>ws. pick_recursion_edge scripted p n ws = (Some (mk_edge p (q, j)), [])"
proof (induction q arbitrary: n p)
  case Nil
  obtain i r v ns re nt where n: "n = Node i r v ns re nt" by (cases n)
  obtain c where c: "j < length ns" "ns ! j = Some c" "i = node_id c"
    using Nil(4) by (auto simp: n recursion_at_def sub_at_def split: if_splits option.splits)
  have re: "re = re_sum i ns" using Nil c by (auto simp: n sized_iff)
  have lt: "re_sum i (take j ns) < re" "re < 2 ^ 32"
    using re_sum_take_less [OF c(1,2), of i] c(3) re Nil.prems(3) n by auto
  have "drop j ns = Some c # drop (Suc j) ns" using c by (simp add: Cons_nth_drop_Suc [symmetric])
  then have "pick_edge_subnodes scripted p i 0 (re_sum i (take j ns)) ns [] = (Some (mk_edge p ([], j)), [])"
    using pick_edge_subnodes_skip [of j ns scripted p i 0 0 "[]"] c by (simp add: mk_edge_def)
  moreover have "unat (of_nat (re_sum i (take j ns)) :: u32) = re_sum i (take j ns)"
    using lt by (intro unat_of_nat_small) simp
  ultimately show ?case using n lt scripted_nat [OF lt, of "[]"]
    by (intro exI [of _ "[of_nat (re_sum i (take j ns))]"]) auto
next
  case (Cons h q)
  obtain i r v ns re nt where n: "n = Node i r v ns re nt" by (cases n)
  obtain c where c: "h < length ns" "ns ! h = Some c" "recursion_at c (q, j)"
    using Cons.prems(4) by (auto simp: n recursion_at_def sub_at_def split: if_splits option.splits)
  have mem: "Some c \<in> set ns" using c by (metis nth_mem)
  then have re: "re = re_sum i ns" "wf_node c" "sized c" using Cons.prems by (auto simp: n sized_iff)
  obtain es where "set es = Collect (recursion_at c)" "length es = recursion_edge_size c"
    using recursion_edges_spec(1) [OF re(2), of "[]" "[]"] re(3) by (auto simp: sized_def)
  then have pos: "0 < recursion_edge_size c" using c(3) by (cases es) auto
  define w where "w = re_sum i (take h ns) + (if i = node_id c then 1 else 0)"
  have lt: "w < re" "re < 2 ^ 32"
    using re_sum_take_less [OF c(1,2), of i] re pos Cons.prems(3) n by (auto simp: w_def)
  have "drop h ns = Some c # drop (Suc h) ns" using c by (simp add: Cons_nth_drop_Suc [symmetric])
  then have at: "pick_edge_subnodes scripted p i 0 w ns s = pick_recursion_edge scripted (p @ [h]) c s" for s
    using pick_edge_subnodes_skip [of h ns scripted p i 0 "if i = node_id c then 1 else 0" s] c pos
    by (simp add: w_def Let_def split: if_splits)
  obtain ws where ws: "pick_recursion_edge scripted (p @ [h]) c ws = (Some (mk_edge (p @ [h]) (q, j)), [])"
    using Cons.IH [of c "p @ [h]"] re c(3) re_sum_mem [OF mem, of i] lt by auto
  have "unat (of_nat w :: u32) = w"
    using lt by (intro unat_of_nat_small) simp
  then show ?case using at ws lt scripted_nat [OF lt, of ws] n
    by (intro exI [of _ "of_nat w # ws"]) (auto simp: mk_edge_shift)
qed

section \<open>Properties\<close>

text \<open>The tree of \<open>1 - (2)\<close> in a small expression grammar, for the witnesses.\<close>

definition demo_leaf :: "u8 list \<Rightarrow> node" where
  "demo_leaf v = Node 0 0 v [] 0 0"

definition demo_num :: "u8 \<Rightarrow> node" where
  "demo_num d = Node 2 0 [] [Some (demo_leaf [d])] 0 0"

definition demo_tree :: node where
  "demo_tree = Node 1 0 [] [Some (Node 1 1 [] [Some (demo_num 49)] 0 0), Some (demo_leaf [45]), Some (Node 1 2 []
      [Some (demo_leaf [40]), Some (Node 1 1 [] [Some (demo_num 50)] 0 0), Some (demo_leaf [41])] 0 0)] 0 0"

lemmas demo_defs = demo_leaf_def demo_num_def demo_tree_def

lemma demo_tree_wf: "wf_node demo_tree"
  by (auto simp: demo_defs)

lemma demo_tree_sizes:
  "node_id (node_get_size demo_tree) = 1" "non_term_size (node_get_size demo_tree) = 6"
  "recursion_edge_size (node_get_size demo_tree) = 3"
  by (simp_all add: demo_defs node_get_size_eq)

text \<open>
  C18: \<^verbatim>\<open>node_get_size\<close> against the two traversals.  On a well-formed tree the list of non-terminal nodes
  is duplicate free and holds exactly the positions of the non-terminal nodes, the list of recursion
  edges is duplicate free and holds exactly the edges between nodes of the same id, and the two size
  fields the pass leaves in the root are the lengths of these lists.
\<close>
theorem tree_sizes_count_traversals:
  assumes "wf_node n"
  shows "distinct (node_get_non_terminal_nodes [] n [])
    \<and> set (node_get_non_terminal_nodes [] n []) = {p. \<exists>m. subtree n p = Some m \<and> node_id m \<noteq> 0}
    \<and> non_term_size (node_get_size n) = length (node_get_non_terminal_nodes [] n [])
    \<and> distinct (node_get_recursion_edges [] n [])
    \<and> set (node_get_recursion_edges [] n []) =
        {\<lparr>edge_parent = p, edge_subnode = p @ [j], edge_offset = j\<rparr> | p j.
           \<exists>a b. subtree n p = Some a \<and> subtree n (p @ [j]) = Some b \<and> node_id a = node_id b}
    \<and> recursion_edge_size (node_get_size n) = length (node_get_recursion_edges [] n [])"
proof -
  obtain ps where ps: "node_get_non_terminal_nodes [] n [] = ps" "distinct ps"
      "set ps = Collect (non_terminal_at n)" "length ps = non_term_size (node_get_size n)"
    using non_terminal_nodes_spec(1) [OF assms, of "[]" "[]"] by (auto simp: map_idI)
  obtain es where es: "node_get_recursion_edges [] n [] = map (mk_edge []) es" "distinct es"
      "set es = Collect (recursion_at n)" "length es = recursion_edge_size (node_get_size n)"
    using recursion_edges_spec(1) [OF assms, of "[]" "[]"] by auto
  have "inj_on (mk_edge []) (set es)" by (auto simp: inj_on_def mk_edge_def)
  moreover have "mk_edge [] ` set es = {\<lparr>edge_parent = p, edge_subnode = p @ [j], edge_offset = j\<rparr> | p j.
           \<exists>a b. subtree n p = Some a \<and> subtree n (p @ [j]) = Some b \<and> node_id a = node_id b}"
    unfolding es(3) by (fastforce simp: recursion_at_def mk_edge_def image_iff)
  ultimately show ?thesis using ps es
    by (simp add: distinct_map non_terminal_at_def [abs_def])
qed

theorem tree_sizes_count_traversals_witness:
  "length (node_get_non_terminal_nodes [] demo_tree []) = 6 \<and> length (node_get_recursion_edges [] demo_tree []) = 3"
  using tree_sizes_count_traversals [OF demo_tree_wf] by (simp add: demo_tree_sizes)

text \<open>
  C19: \<^verbatim>\<open>node_pick_non_term_subnode\<close> on a tree whose sizes are up to date.  With any random source that
  answers below its limit (the generator of \<^verbatim>\<open>utils.c\<close> among them) it returns a non-terminal node of
  the tree, never the NULL of the line marked unreachable, and each non-terminal node is the answer
  for some sequence of random numbers.
\<close>
theorem pick_non_term_total:
  assumes "wf_node n" "node_id n \<noteq> 0" "non_term_size (node_get_size n) < 2 ^ 32"
  shows "(\<exists>p. fst (node_pick_non_term_subnode (draw random_next64) (Some (node_get_size n)) s) = Some p
           \<and> non_terminal_at (node_get_size n) p)
    \<and> {p. \<exists>ws. fst (node_pick_non_term_subnode scripted (Some (node_get_size n)) ws) = Some p}
        = {p. non_terminal_at (node_get_size n) p}"
proof -
  let ?n = "node_get_size n"
  have n: "wf_node ?n" "sized ?n" "node_id ?n \<noteq> 0" "non_term_size ?n < 2 ^ 32"
    using assms by (simp_all add: wf_node_get_size sized_node_get_size)
  have "\<exists>ws. fst (node_pick_non_term_subnode scripted (Some ?n) ws) = Some p" if "non_terminal_at ?n p" for p
    using pick_non_term_reaches [OF n(1,2,4) that, of "[]"]
    by (auto simp: node_pick_non_term_subnode_def) (metis fst_conv)
  moreover have "non_terminal_at ?n p" if "fst (node_pick_non_term_subnode scripted (Some ?n) ws) = Some p" for p ws
    using scripted.pick_non_term_spec [OF n, of "[]" ws] that by (auto simp: node_pick_non_term_subnode_def)
  ultimately show ?thesis
    using romu64.pick_non_term_spec [OF n, of "[]" s] by (auto simp: node_pick_non_term_subnode_def)
qed

theorem pick_non_term_total_witness:
  "non_terminal_at (node_get_size demo_tree) [2, 1] \<and>
   (\<exists>ws. fst (node_pick_non_term_subnode scripted (Some (node_get_size demo_tree)) ws) = Some [2, 1])"
proof -
  have "non_terminal_at (node_get_size demo_tree) [2, 1]"
    by (simp add: demo_defs node_get_size_eq non_terminal_at_def sub_at_def)
  moreover have "node_id demo_tree \<noteq> 0" by (simp add: demo_tree_def)
  ultimately show ?thesis
    using pick_non_term_total [OF demo_tree_wf] by (auto simp: demo_tree_sizes)
qed

text \<open>
  C20: \<^verbatim>\<open>node_pick_recursion_edge\<close> on a tree whose sizes are up to date and that has a recursion edge:
  it returns an edge whose two ends have the same id, and each such edge is the answer for some
  sequence of random numbers.
\<close>
theorem pick_recursion_edge_total:
  assumes "wf_node n" "0 < recursion_edge_size (node_get_size n)" "recursion_edge_size (node_get_size n) < 2 ^ 32"
  shows "(\<exists>p j. fst (node_pick_recursion_edge (draw random_next64) (Some (node_get_size n)) s)
             = Some \<lparr>edge_parent = p, edge_subnode = p @ [j], edge_offset = j\<rparr>
           \<and> recursion_at (node_get_size n) (p, j))
    \<and> (\<forall>p j. recursion_at (node_get_size n) (p, j) \<longleftrightarrow>
          (\<exists>ws. fst (node_pick_recursion_edge scripted (Some (node_get_size n)) ws)
             = Some \<lparr>edge_parent = p, edge_subnode = p @ [j], edge_offset = j\<rparr>))"
proof -
  let ?n = "node_get_size n"
  have n: "wf_node ?n" "sized ?n" "0 < recursion_edge_size ?n" "recursion_edge_size ?n < 2 ^ 32"
    using assms by (simp_all add: wf_node_get_size sized_node_get_size)
  have "\<exists>ws. fst (node_pick_recursion_edge scripted (Some ?n) ws) = Some (mk_edge [] (p, j))"
    if "recursion_at ?n (p, j)" for p j
    using pick_recursion_edge_reaches [OF n(1,2,4) that, of "[]"]
    by (auto simp: node_pick_recursion_edge_def) (metis fst_conv)
  moreover have "recursion_at ?n (p, j)"
    if "fst (node_pick_recursion_edge scripted (Some ?n) ws) = Some (mk_edge [] (p, j))" for p j ws
    using scripted.pick_recursion_edge_spec [OF n, of "[]" ws] that
    by (auto simp: node_pick_recursion_edge_def mk_edge_def)
  ultimately show ?thesis
    using romu64.pick_recursion_edge_spec [OF n, of "[]" s]
    by (auto simp: node_pick_recursion_edge_def mk_edge_def)
qed

theorem pick_recursion_edge_total_witness:
  "\<exists>ws. fst (node_pick_recursion_edge scripted (Some (node_get_size demo_tree)) ws)
     = Some \<lparr>edge_parent = [2], edge_subnode = [2, 1], edge_offset = 1\<rparr>"
proof -
  have "recursion_at (node_get_size demo_tree) ([2], 1)"
    by (simp add: demo_defs node_get_size_eq recursion_at_def sub_at_def)
  then show ?thesis
    using pick_recursion_edge_total [OF demo_tree_wf] by (simp add: demo_tree_sizes)
qed

text \<open>
  C21: \<^verbatim>\<open>node_replace_subnode\<close> succeeds exactly when the subnode hangs below the given node and the new
  node has its id; then the new node stands at the old position and the text of the tree is the old
  text with the text of the old subtree exchanged for that of the new one.  Otherwise the tree is
  unchanged.
\<close>
theorem node_replace_subnode_text:
  assumes "subtree t (r @ [k]) = Some old"
  shows "(fst (node_replace_subnode t (Some r') (Some (r @ [k])) (Some new)) \<longleftrightarrow> r' = r \<and> node_id new = node_id old)
    \<and> (\<not> (r' = r \<and> node_id new = node_id old) \<longrightarrow>
           snd (node_replace_subnode t (Some r') (Some (r @ [k])) (Some new)) = t)
    \<and> (node_id new = node_id old \<longrightarrow>
           subtree (snd (node_replace_subnode t (Some r) (Some (r @ [k])) (Some new))) (r @ [k]) = Some new
         \<and> (\<exists>pre post. node_to_buf [] t = pre @ node_to_buf [] old @ post \<and>
              node_to_buf [] (snd (node_replace_subnode t (Some r) (Some (r @ [k])) (Some new)))
                = pre @ node_to_buf [] new @ post))"
proof -
  obtain pre post where "\<And>m. node_to_buf [] (replace_at t (r @ [k]) m) = pre @ node_to_buf [] m @ post"
    using node_to_buf_replace [OF assms] by blast
  moreover from this [of old] have "node_to_buf [] t = pre @ node_to_buf [] old @ post"
    by (simp add: replace_at_same [OF assms])
  ultimately have "\<exists>pre post. node_to_buf [] t = pre @ node_to_buf [] old @ post \<and>
      node_to_buf [] (replace_at t (r @ [k]) new) = pre @ node_to_buf [] new @ post" by blast
  then show ?thesis
    using assms subtree_replace_at [OF assms, of new "[]"] by (auto simp: node_replace_subnode_def)
qed

theorem node_replace_subnode_text_witness:
  "node_to_buf [] (snd (node_replace_subnode demo_tree (Some [2]) (Some [2, 1]) (Some (Node 1 1 [] [Some (demo_num 51)] 0 0))))
     = [49, 45, 40, 51, 41] \<and>
   fst (node_replace_subnode demo_tree (Some [2]) (Some [2, 1]) (Some (Node 1 1 [] [Some (demo_num 51)] 0 0)))"
proof -
  have "subtree demo_tree ([2] @ [1]) = Some (Node 1 1 [] [Some (demo_num 50)] 0 0)"
    by (simp add: demo_tree_def sub_at_def)
  from node_replace_subnode_text [OF this, of "[2]" "Node 1 1 [] [Some (demo_num 51)] 0 0"] this
  show ?thesis by (simp add: node_replace_subnode_def) (simp add: demo_defs)
qed

text \<open>
  C22: \<^verbatim>\<open>node_equal\<close> decides equality up to the size fields, which \<open>erase\<close> sets to zero, so it is an equivalence relation, equal
  trees have the same text, and \<^verbatim>\<open>node_clone\<close> and \<^verbatim>\<open>node_get_size\<close> return a tree that is equal to
  their argument.
\<close>
theorem node_equal_equivalence:
  "(node_equal a b \<longleftrightarrow> erase a = erase b) \<and> node_equal a a \<and> (node_equal a b \<longleftrightarrow> node_equal b a)
   \<and> (node_equal a b \<and> node_equal b c \<longrightarrow> node_equal a c)
   \<and> (node_equal a b \<longrightarrow> node_to_buf [] a = node_to_buf [] b)
   \<and> node_equal (node_get_size a) a \<and> (wf_node a \<longrightarrow> node_clone a = a)"
  using node_to_buf_erase [of a] node_to_buf_erase [of b]
  by (auto simp: node_equal_erase erase_node_get_size node_clone_id)

theorem node_equal_equivalence_witness:
  "node_equal demo_tree (node_get_size demo_tree) \<and> node_to_buf [] (node_get_size demo_tree) = [49, 45, 40, 50, 41]
   \<and> node_clone demo_tree = demo_tree"
proof -
  have "node_to_buf [] demo_tree = [49, 45, 40, 50, 41]" by (simp add: demo_defs)
  then show ?thesis
    using node_equal_equivalence [of demo_tree "node_get_size demo_tree" demo_tree] demo_tree_wf by metis
qed

end
