(* ===== verification/GM_Serialize.thy ===== *)
theory GM_Serialize
  imports GM_Tree
begin

text \<open>
  The binary format of trees and the tree files (second half of \<^verbatim>\<open>Grammar-Mutator/src/tree.c\<close>).  A
  node is written as four 32-bit fields (id, rule, number of subnodes, length of the value), the
  value, and then its subnodes in order.  Reading is recursive over a position in the input; the
  recursion depth is bounded by fuel, and each level consumes at least the 16 bytes of a header, so
  more fuel than bytes is always enough (\<open>deserialize_enough_fuel\<close>).

  The reader of the source trusts two fields.  A value length past the end of the input makes it
  copy bytes from outside the buffer: the result \<open>Overread\<close>.  A terminal node keeps a non-zero number
  of subnodes although \<^verbatim>\<open>node_init_subnodes\<close> gives it no array and \<^verbatim>\<open>node_set_subnode\<close> stores none of the
  subnodes that are read for it.  The type \<open>rnode\<close> has such nodes, and \<open>node_of\<close> is the node of the
  other components when there are none of them.  When a later subnode cannot be read, \<^verbatim>\<open>node_free\<close> walks
  over the array of the node built so far; it dereferences NULL if one of these nodes is in it: the
  result \<open>Null_Subnodes\<close>.  \<open>Too_Short\<close> is the NULL of the source.

  The file functions work on a file system that maps names to contents.
\<close>

section \<open>Writing\<close>

fun node_serialize :: "u8 list \<Rightarrow> node \<Rightarrow> u8 list"
  and serialize_subnodes :: "u8 list \<Rightarrow> node option list \<Rightarrow> u8 list" where
  "node_serialize buf (Node i r v ns re nt) =
     serialize_subnodes (buf @ le32 i @ le32 r @ le32 (of_nat (length ns)) @ le32 (of_nat (length v)) @ v) ns"
| "serialize_subnodes buf [] = buf"
| "serialize_subnodes buf (None # ns) = serialize_subnodes buf ns"
| "serialize_subnodes buf (Some n # ns) = serialize_subnodes (node_serialize buf n) ns"

definition tree_serialize :: "tree \<Rightarrow> tree" where
  "tree_serialize t = t\<lparr>ser_buf := (case root t of None \<Rightarrow> [] | Some n \<Rightarrow> node_serialize [] n)\<rparr>"

section \<open>Reading\<close>

datatype deser_error = Too_Short | Overread | Null_Subnodes | No_Fuel

text \<open>
  A node while it is read: id, rule, value, \<^verbatim>\<open>subnode_count\<close> and the subnodes set so far.  They are set
  from the left, so the array of a non-terminal node holds them and then NULL pointers; a terminal
  node has no array.
\<close>

datatype rnode = RNode (r_id: u32) (r_rule: u32) (r_val: "u8 list") (r_count: nat) (r_subs: "rnode list")

fun r_set_subnode :: "rnode \<Rightarrow> rnode \<Rightarrow> rnode" where
  "r_set_subnode (RNode i r v c subs) sub = (if i = 0 then RNode i r v c subs else RNode i r v c (subs @ [sub]))"

text \<open>Whether \<^verbatim>\<open>node_free\<close> finds an array wherever it finds a count.\<close>

primrec free_ok :: "rnode \<Rightarrow> bool" where
  "free_ok (RNode i r v c subs) \<longleftrightarrow> (i \<noteq> 0 \<or> c = 0) \<and> list_all id (map free_ok subs)"

function (sequential) node_deserialize :: "nat \<Rightarrow> u8 list \<Rightarrow> nat \<Rightarrow> deser_error + rnode \<times> nat"
  and deserialize_subnodes :: "nat \<Rightarrow> u8 list \<Rightarrow> rnode \<Rightarrow> nat \<Rightarrow> nat \<Rightarrow> deser_error + rnode \<times> nat" where
  "node_deserialize 0 data pos = Inl No_Fuel"
| "node_deserialize (Suc fuel) data pos =
     (if pos > length data then Inl Overread
      else if length data - pos < 16 then Inl Too_Short
      else
        let i = rd32 (drop pos data);
            r = rd32 (drop (pos + 4) data);
            subnode_count = unat (rd32 (drop (pos + 8) data));
            val_len = unat (rd32 (drop (pos + 12) data))
        in if val_len \<noteq> 0 \<and> pos + 16 + val_len > length data then Inl Overread
           else
             let node = RNode i r (take val_len (drop (pos + 16) data)) subnode_count [];
                 pos = pos + 16 + val_len
             in if subnode_count = 0 then Inr (node, pos)
                else deserialize_subnodes fuel data node subnode_count pos)"
| "deserialize_subnodes fuel data node 0 pos = Inr (node, pos)"
| "deserialize_subnodes fuel data node (Suc n) pos =
     (case node_deserialize fuel data pos of
        Inl Too_Short \<Rightarrow> Inl (if free_ok node then Too_Short else Null_Subnodes)
      | Inl e \<Rightarrow> Inl e
      | Inr (subnode, pos) \<Rightarrow> deserialize_subnodes fuel data (r_set_subnode node subnode) n pos)"
  by pat_completeness auto

termination
  by (relation "measures [case_sum fst fst, case_sum (\<lambda>_. 0) (\<lambda>(_, _, _, n, _). Suc n)]") auto

text \<open>The root of the new tree.\<close>

definition tree_deserialize :: "u8 list \<Rightarrow> deser_error + rnode" where
  "tree_deserialize data =
     (case node_deserialize (Suc (length data)) data 0 of
        Inl e \<Rightarrow> Inl e
      | Inr (n, consumed_size) \<Rightarrow>
          if consumed_size > length data then Inl (if free_ok n then Too_Short else Null_Subnodes) else Inr n)"

primrec node_of :: "rnode \<Rightarrow> node option" where
  "node_of (RNode i r v c subs) =
     (if i = 0 \<and> c \<noteq> 0 then None
      else map_option (\<lambda>ns. Node i r v (map Some ns @ replicate (c - length ns) None) 0 0) (those (map node_of subs)))"

definition tree_of :: "rnode \<Rightarrow> tree option" where
  "tree_of n = map_option (\<lambda>n. tree_create\<lparr>root := Some n\<rparr>) (node_of n)"

section \<open>Tree files\<close>

text \<open>
  \<open>can_create\<close> says whether \<^verbatim>\<open>open\<close> for writing succeeds, \<open>can_map\<close> whether \<^verbatim>\<open>open\<close> for reading, \<^verbatim>\<open>fstat\<close>
  and \<^verbatim>\<open>mmap\<close> of an existing file all do, \<open>write_ret\<close> how many of the given bytes \<^verbatim>\<open>write\<close> takes (\<open>None\<close>
  is its error).  \<^verbatim>\<open>mmap\<close> always refuses an empty file.
\<close>

record filesys =
  files :: "string \<Rightarrow> u8 list option"
  can_create :: "string \<Rightarrow> bool"
  can_map :: "string \<Rightarrow> bool"
  write_ret :: "nat \<Rightarrow> nat option"

definition map_file :: "filesys \<Rightarrow> string \<Rightarrow> u8 list option" where
  "map_file fs filename =
     (case files fs filename of
        None \<Rightarrow> None
      | Some buf \<Rightarrow> if \<not> can_map fs filename \<or> buf = [] then None else Some buf)"

definition read_tree_from_file :: "filesys \<Rightarrow> string \<Rightarrow> (deser_error + rnode) option" where
  "read_tree_from_file fs filename =
     (case map_file fs filename of None \<Rightarrow> None | Some tree_buf \<Rightarrow> Some (tree_deserialize tree_buf))"

text \<open>\<open>parse\<close> stands for \<^verbatim>\<open>tree_from_buf\<close>, the ANTLR parser that is generated from the grammar.\<close>

definition load_tree_from_test_case :: "(u8 list \<Rightarrow> tree option) \<Rightarrow> filesys \<Rightarrow> string \<Rightarrow> tree option" where
  "load_tree_from_test_case parse fs filename =
     (case map_file fs filename of None \<Rightarrow> None | Some buf \<Rightarrow> parse buf)"

definition write_file :: "filesys \<Rightarrow> string \<Rightarrow> u8 list \<Rightarrow> filesys" where
  "write_file fs filename data =
     fs\<lparr>files := (files fs)(filename \<mapsto>
          (case write_ret fs (length data) of None \<Rightarrow> [] | Some k \<Rightarrow> take k data))\<rparr>"

definition write_tree_to_file :: "filesys \<Rightarrow> tree \<Rightarrow> string \<Rightarrow> filesys \<times> tree" where
  "write_tree_to_file fs t filename =
     (let t = tree_serialize t
      in if \<not> can_create fs filename then (fs, t) else (write_file fs filename (ser_buf t), t))"

text \<open>\<open>None\<close>: the process exits.\<close>

definition dump_tree_to_test_case :: "filesys \<Rightarrow> tree \<Rightarrow> string \<Rightarrow> (filesys \<times> tree) option" where
  "dump_tree_to_test_case fs t filename =
     (let t = tree_to_buf t
      in if \<not> can_create fs filename then None else Some (write_file fs filename (data_buf t), t))"

section \<open>Lemmas\<close>

text \<open>The counts fit the 32-bit fields of the struct.\<close>

fun fits32 :: "node \<Rightarrow> bool" where
  "fits32 (Node i r v ns re nt) \<longleftrightarrow> length v < 2 ^ 32 \<and> length ns < 2 ^ 32 \<and>
     (\<forall>s\<in>set ns. case s of None \<Rightarrow> True | Some n \<Rightarrow> fits32 n)"

lemma fits32_iff [simp]:
  "fits32 (Node i r v ns re nt) \<longleftrightarrow>
     length v < 2 ^ 32 \<and> length ns < 2 ^ 32 \<and> (\<forall>m. Some m \<in> set ns \<longrightarrow> fits32 m)"
  by (auto split: option.splits)

declare fits32.simps [simp del]

lemma serialize_subnodes_acc:
  assumes "\<And>m b. Some m \<in> set ns \<Longrightarrow> node_serialize b m = b @ node_serialize [] m"
  shows "serialize_subnodes b ns = b @ concat (map (case_option [] (node_serialize [])) ns)"
  using assms
proof (induction ns arbitrary: b)
  case (Cons x ns)
  have IH: "serialize_subnodes b' ns = b' @ concat (map (case_option [] (node_serialize [])) ns)" for b'
    by (rule Cons.IH) (rule Cons.prems, simp)
  have "node_serialize b m = b @ node_serialize [] m" if "x = Some m" for m
    by (rule Cons.prems) (simp add: that)
  then show ?case by (cases x) (simp_all add: IH)
qed simp

lemma node_serialize_acc: "node_serialize b n = b @ node_serialize [] n"
proof (induction n arbitrary: b rule: node_induct)
  case (Node i r v ns re nt)
  have "serialize_subnodes b' ns = b' @ concat (map (case_option [] (node_serialize [])) ns)" for b'
    by (rule serialize_subnodes_acc) (rule Node)
  then show ?case by simp
qed

definition header :: "u32 \<Rightarrow> u32 \<Rightarrow> nat \<Rightarrow> nat \<Rightarrow> u8 list" where
  "header i r c l = le32 i @ le32 r @ le32 (of_nat c) @ le32 (of_nat l)"

lemma length_header [simp]: "length (header i r c l) = 16"
  by (simp add: header_def)

lemma node_serialize_Node [simp]:
  "node_serialize b (Node i r v ns re nt) =
     b @ header i r (length ns) (length v) @ v @ concat (map (case_option [] (node_serialize [])) ns)"
  by (simp add: serialize_subnodes_acc [OF node_serialize_acc] header_def)

declare node_serialize.simps [simp del]

lemma drop_add_append: "drop pos data = xs @ ys \<Longrightarrow> drop (pos + length xs) data = ys"
  using drop_drop [of "length xs" pos data] by (simp add: add.commute)

lemma rd32_header:
  assumes "drop pos data = header i r c l @ ys" "c < 2 ^ 32" "l < 2 ^ 32"
  shows "rd32 (drop pos data) = i" "rd32 (drop (pos + 4) data) = r"
    "unat (rd32 (drop (pos + 8) data)) = c" "unat (rd32 (drop (pos + 12) data)) = l"
    "drop (pos + 16) data = ys"
proof -
  have d: "drop (pos + k) data = drop k (header i r c l @ ys)" for k
    using assms(1) drop_drop [of k pos data] by (simp add: add.commute)
  show "drop (pos + 16) data = ys" by (simp add: d)
  have "rd32 (drop pos data) = i" "rd32 (drop (pos + 4) data) = r"
    "rd32 (drop (pos + 8) data) = of_nat c" "rd32 (drop (pos + 12) data) = of_nat l"
    by (simp_all add: assms(1) d, simp_all add: header_def)
  then show "rd32 (drop pos data) = i" "rd32 (drop (pos + 4) data) = r"
    "unat (rd32 (drop (pos + 8) data)) = c" "unat (rd32 (drop (pos + 12) data)) = l"
    using assms(2,3) by simp_all
qed

lemma erase_simps [simp]: "node_id (erase n) = node_id n"
  by (cases n) simp

subsection \<open>What a reading keeps\<close>

text \<open>
  The input describes a tree, terminal nodes with subnodes included; \<open>keep\<close> is what is left of it in
  memory.  \<open>scanned\<close> are the trees an input can describe.
\<close>

primrec keep :: "node \<Rightarrow> rnode" where
  "keep (Node i r v ns re nt) = RNode i r v (length ns) (if i = 0 then [] else map the (map (map_option keep) ns))"

definition scanned :: "node \<Rightarrow> bool" where
  "scanned n \<longleftrightarrow> full_node n \<and> fits32 n \<and> erase n = n"

text \<open>The trees the reader returns with all their arrays: well-formed, without NULL subnodes, size fields zero.\<close>

definition readable :: "node \<Rightarrow> bool" where
  "readable n \<longleftrightarrow> wf_node n \<and> full_node n \<and> fits32 n \<and> erase n = n"

lemma full_map_Some: "None \<notin> set ns \<Longrightarrow> ns = map Some (map the ns)"
  by (induction ns) auto

lemma keep_Node: "keep (Node i r v (map Some ss) re nt) = RNode i r v (length ss) (if i = 0 then [] else map keep ss)"
  by (simp add: comp_def)

declare keep.simps [simp del]

lemma erase_map_Some: "map (map_option erase) (map Some ss) = map Some ss \<longleftrightarrow> (\<forall>s\<in>set ss. erase s = s)"
  by (induction ss) auto

lemma scanned_Node:
  "scanned (Node i r v (map Some ss) re nt) \<longleftrightarrow> length v < 2 ^ 32 \<and> length ss < 2 ^ 32
     \<and> (\<forall>s\<in>set ss. scanned s) \<and> re = 0 \<and> nt = 0"
  using erase_map_Some [of ss] by (auto simp: scanned_def)

lemma readable_Node:
  "readable (Node i r v (map Some ss) re nt) \<longleftrightarrow> (i = 0 \<longrightarrow> ss = []) \<and> length v < 2 ^ 32 \<and> length ss < 2 ^ 32
     \<and> (\<forall>s\<in>set ss. readable s) \<and> re = 0 \<and> nt = 0"
  using erase_map_Some [of ss] by (auto simp: readable_def)

lemma those_map_Some: "those (map (\<lambda>x. if P x then Some (f x) else None) xs) = (if list_all P xs then Some (map f xs) else None)"
  by (induction xs) auto

lemma node_of_keep: "full_node n \<Longrightarrow> node_of (keep n) = (if wf_node n then Some (erase n) else None)"
proof (induction n rule: node_induct)
  case (Node i r v ns re nt)
  define ss where "ss = map the ns"
  have ns: "ns = map Some ss" using Node.prems full_map_Some [of ns] by (simp add: ss_def)
  have "node_of (keep s) = (if wf_node s then Some (erase s) else None)" if "s \<in> set ss" for s
    using Node.IH [of s] Node.prems that ns by simp
  then have "map (node_of \<circ> keep) ss = map (\<lambda>s. if wf_node s then Some (erase s) else None) ss" by simp
  then have "those (map node_of (map keep ss)) = (if list_all wf_node ss then Some (map erase ss) else None)"
    by (simp only: map_map those_map_Some)
  then show ?case by (auto simp: ns keep_Node list_all_iff comp_def)
qed

subsection \<open>Reading what was written\<close>

lemma deserialize_subnodes_complete:
  assumes "\<And>m pos rest. m \<in> set ss \<Longrightarrow> drop pos data = node_serialize [] m @ rest \<Longrightarrow>
      node_deserialize fuel data pos = Inr (keep m, pos + length (node_serialize [] m))"
    and "drop pos data = concat (map (node_serialize []) ss) @ rest"
  shows "deserialize_subnodes fuel data (RNode i r v c xs) (length ss) pos =
    Inr (RNode i r v c (if i = 0 then xs else xs @ map keep ss), pos + length (concat (map (node_serialize []) ss)))"
  using assms
proof (induction ss arbitrary: xs pos)
  case (Cons s ss)
  have at: "node_deserialize fuel data pos = Inr (keep s, pos + length (node_serialize [] s))"
    using Cons.prems(1) [of s pos "concat (map (node_serialize []) ss) @ rest"] Cons.prems(2) by simp
  have rest: "drop (pos + length (node_serialize [] s)) data = concat (map (node_serialize []) ss) @ rest"
    using Cons.prems(2) by (intro drop_add_append) simp
  have "deserialize_subnodes fuel data (RNode i r v c ys) (length ss) (pos + length (node_serialize [] s)) =
      Inr (RNode i r v c (if i = 0 then ys else ys @ map keep ss),
        pos + length (node_serialize [] s) + length (concat (map (node_serialize []) ss)))" for ys
    by (rule Cons.IH [OF _ rest]) (rule Cons.prems(1), simp_all)
  then show ?case using at by (cases "i = 0") (simp_all add: add.assoc)
qed simp

lemma node_deserialize_complete:
  "\<lbrakk>full_node n; fits32 n; length (node_serialize [] n) < fuel; drop pos data = node_serialize [] n @ rest\<rbrakk> \<Longrightarrow>
     node_deserialize fuel data pos = Inr (keep n, pos + length (node_serialize [] n))"
proof (induction n arbitrary: fuel pos rest rule: node_induct)
  case (Node i r v ns re nt)
  obtain f where fuel: "fuel = Suc f" using Node.prems(3) by (cases fuel) auto
  define ss where "ss = map the ns"
  have ns: "ns = map Some ss" using Node.prems(1) full_map_Some [of ns] by (simp add: ss_def)
  have ser: "concat (map (case_option [] (node_serialize [])) ns) = concat (map (node_serialize []) ss)"
    by (simp add: ns comp_def)
  have lens: "length ns = length ss" by (simp add: ns)
  have d: "drop pos data = header i r (length ns) (length v) @ v @ concat (map (node_serialize []) ss) @ rest"
    using Node.prems(4) by (simp add: ser)
  have fits: "length ns < 2 ^ 32" "length v < 2 ^ 32" using Node.prems(2) by auto
  note h = rd32_header [OF d fits]
  have "length (drop pos data) = length data - pos" by simp
  then have len: "length data - pos = 16 + length v + length (concat (map (node_serialize []) ss)) + length rest"
    by (simp add: d)
  then have pos: "\<not> pos > length data" "\<not> length data - pos < 16" "\<not> pos + 16 + length v > length data" by auto
  have v: "take (length v) (drop (pos + 16) data) = v" by (simp add: h)
  have sub: "Some m \<in> set ns" if "m \<in> set ss" for m using that ns by simp
  have small: "length (node_serialize [] m) < f" if "m \<in> set ss" for m
    using Node.prems(3) member_le_sum_list [of "length (node_serialize [] m)" "map (length \<circ> node_serialize []) ss"] that
    by (auto simp: fuel ser length_concat comp_def)
  have IH: "node_deserialize f data pos = Inr (keep m, pos + length (node_serialize [] m))"
    if "m \<in> set ss" "drop pos data = node_serialize [] m @ rest" for m pos rest
    using Node.IH [OF sub [OF that(1)] _ _ small [OF that(1)] that(2)] sub [OF that(1)] Node.prems(1,2) by simp
  have rest: "drop (pos + 16 + length v) data = concat (map (node_serialize []) ss) @ rest"
    using drop_add_append [OF h(5)] by simp
  have subs: "deserialize_subnodes f data (RNode i r v (length ss) []) (length ss) (pos + 16 + length v) =
     Inr (RNode i r v (length ss) (if i = 0 then [] else map keep ss),
       pos + 16 + length v + length (concat (map (node_serialize []) ss)))"
    using deserialize_subnodes_complete [of ss data f "pos + 16 + length v" rest i r v "length ss" "[]", OF IH rest] by simp
  have "node_serialize [] (Node i r v ns re nt) = header i r (length ss) (length v) @ v @ concat (map (node_serialize []) ss)"
    by (simp add: ser lens)
  moreover have "node_deserialize fuel data pos = Inr (RNode i r v (length ss) (if i = 0 then [] else map keep ss),
       pos + 16 + length v + length (concat (map (node_serialize []) ss)))"
    using h pos v subs lens by (cases "ss = []") (simp_all add: fuel Let_def)
  ultimately show ?case unfolding ns keep_Node by simp
qed

subsection \<open>What was read was written\<close>

lemma le32_rd32:
  assumes "4 \<le> length bs"
  shows "le32 (rd32 bs) = take 4 bs"
proof -
  obtain a b c d rest where bs: "bs = a # b # c # d # rest"
    using assms by (auto simp: numeral_eq_Suc Suc_le_length_iff)
  have "ucast (rd32 bs) = a" "ucast (drop_bit 8 (rd32 bs)) = b"
    "ucast (drop_bit 16 (rd32 bs)) = c" "ucast (drop_bit 24 (rd32 bs)) = d"
    by (rule bit_word_eqI, auto simp: bs rd32_def bit_or_iff bit_push_bit_iff bit_ucast_iff bit_drop_bit_eq
          dest: bit_imp_le_length)+
  then show ?thesis by (simp add: le32_def bs)
qed

lemma header_rd32:
  assumes "16 \<le> length data - pos"
  shows "drop pos data = header (rd32 (drop pos data)) (rd32 (drop (pos + 4) data))
      (unat (rd32 (drop (pos + 8) data))) (unat (rd32 (drop (pos + 12) data))) @ drop (pos + 16) data"
proof -
  have t: "take 4 (drop (pos + k) data) = le32 (rd32 (drop (pos + k) data))" if "k \<le> 12" for k
    using assms that by (intro le32_rd32 [symmetric]) simp
  have "drop (pos + k) data = take 4 (drop (pos + k) data) @ drop (pos + (k + 4)) data" for k
    by (metis add.assoc add.commute append_take_drop_id drop_drop)
  from this [of 0] this [of 4] this [of 8] this [of 12] show ?thesis
    using t [of 0] t [of 4] t [of 8] t [of 12] by (simp add: header_def)
qed

lemma deserialize_subnodes_sound:
  assumes "\<And>pos m pos'. node_deserialize fuel data pos = Inr (m, pos') \<Longrightarrow>
      \<exists>n. scanned n \<and> m = keep n \<and> pos' = pos + length (node_serialize [] n) \<and> pos' \<le> length data
        \<and> drop pos data = node_serialize [] n @ drop pos' data"
    and "deserialize_subnodes fuel data (RNode i r v c xs) n pos = Inr (m, pos')" "pos \<le> length data"
  shows "\<exists>ss. length ss = n \<and> m = RNode i r v c (if i = 0 then xs else xs @ map keep ss) \<and> (\<forall>s\<in>set ss. scanned s)
    \<and> pos' = pos + length (concat (map (node_serialize []) ss)) \<and> pos' \<le> length data
    \<and> drop pos data = concat (map (node_serialize []) ss) @ drop pos' data"
  using assms(2-)
proof (induction n arbitrary: xs pos)
  case (Suc n)
  obtain s0 p where s0: "node_deserialize fuel data pos = Inr (s0, p)"
    using Suc.prems(1) by (auto split: sum.splits deser_error.splits)
  obtain s where s: "scanned s" "s0 = keep s" "p = pos + length (node_serialize [] s)" "p \<le> length data"
    "drop pos data = node_serialize [] s @ drop p data" using assms(1) [OF s0] by blast
  have "deserialize_subnodes fuel data (RNode i r v c (if i = 0 then xs else xs @ [keep s])) n p = Inr (m, pos')"
    using Suc.prems s0 s(2) by (simp split: if_splits)
  from Suc.IH [OF this s(4)] obtain ss where "length ss = n"
    "m = RNode i r v c (if i = 0 then xs else (xs @ [keep s]) @ map keep ss)" "\<forall>s\<in>set ss. scanned s"
    "pos' = p + length (concat (map (node_serialize []) ss))" "pos' \<le> length data"
    "drop p data = concat (map (node_serialize []) ss) @ drop pos' data" by (auto split: if_splits)
  then show ?case using s by (intro exI [of _ "s # ss"]) simp
qed auto

lemma node_deserialize_sound:
  "node_deserialize fuel data pos = Inr (m, pos') \<Longrightarrow>
     \<exists>n. scanned n \<and> m = keep n \<and> pos' = pos + length (node_serialize [] n) \<and> pos' \<le> length data
       \<and> drop pos data = node_serialize [] n @ drop pos' data"
proof (induction fuel arbitrary: pos m pos')
  case (Suc fuel)
  define i r c l where "i = rd32 (drop pos data)" and "r = rd32 (drop (pos + 4) data)"
    and "c = unat (rd32 (drop (pos + 8) data))" and "l = unat (rd32 (drop (pos + 12) data))"
  define v where "v = take l (drop (pos + 16) data)"
  note fields = i_def [symmetric] r_def [symmetric] c_def [symmetric] l_def [symmetric] v_def [symmetric]
  have len: "16 \<le> length data - pos" "pos + 16 + l \<le> length data"
    using Suc.prems by (auto simp: Let_def fields split: if_splits)
  have small: "c < 2 ^ 32" "l < 2 ^ 32"
    using unsigned_less [of "rd32 (drop (pos + 8) data)"] unsigned_less [of "rd32 (drop (pos + 12) data)"]
    by (simp_all add: c_def l_def)
  have lv: "length v = l" using len by (simp add: v_def)
  have d: "drop pos data = header i r c l @ drop (pos + 16) data"
    using header_rd32 [OF len(1)] by (simp only: fields)
  have d2: "drop (pos + 16) data = v @ drop (pos + 16 + l) data"
    unfolding v_def by (metis add.commute append_take_drop_id drop_drop)
  have sub: "deserialize_subnodes fuel data (RNode i r v c []) c (pos + 16 + l) = Inr (m, pos')"
    using Suc.prems len by (cases "c = 0") (auto simp: Let_def fields split: if_splits)
  from deserialize_subnodes_sound [OF Suc.IH sub len(2)] obtain ss where ss: "length ss = c"
    "m = RNode i r v c (if i = 0 then [] else [] @ map keep ss)" "\<forall>s\<in>set ss. scanned s"
    "pos' = pos + 16 + l + length (concat (map (node_serialize []) ss))" "pos' \<le> length data"
    "drop (pos + 16 + l) data = concat (map (node_serialize []) ss) @ drop pos' data" by blast
  then have "scanned (Node i r v (map Some ss) 0 0)" "m = keep (Node i r v (map Some ss) 0 0)"
    unfolding scanned_Node keep_Node using small lv by simp_all
  then show ?case using ss d d2 lv by (intro exI [of _ "Node i r v (map Some ss) 0 0"]) (simp add: comp_def)
qed simp

subsection \<open>Fuel\<close>

lemma deserialize_subnodes_fuel:
  assumes "\<And>p. pos \<le> p \<Longrightarrow> node_deserialize fuel data p \<noteq> Inl No_Fuel"
  shows "deserialize_subnodes fuel data node n pos \<noteq> Inl No_Fuel"
  using assms
proof (induction n arbitrary: node pos)
  case (Suc n)
  show ?case
  proof (cases "node_deserialize fuel data pos")
    case (Inl e)
    then show ?thesis using Suc.prems [of pos] by (cases e) auto
  next
    case (Inr sp)
    then obtain s p where s: "node_deserialize fuel data pos = Inr (s, p)" by (cases sp) simp
    then have "pos \<le> p" using node_deserialize_sound [OF s] by auto
    then show ?thesis using s Suc.IH [of p] Suc.prems by simp
  qed
qed simp

lemma deserialize_enough_fuel:
  "length data - pos < fuel \<Longrightarrow> node_deserialize fuel data pos \<noteq> Inl No_Fuel"
proof (induction fuel arbitrary: pos)
  case (Suc fuel)
  have "deserialize_subnodes fuel data node n p \<noteq> Inl No_Fuel" if "16 \<le> length data - pos" "pos + 16 \<le> p" for node n p
    by (rule deserialize_subnodes_fuel, rule Suc.IH) (use Suc.prems that in auto)
  then show ?case by (simp add: Let_def)
qed simp

section \<open>Properties\<close>

lemma tree_deserialize_iff:
  "tree_deserialize data = Inr r \<longleftrightarrow> (\<exists>n rest. scanned n \<and> data = node_serialize [] n @ rest \<and> r = keep n)"
proof
  assume "tree_deserialize data = Inr r"
  then obtain p where n: "node_deserialize (Suc (length data)) data 0 = Inr (r, p)"
    by (auto simp: tree_deserialize_def split: sum.splits if_splits)
  then show "\<exists>n rest. scanned n \<and> data = node_serialize [] n @ rest \<and> r = keep n"
    using node_deserialize_sound [OF n(1)] by auto
next
  assume "\<exists>n rest. scanned n \<and> data = node_serialize [] n @ rest \<and> r = keep n"
  then obtain n rest where n: "scanned n" "data = node_serialize [] n @ rest" "r = keep n" by blast
  then have "node_deserialize (Suc (length data)) data 0 = Inr (keep n, length (node_serialize [] n))"
    using node_deserialize_complete [of n "Suc (length data)" 0 data rest] by (simp add: scanned_def)
  then show "tree_deserialize data = Inr r" using n by (simp add: tree_deserialize_def)
qed

lemma readable_erase: "wf_node n \<Longrightarrow> full_node n \<Longrightarrow> fits32 n \<Longrightarrow> readable (erase n)"
proof (induction n rule: node_induct)
  case (Node i r v ns re nt)
  define ss where "ss = map the ns"
  have ns: "ns = map Some ss" using Node.prems(2) full_map_Some [of ns] by (simp add: ss_def)
  have "readable (erase s)" if "s \<in> set ss" for s
    using Node.IH [of s] Node.prems that ns by simp
  then have "readable (Node i r v (map Some (map erase ss)) 0 0)"
    using Node.prems unfolding readable_Node by (simp add: ns)
  then show ?case by (simp add: ns comp_def)
qed

lemma tree_serialize_roundtrip:
  assumes "root t = Some n" "full_node n" "fits32 n"
  shows "tree_deserialize (ser_buf (tree_serialize t) @ rest) = Inr (keep n)"
  using assms node_deserialize_complete [of n "Suc (length (node_serialize [] n @ rest))" 0 "node_serialize [] n @ rest" rest]
  by (simp add: tree_deserialize_def tree_serialize_def)

lemma tree_serialize_nonempty: "root t = Some n \<Longrightarrow> ser_buf (tree_serialize t) \<noteq> []"
  by (cases n) (auto simp: tree_serialize_def header_def le32_def)

lemma tree_of_keep: "scanned n \<Longrightarrow> tree_of (keep n) = Some t \<longleftrightarrow> wf_node n \<and> t = tree_create\<lparr>root := Some n\<rparr>"
  using node_of_keep [of n] by (auto simp: scanned_def tree_of_def)

text \<open>
  C2: what the reader accepts.  \<^verbatim>\<open>tree_deserialize\<close> always ends.  It returns a tree exactly when the
  input starts with the serialisation of a tree without NULL subnodes, whatever bytes follow, and what
  it returns is that tree with the subnodes of terminal nodes lost while their count stays.  So it
  returns a tree whose arrays match their counts exactly when the input starts with the serialisation
  of a well-formed tree without NULL subnodes, and then it returns this tree (with its size fields
  still zero).
\<close>
theorem deserialize_inverts_serialize:
  "tree_deserialize data \<noteq> Inl No_Fuel
   \<and> (tree_deserialize data = Inr r \<longleftrightarrow>
        (\<exists>n rest. full_node n \<and> fits32 n \<and> erase n = n \<and> data = node_serialize [] n @ rest \<and> r = keep n))
   \<and> ((\<exists>r. tree_deserialize data = Inr r \<and> tree_of r = Some t) \<longleftrightarrow>
        (\<exists>n rest. t = tree_create\<lparr>root := Some n\<rparr> \<and> wf_node n \<and> full_node n \<and> fits32 n \<and> erase n = n
           \<and> data = node_serialize [] n @ rest))"
proof -
  have "tree_deserialize data \<noteq> Inl No_Fuel"
    using deserialize_enough_fuel [of data 0 "Suc (length data)"]
    by (auto simp: tree_deserialize_def simp del: node_deserialize.simps split: sum.splits if_splits)
  moreover have "(\<exists>r. tree_deserialize data = Inr r \<and> tree_of r = Some t) \<longleftrightarrow>
      (\<exists>n rest. t = tree_create\<lparr>root := Some n\<rparr> \<and> wf_node n \<and> scanned n \<and> data = node_serialize [] n @ rest)"
    unfolding tree_deserialize_iff using tree_of_keep by metis
  ultimately show ?thesis by (simp only: tree_deserialize_iff scanned_def conj_assoc) simp
qed

text \<open>
  C23: tree files.  A well-formed tree written by \<^verbatim>\<open>write_tree_to_file\<close>, with a \<^verbatim>\<open>write\<close> that takes all
  bytes, is read back by \<^verbatim>\<open>read_tree_from_file\<close>, if the file can be opened and mapped, as a tree that \<^verbatim>\<open>tree_equal\<close> accepts, and no other
  file changes.
\<close>
theorem tree_file_roundtrip:
  assumes "root t = Some n" "wf_node n" "full_node n" "fits32 n"
    and "can_create fs filename" "can_map fs filename" "\<And>k. write_ret fs k = Some k"
    and "write_tree_to_file fs t filename = (fs', t')"
  shows "\<exists>r u. read_tree_from_file fs' filename = Some (Inr r) \<and> tree_of r = Some u \<and> tree_equal (Some t) (Some u)
    \<and> (\<forall>f. f \<noteq> filename \<longrightarrow> files fs' f = files fs f)"
proof -
  have fs': "fs' = write_file fs filename (ser_buf (tree_serialize t))"
    using assms(5,8) by (auto simp: write_tree_to_file_def Let_def)
  then have "read_tree_from_file fs' filename = Some (Inr (keep n))"
    using tree_serialize_roundtrip [OF assms(1,3,4), of "[]"] tree_serialize_nonempty [OF assms(1)] assms(6,7)
    by (simp add: read_tree_from_file_def map_file_def write_file_def)
  moreover have "tree_of (keep n) = Some (tree_create\<lparr>root := Some (erase n)\<rparr>)"
    using node_of_keep [OF assms(3)] assms(2) by (simp add: tree_of_def)
  moreover have "node_equal n (erase n)"
    using readable_erase [OF assms(2-4)] by (simp add: node_equal_erase readable_def)
  ultimately show ?thesis using assms(1) fs' by (auto simp: tree_equal_def write_file_def)
qed

definition demo_fs :: filesys where
  "demo_fs = \<lparr>files = \<lambda>_. None, can_create = \<lambda>_. True, can_map = \<lambda>_. True, write_ret = Some\<rparr>"

lemma demo_tree_full: "full_node demo_tree" "fits32 demo_tree"
  by (auto simp: demo_defs)

theorem tree_file_roundtrip_witness:
  "\<exists>r u. read_tree_from_file (fst (write_tree_to_file demo_fs (tree_create\<lparr>root := Some demo_tree\<rparr>) ''t'')) ''t'' = Some (Inr r)
     \<and> tree_of r = Some u \<and> tree_equal (Some (tree_create\<lparr>root := Some demo_tree\<rparr>)) (Some u)"
  using tree_file_roundtrip [of "tree_create\<lparr>root := Some demo_tree\<rparr>" demo_tree demo_fs "''t''"
      "fst (write_tree_to_file demo_fs (tree_create\<lparr>root := Some demo_tree\<rparr>) ''t'')"
      "snd (write_tree_to_file demo_fs (tree_create\<lparr>root := Some demo_tree\<rparr>) ''t'')"]
  by (auto simp: demo_fs_def demo_tree_wf demo_tree_full)

text \<open>
  The reader does not compare the announced length of a value with what is left of the input: every
  input whose first header announces more bytes than follow makes it copy from outside the buffer.
\<close>
theorem deserialize_overread:
  assumes "length bs < l" "l < 2 ^ 32" "c < 2 ^ 32"
  shows "tree_deserialize (header i r c l @ bs) = Inl Overread"
proof -
  have at: "node_deserialize (Suc k) (header i r c l @ bs) 0 = Inl Overread" for k
    using assms rd32_header [of 0 "header i r c l @ bs" i r c l bs] by (simp add: Let_def)
  show ?thesis unfolding tree_deserialize_def at by simp
qed

end
