(* ===== verification/RXI_Map.thy ===== *)
theory RXI_Map
  imports Fuzz_Prelude "HOL-Library.Multiset"
begin

text \<open>
  The string-keyed hash table of the mutator (\<^verbatim>\<open>Grammar-Mutator/third_party/rxi_map/map.c\<close>).  A key is
  a C string, the list of its bytes without the terminating zero; a bucket is the list of the nodes
  of its chain.  The table is doubled when it has as many nodes as buckets, so its size is a power of
  two (or 0 before the first insertion), which is what the mask in \<^verbatim>\<open>map_bucketidx\<close> relies on.
  Whether \<^verbatim>\<open>malloc\<close> and \<^verbatim>\<open>realloc\<close> succeed is an argument of the operations that call them.  The
  sizes are natural numbers: with 32-bit sizes the doubling is exact below \<open>2 ^ 31\<close> buckets, the
  bound of the invariant.
\<close>

section \<open>The table\<close>

type_synonym key = "u8 list"

record 'v map_node =
  mn_hash :: u32
  mn_key :: key
  mn_value :: 'v

record 'v map_base =
  buckets :: "'v map_node list list"
  nnodes :: nat

abbreviation nbuckets :: "'v map_base \<Rightarrow> nat" where
  "nbuckets m \<equiv> length (buckets m)"

definition map_init :: "'v map_base" where
  "map_init = \<lparr>buckets = [], nnodes = 0\<rparr>"

text \<open>\<^verbatim>\<open>char\<close> is signed: the byte is sign extended before the exclusive or.\<close>

fun map_hash_loop :: "u32 \<Rightarrow> key \<Rightarrow> u32" where
  "map_hash_loop hash [] = hash"
| "map_hash_loop hash (c # str) = map_hash_loop ((push_bit 5 hash + hash) XOR signed c) str"

definition map_hash :: "key \<Rightarrow> u32" where
  "map_hash str = map_hash_loop 5381 str"

definition map_newnode :: "key \<Rightarrow> 'v \<Rightarrow> 'v map_node" where
  "map_newnode key value = \<lparr>mn_hash = map_hash key, mn_key = key, mn_value = value\<rparr>"

definition map_bucketidx :: "nat \<Rightarrow> u32 \<Rightarrow> nat" where
  "map_bucketidx nb hash = unat (hash AND (of_nat nb - 1))"

definition map_addnode :: "'v map_base \<Rightarrow> 'v map_node \<Rightarrow> 'v map_base" where
  "map_addnode m node =
     (let n = map_bucketidx (nbuckets m) (mn_hash node)
      in m\<lparr>buckets := (buckets m)[n := node # buckets m ! n]\<rparr>)"

text \<open>Chaining all nodes: the buckets from the last to the first, each node put in front.\<close>

fun chain_bucket :: "'v map_node list \<Rightarrow> 'v map_node list \<Rightarrow> 'v map_node list" where
  "chain_bucket nodes [] = nodes"
| "chain_bucket nodes (node # b) = chain_bucket (node # nodes) b"

fun chain_all :: "'v map_node list \<Rightarrow> 'v map_node list list \<Rightarrow> 'v map_node list" where
  "chain_all nodes [] = nodes"
| "chain_all nodes (b # bs) = chain_all (chain_bucket nodes b) bs"

fun add_all :: "'v map_base \<Rightarrow> 'v map_node list \<Rightarrow> 'v map_base" where
  "add_all m [] = m"
| "add_all m (node # nodes) = add_all (map_addnode m node) nodes"

definition map_resize :: "bool \<Rightarrow> 'v map_base \<Rightarrow> nat \<Rightarrow> int \<times> 'v map_base" where
  "map_resize realloc_ok m nb =
     (let nodes = chain_all [] (rev (buckets m));
          new = (if realloc_ok then nb else nbuckets m);
          m' = m\<lparr>buckets := replicate new []\<rparr>;
          m' = add_all m' nodes
      in (if realloc_ok then 0 else -1, m'))"

text \<open>A reference to a node is its bucket and its position in the chain.\<close>

fun find_node :: "u32 \<Rightarrow> key \<Rightarrow> nat \<Rightarrow> 'v map_node list \<Rightarrow> nat option" where
  "find_node hash key k [] = None"
| "find_node hash key k (n # b) =
     (if mn_hash n = hash \<and> mn_key n = key then Some k else find_node hash key (Suc k) b)"

definition map_getref :: "'v map_base \<Rightarrow> key \<Rightarrow> (nat \<times> nat) option" where
  "map_getref m key =
     (let hash = map_hash key
      in if nbuckets m > 0 then
           (let b = map_bucketidx (nbuckets m) hash
            in map_option (Pair b) (find_node hash key 0 (buckets m ! b)))
         else None)"

definition map_get :: "'v map_base \<Rightarrow> key \<Rightarrow> 'v option" where
  "map_get m key =
     (case map_getref m key of None \<Rightarrow> None | Some (b, k) \<Rightarrow> Some (mn_value (buckets m ! b ! k)))"

definition map_set :: "bool \<Rightarrow> bool \<Rightarrow> 'v map_base \<Rightarrow> key \<Rightarrow> 'v \<Rightarrow> int \<times> 'v map_base" where
  "map_set malloc_ok realloc_ok m key value =
     (case map_getref m key of
        Some (b, k) \<Rightarrow>
          (0, m\<lparr>buckets := (buckets m)[b := (buckets m ! b)[k := (buckets m ! b ! k)\<lparr>mn_value := value\<rparr>]]\<rparr>)
      | None \<Rightarrow>
          if \<not> malloc_ok then (-1, m)
          else
            let node = map_newnode key value;
                (err, m) =
                  (if nnodes m \<ge> nbuckets m
                   then map_resize realloc_ok m (if nbuckets m > 0 then nbuckets m * 2 else 1)
                   else (0, m))
            in if err \<noteq> 0 then (-1, m)
               else let m = map_addnode m node in (0, m\<lparr>nnodes := nnodes m + 1\<rparr>))"

definition map_remove :: "'v map_base \<Rightarrow> key \<Rightarrow> 'v map_base" where
  "map_remove m key =
     (case map_getref m key of
        None \<Rightarrow> m
      | Some (b, k) \<Rightarrow>
          m\<lparr>buckets := (buckets m)[b := take k (buckets m ! b) @ drop (Suc k) (buckets m ! b)],
            nnodes := nnodes m - 1\<rparr>)"

definition map_deinit :: "'v map_base \<Rightarrow> 'v map_base" where
  "map_deinit m = \<lparr>buckets = [], nnodes = 0\<rparr>"

subsection \<open>Iteration\<close>

text \<open>
  \<open>it_bucket\<close> starts at -1 (the largest unsigned value, which the first increment wraps to 0);
  \<open>it_node\<close> is the chain from the current node on, empty for NULL.
\<close>

record 'v map_iter =
  it_bucket :: int
  it_node :: "'v map_node list"

definition map_iter0 :: "'v map_iter" where
  "map_iter0 = \<lparr>it_bucket = -1, it_node = []\<rparr>"

function next_bucket :: "'v map_base \<Rightarrow> int \<Rightarrow> (key \<times> 'v map_iter) option" where
  "next_bucket m i =
     (let i = i + 1
      in if i \<ge> int (nbuckets m) then None
         else (case buckets m ! nat i of
                 [] \<Rightarrow> next_bucket m i
               | n # b \<Rightarrow> Some (mn_key n, \<lparr>it_bucket = i, it_node = n # b\<rparr>)))"
  by pat_completeness auto
termination
  by (relation "measure (\<lambda>(m, i). nat (int (nbuckets m) - i))") auto

definition map_next :: "'v map_base \<Rightarrow> 'v map_iter \<Rightarrow> (key \<times> 'v map_iter) option" where
  "map_next m iter =
     (case it_node iter of
        [] \<Rightarrow> next_bucket m (it_bucket iter)
      | [_] \<Rightarrow> next_bucket m (it_bucket iter)
      | _ # n # b \<Rightarrow> Some (mn_key n, iter\<lparr>it_node := n # b\<rparr>))"

text \<open>The client loop: the keys \<^verbatim>\<open>map_next\<close> returns until it returns NULL, with fuel for the loop.\<close>

fun map_keys_from :: "nat \<Rightarrow> 'v map_base \<Rightarrow> 'v map_iter \<Rightarrow> key list option" where
  "map_keys_from 0 m iter = None"
| "map_keys_from (Suc fuel) m iter =
     (case map_next m iter of
        None \<Rightarrow> Some []
      | Some (key, iter) \<Rightarrow> map_option ((#) key) (map_keys_from fuel m iter))"

definition map_keys :: "'v map_base \<Rightarrow> key list option" where
  "map_keys m = map_keys_from (Suc (nnodes m)) m map_iter0"

section \<open>Invariant and abstraction\<close>

definition map_entries :: "'v map_base \<Rightarrow> 'v map_node list" where
  "map_entries m = concat (buckets m)"

definition node_ok :: "nat \<Rightarrow> nat \<Rightarrow> 'v map_node \<Rightarrow> bool" where
  "node_ok nb b n \<longleftrightarrow> mn_hash n = map_hash (mn_key n) \<and> map_bucketidx nb (mn_hash n) = b"

definition map_ok :: "'v map_base \<Rightarrow> bool" where
  "map_ok m \<longleftrightarrow> (nbuckets m = 0 \<or> (\<exists>e\<le>31. nbuckets m = 2 ^ e)) \<and> nnodes m = length (map_entries m)
     \<and> distinct (map mn_key (map_entries m))
     \<and> (\<forall>b < nbuckets m. \<forall>n \<in> set (buckets m ! b). node_ok (nbuckets m) b n)"

definition map_abs :: "'v map_base \<Rightarrow> key \<Rightarrow> 'v option" where
  "map_abs m = map_of (map (\<lambda>n. (mn_key n, mn_value n)) (map_entries m))"

section \<open>Lemmas\<close>

lemma map_bucketidx_less:
  assumes "e \<le> 31"
  shows "map_bucketidx (2 ^ e) h < 2 ^ e"
proof -
  have "(of_nat (2 ^ e) - 1 :: u32) = mask e" by (simp add: mask_eq_exp_minus_1)
  then have "unat (h AND (of_nat (2 ^ e) - 1)) = take_bit e (unat h)"
    by (simp add: take_bit_eq_mask [symmetric] unsigned_take_bit_eq)
  then show ?thesis by (simp add: map_bucketidx_def)
qed

definition pow2_size :: "nat \<Rightarrow> bool" where
  "pow2_size nb \<longleftrightarrow> (\<exists>e\<le>31. nb = 2 ^ e)"

definition buckets_ok :: "'v map_base \<Rightarrow> bool" where
  "buckets_ok m \<longleftrightarrow> (\<forall>b < nbuckets m. \<forall>n \<in> set (buckets m ! b). node_ok (nbuckets m) b n)"

lemma pow2_size_pos: "pow2_size nb \<Longrightarrow> 0 < nb"
  by (auto simp: pow2_size_def)

lemma map_bucketidx_in: "pow2_size nb \<Longrightarrow> map_bucketidx nb h < nb"
  by (auto simp: pow2_size_def map_bucketidx_less)

lemma map_ok_alt:
  "map_ok m \<longleftrightarrow> (nbuckets m = 0 \<or> pow2_size (nbuckets m)) \<and> nnodes m = length (map_entries m)
     \<and> distinct (map mn_key (map_entries m)) \<and> buckets_ok m"
  by (auto simp: map_ok_def pow2_size_def buckets_ok_def)

lemma concat_update:
  assumes "b < length bs"
  shows "concat (bs[b := ys]) = concat (take b bs) @ ys @ concat (drop (Suc b) bs)"
    "concat bs = concat (take b bs) @ bs ! b @ concat (drop (Suc b) bs)"
proof -
  show "concat (bs[b := ys]) = concat (take b bs) @ ys @ concat (drop (Suc b) bs)"
    using assms by (simp add: upd_conv_take_nth_drop)
  from assms have "bs = take b bs @ bs ! b # drop (Suc b) bs" by (rule id_take_nth_drop)
  then have "concat bs = concat (take b bs @ bs ! b # drop (Suc b) bs)" by (rule arg_cong)
  then show "concat bs = concat (take b bs) @ bs ! b @ concat (drop (Suc b) bs)" by simp
qed

lemma map_abs_iff:
  assumes "distinct (map mn_key (map_entries m))"
  shows "map_abs m k = Some v \<longleftrightarrow> (\<exists>n\<in>set (map_entries m). mn_key n = k \<and> mn_value n = v)"
proof -
  let ?l = "map (\<lambda>n. (mn_key n, mn_value n)) (map_entries m)"
  have "distinct (map fst ?l)" using assms by (simp add: comp_def)
  then have "map_of ?l k = Some v \<longleftrightarrow> (k, v) \<in> set ?l" by (rule map_of_eq_Some_iff)
  then show ?thesis by (auto simp: map_abs_def image_iff)
qed

lemma map_abs_None: "map_abs m k = None \<longleftrightarrow> k \<notin> mn_key ` set (map_entries m)"
  by (force simp: map_abs_def map_of_eq_None_iff)

subsection \<open>Lookup\<close>

lemma find_node_Some:
  "find_node h key k b = Some j \<Longrightarrow> k \<le> j \<and> j - k < length b \<and> mn_key (b ! (j - k)) = key"
proof (induction b arbitrary: k)
  case (Cons n b)
  show ?case
  proof (cases "mn_hash n = h \<and> mn_key n = key")
    case False
    then have "find_node h key (Suc k) b = Some j" using Cons.prems by (simp only: find_node.simps if_False)
    then have "Suc k \<le> j \<and> j - Suc k < length b \<and> mn_key (b ! (j - Suc k)) = key"
      by (rule Cons.IH)
    then show ?thesis by (auto simp: nth_Cons' Suc_diff_Suc)
  qed (use Cons in auto)
qed simp

lemma find_node_None:
  "find_node h key k b = None \<longleftrightarrow> (\<forall>n\<in>set b. \<not> (mn_hash n = h \<and> mn_key n = key))"
  by (induction b arbitrary: k) auto

lemma map_getref_Some:
  assumes "map_ok m" "map_getref m key = Some (b, k)"
  shows "b < nbuckets m" "k < length (buckets m ! b)" "mn_key (buckets m ! b ! k) = key"
    "pow2_size (nbuckets m)"
proof -
  have nb: "pow2_size (nbuckets m)" and b: "b = map_bucketidx (nbuckets m) (map_hash key)"
    and f: "find_node (map_hash key) key 0 (buckets m ! b) = Some k"
    using assms by (auto simp: map_ok_alt map_getref_def Let_def split: if_splits)
  show "pow2_size (nbuckets m)" by (rule nb)
  show "b < nbuckets m" using map_bucketidx_in [OF nb] b by simp
  show "k < length (buckets m ! b)" "mn_key (buckets m ! b ! k) = key" using find_node_Some [OF f] by auto
qed

lemma in_entries: "n \<in> set (map_entries m) \<longleftrightarrow> (\<exists>b<nbuckets m. n \<in> set (buckets m ! b))"
  unfolding map_entries_def set_concat set_conv_nth [of "buckets m"] by auto

lemma map_getref_None:
  assumes "map_ok m" "map_getref m key = None" "n \<in> set (map_entries m)"
  shows "mn_key n \<noteq> key"
proof
  assume key: "mn_key n = key"
  obtain b where b: "b < nbuckets m" "n \<in> set (buckets m ! b)" using assms(3) in_entries by blast
  then have "node_ok (nbuckets m) b n" using assms(1) by (auto simp: map_ok_alt buckets_ok_def)
  then show False using assms(2) b key
    by (auto simp: map_getref_def Let_def node_ok_def find_node_None split: if_splits)
qed

lemma map_get_abs: "map_ok m \<Longrightarrow> map_get m key = map_abs m key"
proof (cases "map_getref m key")
  case None
  assume "map_ok m"
  then have "map_abs m key = None" using map_getref_None [OF _ None] by (auto simp: map_abs_None)
  then show ?thesis using None by (simp add: map_get_def)
next
  case (Some bk)
  assume ok: "map_ok m"
  obtain b k where bk: "map_getref m key = Some (b, k)" using Some by (cases bk) simp
  note r = map_getref_Some [OF ok bk]
  have "buckets m ! b ! k \<in> set (map_entries m)" using r in_entries by (metis nth_mem)
  then have "map_abs m key = Some (mn_value (buckets m ! b ! k))"
    using ok r(3) map_abs_iff [of m key] by (auto simp: map_ok_alt)
  then show ?thesis using bk by (simp add: map_get_def)
qed

subsection \<open>Insertion\<close>

lemma map_addnode_ok:
  assumes "pow2_size (nbuckets m)" "buckets_ok m" "mn_hash n = map_hash (mn_key n)"
  shows "nbuckets (map_addnode m n) = nbuckets m" "buckets_ok (map_addnode m n)"
    "mset (map_entries (map_addnode m n)) = add_mset n (mset (map_entries m))"
    "nnodes (map_addnode m n) = nnodes m"
proof -
  let ?b = "map_bucketidx (nbuckets m) (mn_hash n)"
  have b: "?b < nbuckets m" by (rule map_bucketidx_in [OF assms(1)])
  show "nbuckets (map_addnode m n) = nbuckets m" "nnodes (map_addnode m n) = nnodes m"
    by (simp_all add: map_addnode_def Let_def)
  have "node_ok (nbuckets m) k x" if "k < nbuckets m" "x \<in> set ((buckets m)[?b := n # buckets m ! ?b] ! k)" for k x
  proof (cases "k = ?b \<and> x = n")
    case True
    then show ?thesis using assms(3) by (simp add: node_ok_def)
  next
    case False
    then have "x \<in> set (buckets m ! k)" using that by (cases "k = ?b") auto
    then show ?thesis using assms(2) that(1) by (simp add: buckets_ok_def)
  qed
  then show "buckets_ok (map_addnode m n)" by (simp add: map_addnode_def Let_def buckets_ok_def)
  have "map_entries (map_addnode m n) = concat ((buckets m)[?b := n # buckets m ! ?b])"
    by (simp add: map_addnode_def Let_def map_entries_def)
  also have "\<dots> = concat (take ?b (buckets m)) @ (n # buckets m ! ?b) @ concat (drop (Suc ?b) (buckets m))"
    by (rule concat_update(1) [OF b])
  also have "mset \<dots> = add_mset n (mset (concat (take ?b (buckets m)) @ buckets m ! ?b @ concat (drop (Suc ?b) (buckets m))))"
    by simp
  also have "\<dots> = add_mset n (mset (map_entries m))"
    by (simp only: concat_update(2) [OF b, symmetric] map_entries_def)
  finally show "mset (map_entries (map_addnode m n)) = add_mset n (mset (map_entries m))" .
qed

lemma add_all_ok:
  assumes "pow2_size (nbuckets m)" "buckets_ok m" "\<forall>n\<in>set ns. mn_hash n = map_hash (mn_key n)"
  shows "nbuckets (add_all m ns) = nbuckets m \<and> buckets_ok (add_all m ns)
    \<and> mset (map_entries (add_all m ns)) = mset (map_entries m) + mset ns
    \<and> nnodes (add_all m ns) = nnodes m"
  using assms
proof (induction ns arbitrary: m)
  case (Cons n ns)
  then show ?case using map_addnode_ok [of m n] by simp
qed simp

lemma mset_chain_bucket: "mset (chain_bucket ns b) = mset ns + mset b"
  by (induction b arbitrary: ns) auto

lemma mset_chain_all: "mset (chain_all ns bs) = mset ns + mset (concat bs)"
  by (induction bs arbitrary: ns) (auto simp: mset_chain_bucket)

lemma mset_concat_rev: "mset (concat (rev bs)) = mset (concat bs)"
  by (induction bs) auto

lemma map_resize_ok:
  assumes "map_ok m" "pow2_size nb"
  shows "map_ok (snd (map_resize ok m nb))"
    "mset (map_entries (snd (map_resize ok m nb))) = mset (map_entries m)"
    "nnodes (snd (map_resize ok m nb)) = nnodes m"
    "ok \<Longrightarrow> nbuckets (snd (map_resize ok m nb)) = nb"
proof -
  let ?ns = "chain_all [] (rev (buckets m))"
  let ?new = "if ok then nb else nbuckets m"
  let ?m0 = "m\<lparr>buckets := replicate ?new []\<rparr>"
  have res: "snd (map_resize ok m nb) = add_all ?m0 ?ns" by (simp add: map_resize_def Let_def)
  have mset: "mset ?ns = mset (map_entries m)" by (simp add: mset_chain_all mset_concat_rev map_entries_def)
  then have set: "set ?ns = set (map_entries m)" by (rule mset_eq_setD)
  have empty: "map_entries ?m0 = []" "buckets_ok ?m0" by (auto simp: map_entries_def buckets_ok_def)
  have hash: "\<forall>n\<in>set ?ns. mn_hash n = map_hash (mn_key n)"
    unfolding set using assms(1) by (auto simp: in_entries map_ok_alt buckets_ok_def node_ok_def)
  have all: "nbuckets (add_all ?m0 ?ns) = ?new \<and> buckets_ok (add_all ?m0 ?ns)
      \<and> mset (map_entries (add_all ?m0 ?ns)) = mset (map_entries m) \<and> nnodes (add_all ?m0 ?ns) = nnodes m"
  proof (cases "?new = 0")
    case True
    then have nil: "buckets m = []" using pow2_size_pos [OF assms(2)] by (auto split: if_splits)
    then have "?ns = []" "map_entries m = []" by (simp_all add: map_entries_def)
    then show ?thesis using True empty by simp
  next
    case False
    then have "pow2_size ?new" using assms by (auto simp: map_ok_alt)
    then show ?thesis using add_all_ok [of ?m0 ?ns] hash empty mset by simp
  qed
  define m' where "m' = add_all ?m0 ?ns"
  have m': "snd (map_resize ok m nb) = m'" "nbuckets m' = ?new" "buckets_ok m'"
      "mset (map_entries m') = mset (map_entries m)" "nnodes m' = nnodes m"
    unfolding m'_def using res all by (simp_all only:)
  from m' show "mset (map_entries (snd (map_resize ok m nb))) = mset (map_entries m)"
    "nnodes (snd (map_resize ok m nb)) = nnodes m"
    "ok \<Longrightarrow> nbuckets (snd (map_resize ok m nb)) = nb"
    by simp_all
  have "mset (map mn_key (map_entries m')) = mset (map mn_key (map_entries m))"
    using m'(4) by (simp only: mset_map)
  then have "distinct (map mn_key (map_entries m')) \<longleftrightarrow> distinct (map mn_key (map_entries m))"
    by (rule mset_eq_imp_distinct_iff)
  then have "distinct (map mn_key (map_entries m'))"
    using assms(1) by (simp add: map_ok_alt)
  moreover have "length (map_entries m') = length (map_entries m)"
    using m'(4) by (rule mset_eq_length)
  ultimately have "map_ok m'" using m'(2,3,5) assms by (simp add: map_ok_alt)
  then show "map_ok (snd (map_resize ok m nb))" using m'(1) by simp
qed

lemma map_abs_mset:
  assumes "mset (map_entries m) = mset (map_entries m')" "distinct (map mn_key (map_entries m))"
  shows "map_abs m = map_abs m'"
proof -
  have "mset (map mn_key (map_entries m)) = mset (map mn_key (map_entries m'))"
    using assms(1) by simp
  then have "distinct (map mn_key (map_entries m'))" using assms(2) mset_eq_imp_distinct_iff by metis
  moreover have "set (map_entries m) = set (map_entries m')" using assms(1) by (rule mset_eq_setD)
  ultimately have "map_abs m k = Some v \<longleftrightarrow> map_abs m' k = Some v" for k v
    using assms(2) by (simp add: map_abs_iff)
  then show ?thesis by (intro ext) (metis option.exhaust)
qed

lemma map_of_update_at:
  "distinct (map fst l) \<Longrightarrow> j < length l \<Longrightarrow> map_of (l[j := (fst (l ! j), v)]) = (map_of l)(fst (l ! j) \<mapsto> v)"
proof (induction l arbitrary: j)
  case (Cons a l)
  show ?case
  proof (cases j)
    case (Suc i)
    then have "fst (l ! i) \<noteq> fst a" using Cons.prems by (metis distinct.simps(2) imageI length_Cons list.simps(9) list.set_map nth_mem not_less_eq)
    then show ?thesis using Cons Suc by (auto simp: fun_upd_twist)
  qed (use Cons in \<open>auto simp: fun_eq_iff\<close>)
qed simp

lemma map_of_delete_at:
  "distinct (map fst l) \<Longrightarrow> j < length l \<Longrightarrow> map_of (take j l @ drop (Suc j) l) = (map_of l)(fst (l ! j) := None)"
proof (induction l arbitrary: j)
  case (Cons a l)
  show ?case
  proof (cases j)
    case 0
    have "map_of l (fst a) = None" using Cons.prems(1) by (simp add: map_of_eq_None_iff)
    then show ?thesis using 0 by auto
  next
    case (Suc i)
    then have "fst (l ! i) \<noteq> fst a" using Cons.prems by (metis distinct.simps(2) imageI length_Cons list.simps(9) list.set_map nth_mem not_less_eq)
    then have "(map_of (a # l))(fst (l ! i) := None) = ((map_of l)(fst (l ! i) := None))(fst a \<mapsto> snd a)"
      by (auto simp: fun_eq_iff)
    moreover have "map_of (take i l @ drop (Suc i) l) = (map_of l)(fst (l ! i) := None)"
      using Cons Suc by (simp add: fun_upd_def)
    ultimately show ?thesis using Suc by (simp add: fun_upd_def del: map_of_append)
  qed
qed simp

lemma entries_at:
  assumes "b < nbuckets m" "k < length (buckets m ! b)"
  obtains j where "j < length (map_entries m)" "map_entries m ! j = buckets m ! b ! k"
    "\<And>x. concat ((buckets m)[b := (buckets m ! b)[k := x]]) = (map_entries m)[j := x]"
    "concat ((buckets m)[b := take k (buckets m ! b) @ drop (Suc k) (buckets m ! b)])
       = take j (map_entries m) @ drop (Suc j) (map_entries m)"
proof
  let ?A = "concat (take b (buckets m))" and ?B = "buckets m ! b" and ?C = "concat (drop (Suc b) (buckets m))"
  have e: "map_entries m = ?A @ ?B @ ?C"
    unfolding map_entries_def by (rule concat_update(2) [OF assms(1)])
  show "length ?A + k < length (map_entries m)" using assms(2) by (simp add: e)
  show "map_entries m ! (length ?A + k) = buckets m ! b ! k" using assms(2) by (simp add: e nth_append)
  show "concat ((buckets m)[b := ?B[k := x]]) = (map_entries m)[length ?A + k := x]" for x
    using assms(2) by (simp add: concat_update(1) [OF assms(1)] e list_update_append)
  show "concat ((buckets m)[b := take k ?B @ drop (Suc k) ?B])
       = take (length ?A + k) (map_entries m) @ drop (Suc (length ?A + k)) (map_entries m)"
    using assms(2) by (simp add: concat_update(1) [OF assms(1)] e Suc_diff_le flip: add_Suc_right)
qed

lemma buckets_ok_update:
  assumes "buckets_ok m" "\<And>x. x \<in> set ys \<Longrightarrow> node_ok (nbuckets m) b x"
  shows "buckets_ok (m\<lparr>buckets := (buckets m)[b := ys]\<rparr>)"
proof -
  have "node_ok (nbuckets m) i x" if "i < nbuckets m" "x \<in> set ((buckets m)[b := ys] ! i)" for i x
    using that assms by (cases "i = b") (auto simp: buckets_ok_def)
  then show ?thesis by (simp add: buckets_ok_def)
qed

lemma map_set_existing:
  assumes ok: "map_ok m" and ref: "map_getref m key = Some (b, k)"
    and m': "m' = m\<lparr>buckets := (buckets m)[b := (buckets m ! b)[k := (buckets m ! b ! k)\<lparr>mn_value := value\<rparr>]]\<rparr>"
  shows "map_ok m' \<and> map_abs m' = (map_abs m)(key \<mapsto> value) \<and> nnodes m' = nnodes m"
proof -
  note r = map_getref_Some [OF ok ref]
  obtain j where j: "j < length (map_entries m)" "map_entries m ! j = buckets m ! b ! k"
    "\<And>x. concat ((buckets m)[b := (buckets m ! b)[k := x]]) = (map_entries m)[j := x]"
    using entries_at [OF r(1,2)] by blast
  let ?n = "buckets m ! b ! k" and ?f = "\<lambda>n. (mn_key n, mn_value n)"
  have e: "map_entries m' = (map_entries m)[j := ?n\<lparr>mn_value := value\<rparr>]"
    using j(3) by (simp add: m' map_entries_def)
  have keys: "map mn_key (map_entries m') = map mn_key (map_entries m)"
    unfolding e map_update using j(1,2) by (simp add: list_update_same_conv)
  have "node_ok (nbuckets m) b x" if "x \<in> set ((buckets m ! b)[k := ?n\<lparr>mn_value := value\<rparr>])" for x
  proof -
    have "x \<in> set (buckets m ! b) \<or> x = ?n\<lparr>mn_value := value\<rparr>" using that set_update_subset_insert by fast
    moreover have "node_ok (nbuckets m) b y" if "y \<in> set (buckets m ! b)" for y
      using that ok r(1) by (simp add: map_ok_alt buckets_ok_def)
    moreover from this [OF nth_mem [OF r(2)]] have "node_ok (nbuckets m) b (?n\<lparr>mn_value := value\<rparr>)"
      by (auto simp: node_ok_def)
    ultimately show ?thesis by blast
  qed
  then have "buckets_ok m'" unfolding m' using ok by (intro buckets_ok_update) (simp_all add: map_ok_alt)
  moreover have "map_abs m' = (map_abs m)(key \<mapsto> value)"
    using map_of_update_at [of "map ?f (map_entries m)" j "value"] ok j(1,2) r(3)
    by (simp add: map_abs_def e map_update map_ok_alt comp_def)
  ultimately show ?thesis using ok keys by (simp add: map_ok_alt m' e [unfolded m'])
qed

lemma map_set_new:
  assumes ok: "map_ok m" and pow: "pow2_size (nbuckets m)" and fresh: "map_abs m key = None"
    and m': "m' = (map_addnode m (map_newnode key value))\<lparr>nnodes := nnodes m + 1\<rparr>"
  shows "map_ok m' \<and> map_abs m' = (map_abs m)(key \<mapsto> value)"
proof -
  let ?n = "map_newnode key value"
  have n: "mn_hash ?n = map_hash (mn_key ?n)" "mn_key ?n = key" "mn_value ?n = value"
    by (simp_all add: map_newnode_def)
  note a = map_addnode_ok [OF pow _ n(1)]
  have m'': "nbuckets m' = nbuckets m" "buckets_ok m'" "mset (map_entries m') = add_mset ?n (mset (map_entries m))"
      "nnodes m' = nnodes m + 1"
  proof -
    have "map_entries m' = map_entries (map_addnode m ?n)" "buckets_ok m' = buckets_ok (map_addnode m ?n)"
      "nbuckets m' = nbuckets (map_addnode m ?n)"
      by (simp_all add: m' map_entries_def buckets_ok_def)
    then show "nbuckets m' = nbuckets m" "buckets_ok m'" "mset (map_entries m') = add_mset ?n (mset (map_entries m))"
      using a ok by (simp_all add: map_ok_alt)
  qed (simp add: m')
  let ?m2 = "\<lparr>buckets = [?n # map_entries m], nnodes = 0\<rparr>"
  have "map_entries ?m2 = ?n # map_entries m" by (simp add: map_entries_def)
  then have e2: "mset (map_entries m') = mset (map_entries ?m2)" by (simp add: m''(3))
  have d: "distinct (map mn_key (?n # map_entries m))"
    using ok fresh n(2) by (auto simp: map_ok_alt map_abs_None)
  have keys: "mset (map mn_key (map_entries m')) = mset (map mn_key (?n # map_entries m))"
    unfolding mset_map m''(3) by simp
  then have dist: "distinct (map mn_key (map_entries m'))"
    using mset_eq_imp_distinct_iff [OF keys] d by simp
  have "length (map_entries m') = nnodes m'"
    using mset_eq_length [OF e2] ok m''(4) by (simp add: map_entries_def map_ok_alt)
  moreover have "map_abs m' = map_abs ?m2" by (rule map_abs_mset [OF e2 dist])
  moreover have "map_abs ?m2 = (map_abs m)(key \<mapsto> value)" by (simp add: map_abs_def map_entries_def n)
  ultimately show ?thesis using m'' dist pow by (simp add: map_ok_alt)
qed

definition map_put :: "'v map_base \<Rightarrow> key \<Rightarrow> 'v \<Rightarrow> 'v map_base" where
  "map_put m key v = snd (map_set True True m key v)"

lemma nnodes_map_addnode [simp]: "nnodes (map_addnode m n) = nnodes m"
  by (simp add: map_addnode_def Let_def)

lemma map_set_spec:
  assumes ok: "map_ok m" and room: "nnodes m < 2 ^ 31" and res: "map_set mal rea m key v = (err, m')"
  shows "map_ok m' \<and> map_abs m' = (if err = 0 then (map_abs m)(key \<mapsto> v) else map_abs m)
    \<and> (err = 0 \<longleftrightarrow> key \<in> dom (map_abs m) \<or> mal \<and> (rea \<or> nnodes m < nbuckets m))"
proof (cases "map_getref m key")
  case (Some bk)
  obtain b k where bk: "map_getref m key = Some (b, k)" using Some by (cases bk) simp
  then have "map_get m key \<noteq> None" by (simp add: map_get_def)
  then have "key \<in> dom (map_abs m)" using map_get_abs [OF ok] by auto
  then show ?thesis using map_set_existing [OF ok bk refl, of v] res bk by (auto simp: map_set_def)
next
  case None
  then have fresh: "map_abs m key = None" using map_get_abs [OF ok, of key] by (simp add: map_get_def)
  define nb where "nb = (if nbuckets m > 0 then nbuckets m * 2 else 1)"
  consider "\<not> mal" | "mal" "nnodes m < nbuckets m" | "mal" "nnodes m \<ge> nbuckets m" by linarith
  then show ?thesis
  proof cases
    case 1
    then show ?thesis using None res ok fresh by (auto simp: map_set_def)
  next
    case 2
    then have pow: "pow2_size (nbuckets m)" using ok by (auto simp: map_ok_alt)
    have "m' = (map_addnode m (map_newnode key v))\<lparr>nnodes := nnodes m + 1\<rparr>" "err = 0"
      using None 2 res by (auto simp: map_set_def Let_def)
    then show ?thesis using map_set_new [OF ok pow fresh, of m' v] 2 by simp
  next
    case 3
    have pow: "pow2_size nb"
    proof (cases "nbuckets m = 0")
      case True
      then show ?thesis by (auto simp: nb_def pow2_size_def intro: exI [of _ 0])
    next
      case False
      then obtain e where e: "nbuckets m = 2 ^ e" "e \<le> 31" using ok by (auto simp: map_ok_alt pow2_size_def)
      have "(2::nat) ^ e < 2 ^ 31" using e 3 room by simp
      then have "e < 31" by (rule power_less_imp_less_exp [rotated]) simp
      then show ?thesis using e by (auto simp: nb_def pow2_size_def intro!: exI [of _ "Suc e"])
    qed
    define m1 where "m1 = snd (map_resize rea m nb)"
    note r = map_resize_ok [OF ok pow, of rea, folded m1_def]
    have abs: "map_abs m1 = map_abs m" using map_abs_mset [OF r(2)] r(1) by (simp add: map_ok_alt)
    have rr: "map_resize rea m nb = (if rea then 0 else -1, m1)"
      by (simp add: m1_def map_resize_def Let_def)
    show ?thesis
    proof (cases rea)
      case True
      have pow1: "pow2_size (nbuckets m1)" using r(4) True pow by simp
      have "m' = (map_addnode m1 (map_newnode key v))\<lparr>nnodes := nnodes m1 + 1\<rparr>" "err = 0"
        using None 3 res [unfolded map_set_def, folded nb_def] rr True by (auto simp: Let_def)
      then show ?thesis using map_set_new [OF r(1) pow1, of key m' v] abs fresh 3 True by simp
    next
      case False
      then show ?thesis using None 3 res [unfolded map_set_def, folded nb_def] rr r(1) abs fresh
        by (auto simp: Let_def)
    qed
  qed
qed

lemma map_remove_spec:
  assumes ok: "map_ok m"
  shows "map_ok (map_remove m key) \<and> map_abs (map_remove m key) = (map_abs m)(key := None)"
proof (cases "map_getref m key")
  case None
  then have "map_abs m key = None" using map_get_abs [OF ok, of key] by (simp add: map_get_def)
  then show ?thesis using None ok by (auto simp: map_remove_def fun_eq_iff)
next
  case (Some bk)
  obtain b k where ref: "map_getref m key = Some (b, k)" using Some by (cases bk) simp
  note r = map_getref_Some [OF ok ref]
  obtain j where j: "j < length (map_entries m)" "map_entries m ! j = buckets m ! b ! k"
    "concat ((buckets m)[b := take k (buckets m ! b) @ drop (Suc k) (buckets m ! b)])
       = take j (map_entries m) @ drop (Suc j) (map_entries m)"
    using entries_at [OF r(1,2)] by blast
  let ?B = "take k (buckets m ! b) @ drop (Suc k) (buckets m ! b)" and ?f = "\<lambda>n. (mn_key n, mn_value n)"
  define m0 where "m0 = m\<lparr>buckets := (buckets m)[b := ?B]\<rparr>"
  have rem: "map_remove m key = m0\<lparr>nnodes := nnodes m - 1\<rparr>" using ref by (simp add: map_remove_def m0_def)
  have e: "map_entries m0 = take j (map_entries m) @ drop (Suc j) (map_entries m)"
    using j(3) by (simp add: m0_def map_entries_def)
  have "node_ok (nbuckets m) b x" if "x \<in> set ?B" for x
  proof -
    have "x \<in> set (buckets m ! b)" using that by (auto dest: in_set_takeD in_set_dropD)
    then show ?thesis using ok r(1) by (simp add: map_ok_alt buckets_ok_def)
  qed
  then have "buckets_ok m0" using ok unfolding m0_def by (intro buckets_ok_update) (simp_all add: map_ok_alt)
  moreover have "distinct (map mn_key (map_entries m0))"
  proof -
    have "map_entries m = take j (map_entries m) @ map_entries m ! j # drop (Suc j) (map_entries m)"
      by (rule id_take_nth_drop [OF j(1)])
    then have "distinct (map mn_key (take j (map_entries m) @ map_entries m ! j # drop (Suc j) (map_entries m)))"
      using ok by (simp add: map_ok_alt)
    then show ?thesis by (simp add: e)
  qed
  moreover have "length (map_entries m0) = nnodes m - 1" using ok j(1) by (simp add: e map_ok_alt)
  moreover have "map_abs m0 = (map_abs m)(key := None)"
    using map_of_delete_at [of "map ?f (map_entries m)" j] ok j(1,2) r(3)
    by (simp add: map_abs_def e map_ok_alt comp_def take_map drop_map del: map_of_append flip: map_append)
  ultimately show ?thesis using ok r(4) by (simp add: rem map_ok_alt map_abs_def map_entries_def buckets_ok_def m0_def)
qed

subsection \<open>Iteration visits every entry\<close>

declare next_bucket.simps [simp del]

lemma next_bucket_spec:
  "-1 \<le> i \<Longrightarrow>
     next_bucket m i = None \<and> concat (drop (nat (i + 1)) (buckets m)) = []
     \<or> (\<exists>n b i'. next_bucket m i = Some (mn_key n, \<lparr>it_bucket = i', it_node = n # b\<rparr>) \<and> -1 \<le> i'
          \<and> concat (drop (nat (i + 1)) (buckets m)) = n # b @ concat (drop (nat (i' + 1)) (buckets m)))"
proof (induction m i rule: next_bucket.induct)
  case (1 m i)
  show ?case
  proof (cases "i + 1 \<ge> int (nbuckets m)")
    case True
    then have "next_bucket m i = None" by (subst next_bucket.simps) simp
    then show ?thesis using True by simp
  next
    case False
    define k where "k = nat (i + 1)"
    have k: "k < nbuckets m" "nat (i + 1 + 1) = Suc k" using False 1(2) by (auto simp: k_def)
    have d: "concat (drop k (buckets m)) = buckets m ! k @ concat (drop (Suc k) (buckets m))"
      using k(1) by (simp add: Cons_nth_drop_Suc [symmetric])
    show ?thesis
    proof (cases "buckets m ! k")
      case Nil
      then have "next_bucket m i = next_bucket m (i + 1)"
        using False by (subst next_bucket.simps) (simp add: k_def)
      moreover have "concat (drop k (buckets m)) = concat (drop (nat (i + 1 + 1)) (buckets m))"
        using d Nil k(2) by simp
      ultimately show ?thesis using 1(1) [OF refl False] 1(2) Nil by (simp add: k_def [symmetric])
    next
      case (Cons n b)
      then have "next_bucket m i = Some (mn_key n, \<lparr>it_bucket = i + 1, it_node = n # b\<rparr>)"
        using False by (subst next_bucket.simps) (simp add: k_def)
      then show ?thesis using d Cons k 1(2) by (simp add: k_def [symmetric])
    qed
  qed
qed

definition iter_rest :: "'v map_base \<Rightarrow> 'v map_iter \<Rightarrow> 'v map_node list" where
  "iter_rest m it = tl (it_node it) @ concat (drop (nat (it_bucket it + 1)) (buckets m))"

lemma map_next_spec:
  assumes "-1 \<le> it_bucket it"
  shows "map_next m it = None \<and> iter_rest m it = []
    \<or> (\<exists>n it'. map_next m it = Some (mn_key n, it') \<and> -1 \<le> it_bucket it' \<and> iter_rest m it = n # iter_rest m it')"
proof -
  consider "tl (it_node it) = []" "map_next m it = next_bucket m (it_bucket it)"
    | a n b where "it_node it = a # n # b"
    by (cases "it_node it"; cases "tl (it_node it)") (auto simp: map_next_def)
  then show ?thesis
  proof cases
    case 1
    then show ?thesis using next_bucket_spec [OF assms, of m] by (auto simp: iter_rest_def)
  next
    case 2
    then show ?thesis using assms by (auto simp: map_next_def iter_rest_def)
  qed
qed

lemma map_keys_from_spec:
  "-1 \<le> it_bucket it \<Longrightarrow> length (iter_rest m it) < fuel \<Longrightarrow>
     map_keys_from fuel m it = Some (map mn_key (iter_rest m it))"
proof (induction fuel arbitrary: it)
  case (Suc fuel)
  then show ?case using map_next_spec [OF Suc.prems(1), of m] by force
qed simp

lemma map_keys_entries: "map_ok m \<Longrightarrow> map_keys m = Some (map mn_key (map_entries m))"
  using map_keys_from_spec [of map_iter0 m "Suc (nnodes m)"]
  by (simp add: map_keys_def map_iter0_def iter_rest_def map_entries_def map_ok_alt)

section \<open>The interface the clients use\<close>

text \<open>A string map: what a lookup returns after an insertion, while there is room.\<close>

locale string_map =
  fixes ok :: "'m \<Rightarrow> bool"
    and room :: "'m \<Rightarrow> bool"
    and get :: "'m \<Rightarrow> key \<Rightarrow> 'v option"
    and put :: "'m \<Rightarrow> key \<Rightarrow> 'v \<Rightarrow> 'm"
  assumes ok_put: "ok m \<Longrightarrow> room m \<Longrightarrow> ok (put m k v)"
    and get_put: "ok m \<Longrightarrow> room m \<Longrightarrow> get (put m k v) k' = (if k' = k then Some v else get m k')"
begin

text \<open>Look a key up and enter a default value when it is missing, as the chunk store does.\<close>

lemma get_or_put:
  assumes "ok m" "room m" "m' = (if get m k = None then put m k v else m)"
  shows "ok m'" "get m' k = Some (case get m k of None \<Rightarrow> v | Some w \<Rightarrow> w)"
    "k' \<noteq> k \<Longrightarrow> get m' k' = get m k'"
  using assms ok_put get_put by (auto split: option.splits)

end

interpretation rxi: string_map map_ok "\<lambda>m. nnodes m < 2 ^ 31" map_get map_put
proof
  fix m :: "'v map_base" and k v
  assume m: "map_ok m" "nnodes m < 2 ^ 31"
  obtain err m' where s: "map_set True True m k v = (err, m')" by (cases "map_set True True m k v")
  note spec = map_set_spec [OF m s]
  show "map_ok (map_put m k v)" using spec s by (simp add: map_put_def)
  show "map_get (map_put m k v) k' = (if k' = k then Some v else map_get m k')" for k'
    using spec s map_get_abs [of m'] map_get_abs [OF m(1)] by (auto simp: map_put_def)
qed

section \<open>Properties\<close>

lemma map_init_ok: "map_ok map_init" "map_abs map_init = Map.empty"
  by (simp_all add: map_ok_alt map_init_def map_entries_def buckets_ok_def map_abs_def)

text \<open>
  C4: the hash table refines a finite map.  On a table that satisfies the invariant (a power-of-two
  number of buckets, every node in the bucket of its hash, no key twice, the node count right)
  \<^verbatim>\<open>map_get_\<close> is the lookup; \<^verbatim>\<open>map_set_\<close> keeps the invariant also when it fails, updates exactly its
  key when it returns 0 and nothing when it returns -1, and it returns 0 when the key is there or the
  allocations succeed; \<^verbatim>\<open>map_remove_\<close> deletes exactly its key; iteration returns every key once.
\<close>
theorem rxi_map_refines:
  assumes "map_ok m" "nnodes m < 2 ^ 31"
  shows "map_get m key = map_abs m key
    \<and> (map_set mal rea m key v = (err, m') \<longrightarrow>
         map_ok m' \<and> map_abs m' = (if err = 0 then (map_abs m)(key \<mapsto> v) else map_abs m)
         \<and> (err = 0 \<longleftrightarrow> key \<in> dom (map_abs m) \<or> mal \<and> (rea \<or> nnodes m < nbuckets m)))
    \<and> map_ok (map_remove m key) \<and> map_abs (map_remove m key) = (map_abs m)(key := None)
    \<and> (\<exists>ks. map_keys m = Some ks \<and> distinct ks \<and> set ks = dom (map_abs m))"
proof -
  have "k \<in> set (map mn_key (map_entries m)) \<longleftrightarrow> k \<in> dom (map_abs m)" for k
    using map_abs_None [of m k] by (auto simp: dom_def)
  then have "set (map mn_key (map_entries m)) = dom (map_abs m)" by blast
  then show ?thesis
    using map_get_abs [OF assms(1)] map_set_spec [OF assms, of mal rea key v err m'] map_remove_spec [OF assms(1), of key]
      map_keys_entries [OF assms(1)] assms(1)
    by (simp add: map_ok_alt)
qed

theorem rxi_map_refines_witness:
  "\<exists>m'. map_set True True map_init [97] (1::nat) = (0, m') \<and> map_ok m' \<and> map_abs m' = [[97] \<mapsto> 1]"
proof -
  obtain err m' where s: "map_set True True map_init [97] (1::nat) = (err, m')"
    by (cases "map_set True True map_init [97] (1::nat)")
  moreover have "nnodes (map_init :: nat map_base) < 2 ^ 31" by (simp add: map_init_def)
  ultimately show ?thesis
    using rxi_map_refines [OF map_init_ok(1), of "[97]" True True 1 err m'] by (auto simp: map_init_ok(2))
qed

end
