(* ===== verification/GM_Grammar.thy ===== *)
theory GM_Grammar
  imports GM_Serialize
begin

text \<open>
  The grammar and the generator functions.  \<^verbatim>\<open>grammars/f1_c_gen.py\<close> turns a grammar into the C file
  \<^verbatim>\<open>f1_c_fuzz.c\<close>, with one function \<^verbatim>\<open>gen_node_X\<close> per key; this theory models the functions that its
  template emits, with the tables of the grammar (rules in the order of their costs, costs, pool of
  serialised cheap trees) as a record.  The recursion of the emitted functions is bounded by fuel;
  \<open>gen_node_total\<close> gives an amount that is enough for every grammar in which a rule without terminal
  text only leads to keys of smaller rank.

  \<open>conforms\<close> says that a tree is a derivation tree of the grammar, \<open>derives\<close> is the language.
\<close>

section \<open>Grammars\<close>

datatype token = Term "u8 list" | NonTerm u32

record grammar =
  g_keys :: "u32 list"
  g_rules :: "u32 \<Rightarrow> token list list"
  g_cost :: "u32 \<Rightarrow> nat list"
  g_pool :: "u32 \<Rightarrow> u8 list list"

text \<open>\<^verbatim>\<open>self.cost[k][0][0]\<close>, which is \<^verbatim>\<open>self.key_cost[k]\<close> after the fixpoint computation.\<close>

definition min_cost :: "grammar \<Rightarrow> u32 \<Rightarrow> nat" where
  "min_cost g k = hd (g_cost g k)"

definition node_num_rules :: "grammar \<Rightarrow> u32 \<Rightarrow> nat" where
  "node_num_rules g i = (if i = 0 then 0 else length (g_rules g i))"

fun symbol_cost :: "grammar \<Rightarrow> token \<Rightarrow> nat" where
  "symbol_cost g (Term bs) = length bs"
| "symbol_cost g (NonTerm t) = min_cost g t"

definition expansion_cost :: "grammar \<Rightarrow> token list \<Rightarrow> nat" where
  "expansion_cost g rule = sum_list (map (symbol_cost g) rule)"

section \<open>The emitted helpers\<close>

definition map_rand :: "('r \<Rightarrow> u32 \<Rightarrow> u32 \<times> 'r) \<Rightarrow> 'r \<Rightarrow> int \<Rightarrow> int \<times> 'r" where
  "map_rand rb s v = (case rb s (of_int v) of (w, s) \<Rightarrow> (sint w, s))"

fun random_len_loop :: "('r \<Rightarrow> u32 \<Rightarrow> u32 \<times> 'r) \<Rightarrow> nat \<Rightarrow> int \<Rightarrow> int \<Rightarrow> 'r \<Rightarrow> int \<times> 'r" where
  "random_len_loop rb 0 tot ret s = (ret, s)"
| "random_len_loop rb (Suc k) tot ret s =
     (case map_rand rb s (tot + 1) of (temp, s) \<Rightarrow>
        random_len_loop rb k tot (if temp < ret then temp else ret) s)"

definition get_random_len :: "('r \<Rightarrow> u32 \<Rightarrow> u32 \<times> 'r) \<Rightarrow> nat \<Rightarrow> int \<Rightarrow> 'r \<Rightarrow> int \<times> 'r" where
  "get_random_len rb num_subnodes tot s = random_len_loop rb (num_subnodes - 1) tot tot s"

text \<open>
  \<^verbatim>\<open>gen_num_candidate_rules\<close>: the sizes that occur among the costs with their multiplicities, and the
  chain of comparisons emitted for them.
\<close>

fun group_costs :: "(nat \<times> nat) list \<Rightarrow> nat list \<Rightarrow> (nat \<times> nat) list" where
  "group_costs acc [] = acc"
| "group_costs acc (c # cs) =
     (if c \<in> fst ` set acc then group_costs (butlast acc @ [(fst (last acc), snd (last acc) + 1)]) cs
      else group_costs (acc @ [(c, 1)]) cs)"

fun fit_chain :: "int \<Rightarrow> nat \<Rightarrow> (nat \<times> nat) list \<Rightarrow> nat" where
  "fit_chain max_len n [] = n"
| "fit_chain max_len n ((sz, k) # gs) = (if max_len < int sz then n else fit_chain max_len (n + k) gs)"

definition rules_that_fit :: "nat list \<Rightarrow> int \<Rightarrow> nat" where
  "rules_that_fit costs max_len =
     (case group_costs [] costs of [] \<Rightarrow> 0 | (_, k) # gs \<Rightarrow> fit_chain max_len k gs)"

section \<open>The emitted generators\<close>

text \<open>
  \<open>Gen_Null\<close>: a NULL subnode is dereferenced, which a pool entry that is cut off would cause.
  \<open>Gen_Bad_Pool\<close>: a pool entry announces more bytes than it has, or a terminal node with subnodes.
  \<open>consumed\<close> is the out parameter: a call that takes a tree from the pool leaves it as it is.
\<close>

datatype gen_error = Gen_No_Fuel | Gen_Null | Gen_Bad_Pool

record gen_state =
  gs_remaining :: int
  gs_nkeys :: nat
  gs_sub_consumed :: int
  gs_consumed :: int
  gs_nt :: nat
  gs_re :: nat
  gs_subs :: "node list"

function (sequential) gen_node ::
    "grammar \<Rightarrow> ('r \<Rightarrow> u32 \<Rightarrow> u32 \<times> 'r) \<Rightarrow> nat \<Rightarrow> u32 \<Rightarrow> int \<Rightarrow> int \<Rightarrow> int \<Rightarrow> 'r \<Rightarrow> gen_error + (node option \<times> int \<times> 'r)"
  and gen_rule ::
    "grammar \<Rightarrow> ('r \<Rightarrow> u32 \<Rightarrow> u32 \<times> 'r) \<Rightarrow> nat \<Rightarrow> u32 \<Rightarrow> token list \<Rightarrow> gen_state \<Rightarrow> 'r \<Rightarrow> gen_error + (gen_state \<times> 'r)" where
  "gen_node g rb 0 k max_len rule_index consumed s = Inl Gen_No_Fuel"
| "gen_node g rb (Suc fuel) k max_len rule_index consumed s =
     (if max_len < int (min_cost g k) then
        (case map_rand rb s (int (length (g_pool g k))) of (val, s) \<Rightarrow>
           (let ser_data = g_pool g k ! nat val
            in case node_deserialize (Suc (length ser_data)) ser_data 0 of
                 Inl Too_Short \<Rightarrow> Inr (None, consumed, s)
               | Inl _ \<Rightarrow> Inl Gen_Bad_Pool
               | Inr (node, _) \<Rightarrow>
                   (case node_of node of None \<Rightarrow> Inl Gen_Bad_Pool | Some node \<Rightarrow> Inr (Some node, consumed, s))))
      else
        (case (if rule_index < 0 \<or> rule_index \<ge> int (length (g_rules g k))
               then map_rand rb s (int (rules_that_fit (g_cost g k) max_len))
               else (rule_index, s)) of (val, s) \<Rightarrow>
           (let rule = g_rules g k ! nat val
            in case gen_rule g rb fuel k rule
                      \<lparr>gs_remaining = max_len - int (g_cost g k ! nat val),
                       gs_nkeys = length (filter (\<lambda>t. case t of NonTerm _ \<Rightarrow> True | _ \<Rightarrow> False) rule),
                       gs_sub_consumed = 0, gs_consumed = 0, gs_nt = (if k \<noteq> 0 then 1 else 0), gs_re = 0,
                       gs_subs = []\<rparr> s of
                 Inl e \<Rightarrow> Inl e
               | Inr (st, s) \<Rightarrow>
                   Inr (Some (Node k (of_int val) [] (map Some (gs_subs st)) (gs_re st) (gs_nt st)), gs_consumed st, s))))"
| "gen_rule g rb fuel k [] st s = Inr (st, s)"
| "gen_rule g rb fuel k (Term bs # rule) st s =
     (let subnode = node_create_with_val 0 (Some bs)
      in gen_rule g rb fuel k rule
           (st\<lparr>gs_consumed := gs_consumed st + int (length bs), gs_subs := gs_subs st @ [subnode]\<rparr>) s)"
| "gen_rule g rb fuel k (NonTerm t # rule) st s =
     (case get_random_len rb (gs_nkeys st) (gs_remaining st) s of (len, s) \<Rightarrow>
        (let subnode_max_len = len + int (min_cost g t);
             remaining = gs_remaining st + int (min_cost g t)
         in case gen_node g rb fuel t subnode_max_len (-1) (gs_sub_consumed st) s of
              Inl e \<Rightarrow> Inl e
            | Inr (None, _, _) \<Rightarrow> Inl Gen_Null
            | Inr (Some subnode, sub_consumed, s) \<Rightarrow>
                gen_rule g rb fuel k rule
                  (st\<lparr>gs_remaining := remaining - sub_consumed, gs_nkeys := gs_nkeys st - 1,
                      gs_sub_consumed := sub_consumed, gs_consumed := gs_consumed st + sub_consumed,
                      gs_nt := gs_nt st + 1, gs_re := (if k = t then gs_re st + 1 else gs_re st),
                      gs_subs := gs_subs st @ [subnode]\<rparr>) s))"
  by pat_completeness auto

termination
  by (relation "measures [case_sum (\<lambda>(_, _, fuel, _). fuel) (\<lambda>(_, _, fuel, _). fuel),
       case_sum (\<lambda>_. 0) (\<lambda>(_, _, _, _, rule, _, _). Suc (length rule))]") auto

section \<open>Derivation trees and the language\<close>

fun token_ok :: "token \<Rightarrow> node option \<Rightarrow> bool" where
  "token_ok (Term bs) (Some m) \<longleftrightarrow> node_id m = 0 \<and> val_buf m = bs"
| "token_ok (NonTerm t) (Some m) \<longleftrightarrow> node_id m = t \<and> t \<noteq> 0"
| "token_ok _ None \<longleftrightarrow> False"

fun conforms :: "grammar \<Rightarrow> node \<Rightarrow> bool" where
  "conforms g (Node i r v ns re nt) \<longleftrightarrow>
     (if i = 0 then ns = []
      else i \<in> set (g_keys g) \<and> v = [] \<and> unat r < length (g_rules g i) \<and> list_all2 token_ok (g_rules g i ! unat r) ns
        \<and> (\<forall>s\<in>set ns. case s of None \<Rightarrow> False | Some m \<Rightarrow> conforms g m))"

inductive derives :: "grammar \<Rightarrow> token \<Rightarrow> u8 list \<Rightarrow> bool" and derives_all :: "grammar \<Rightarrow> token list \<Rightarrow> u8 list \<Rightarrow> bool"
  for g where
  d_term: "derives g (Term bs) bs"
| d_rule: "k \<in> set (g_keys g) \<Longrightarrow> rule \<in> set (g_rules g k) \<Longrightarrow> derives_all g rule bs \<Longrightarrow> derives g (NonTerm k) bs"
| d_nil: "derives_all g [] []"
| d_cons: "derives g t bs \<Longrightarrow> derives_all g ts cs \<Longrightarrow> derives_all g (t # ts) (bs @ cs)"

text \<open>
  The tables the Python side computes: keys are non-zero and closed under the rules, costs are sorted
  and are the expansion costs, and the pool of a key holds serialised derivation trees of the key that have its minimal length.
\<close>

definition wf_grammar :: "grammar \<Rightarrow> bool" where
  "wf_grammar g \<longleftrightarrow> 0 \<notin> set (g_keys g) \<and>
     (\<forall>k\<in>set (g_keys g). g_rules g k \<noteq> [] \<and> length (g_rules g k) < 2 ^ 31
        \<and> sorted (g_cost g k) \<and> g_cost g k = map (expansion_cost g) (g_rules g k)
        \<and> (\<forall>rule\<in>set (g_rules g k). \<forall>t. NonTerm t \<in> set rule \<longrightarrow> t \<in> set (g_keys g))
        \<and> g_pool g k \<noteq> [] \<and> length (g_pool g k) < 2 ^ 31
        \<and> (\<forall>p\<in>set (g_pool g k). \<exists>n. conforms g n \<and> readable n \<and> node_id n = k \<and> p = node_serialize [] n
              \<and> length (node_to_buf [] n) = min_cost g k))"

section \<open>Lemmas\<close>

lemma conforms_iff [simp]:
  "conforms g (Node i r v ns re nt) \<longleftrightarrow>
     (if i = 0 then ns = []
      else i \<in> set (g_keys g) \<and> v = [] \<and> unat r < length (g_rules g i) \<and> list_all2 token_ok (g_rules g i ! unat r) ns
        \<and> None \<notin> set ns \<and> (\<forall>m. Some m \<in> set ns \<longrightarrow> conforms g m))"
  by (auto split: option.splits) (metis option.exhaust)+

declare conforms.simps [simp del]

lemma conforms_wf: "conforms g n \<Longrightarrow> wf_node n \<and> full_node n"
proof (induction n rule: node_induct)
  case (Node i r v ns re nt)
  then show ?case by (cases "i = 0") auto
qed

lemma conforms_derives:
  "conforms g n \<Longrightarrow> node_id n \<noteq> 0 \<Longrightarrow> derives g (NonTerm (node_id n)) (node_to_buf [] n)"
proof (induction n rule: node_induct)
  case (Node i r v ns re nt)
  let ?rule = "g_rules g i ! unat r" and ?f = "\<lambda>xs. concat (map (case_option [] (node_to_buf [])) xs)"
  have i: "i \<noteq> 0" "i \<in> set (g_keys g)" "v = []" "unat r < length (g_rules g i)" using Node.prems by auto
  have "list_all2 token_ok ?rule ns" using Node.prems by simp
  moreover have "\<And>m. Some m \<in> set ns \<Longrightarrow> conforms g m" using Node.prems by simp
  ultimately have "derives_all g ?rule (?f ns)" using Node.IH
  proof (induction rule: list_all2_induct)
    case Nil
    then show ?case by (simp add: derives_derives_all.d_nil)
  next
    case (Cons t ts s ss)
    obtain m where s: "s = Some m" using Cons(1) by (cases s; cases t) auto
    have m: "conforms g m" using Cons.prems(1) s by simp
    have "derives g t (node_to_buf [] m)"
    proof (cases t)
      case (Term bs)
      then have "node_to_buf [] m = bs" using Cons(1) s m by (cases m) auto
      then show ?thesis using Term derives_derives_all.d_term by simp
    next
      case (NonTerm k)
      then show ?thesis using Cons.prems(2) [of m] Cons(1) s m by simp
    qed
    then show ?case using Cons s derives_derives_all.d_cons by simp
  qed
  then show ?case using i derives_derives_all.d_rule [of i g ?rule] by (cases "ns = []") auto
qed

subsection \<open>Random lengths\<close>

lemma sint_small: "unat (w :: u32) < 2 ^ 31 \<Longrightarrow> sint w = int (unat w)"
proof -
  assume "unat w < 2 ^ 31"
  then have "int (unat w) < int (2 ^ 31)" by (simp only: of_nat_less_iff)
  then have "uint w < 2 ^ 31" by simp
  moreover have "- (2 ^ 31) \<le> uint w" by (rule order_trans [of _ 0]) simp_all
  ultimately have "signed_take_bit 31 (uint w) = uint w" by (intro signed_take_bit_int_eq_self) auto
  then show ?thesis by (simp add: sint_uint)
qed

context random_source
begin

lemma map_rand_bound:
  assumes "0 < v" "v < 2 ^ 31"
  shows "0 \<le> fst (map_rand rb s v)" "fst (map_rand rb s v) < v"
proof -
  obtain w s' where w: "rb s (of_int v) = (w, s')" by (cases "rb s (of_int v)")
  have "of_int v = (of_nat (nat v) :: u32)" using assms by simp
  then have "unat w < nat v" using rb_nat_less [of "nat v" s] assms w by auto
  moreover have "nat v < 2 ^ 31" using assms by (simp add: nat_less_iff)
  ultimately have "unat w < 2 ^ 31" by (rule less_trans)
  then have "sint w = int (unat w)" by (rule sint_small)
  moreover have "int (unat w) < v" using \<open>unat w < nat v\<close> by linarith
  ultimately show "0 \<le> fst (map_rand rb s v)" "fst (map_rand rb s v) < v"
    using w by (simp_all add: map_rand_def)
qed

lemma random_len_loop_nonneg:
  "0 \<le> tot \<Longrightarrow> tot + 1 < 2 ^ 31 \<Longrightarrow> 0 \<le> ret \<Longrightarrow> 0 \<le> fst (random_len_loop rb k tot ret s)"
proof (induction k arbitrary: ret s)
  case (Suc k)
  obtain temp s' where t: "map_rand rb s (tot + 1) = (temp, s')" by (cases "map_rand rb s (tot + 1)")
  then show ?case using map_rand_bound [of "tot + 1" s] Suc by auto
qed simp

end

lemma random_len_loop_le: "fst (random_len_loop rb k tot ret s) \<le> ret"
proof (induction k arbitrary: ret s)
  case (Suc k)
  obtain temp s' where t: "map_rand rb s (tot + 1) = (temp, s')" by (cases "map_rand rb s (tot + 1)")
  show ?case using Suc.IH [of "if temp < ret then temp else ret" s'] t by (auto split: if_splits)
qed simp

lemma get_random_len_le: "get_random_len rb n tot s = (len, s') \<Longrightarrow> len \<le> tot"
  using random_len_loop_le [of rb "n - 1" tot tot s] by (simp add: get_random_len_def)

subsection \<open>The candidate rules\<close>

definition expand :: "(nat \<times> nat) list \<Rightarrow> nat list" where
  "expand gs = concat (map (\<lambda>(c, k). replicate k c) gs)"

lemma group_costs_expand:
  assumes "acc \<noteq> []" "sorted_wrt (<) (map fst acc)" "sorted (fst (last acc) # cs)"
  shows "expand (group_costs acc cs) = expand acc @ cs \<and> sorted_wrt (<) (map fst (group_costs acc cs))
    \<and> group_costs acc cs \<noteq> [] \<and> fst (hd (group_costs acc cs)) = fst (hd acc)"
  using assms
proof (induction cs arbitrary: acc)
  case (Cons c cs)
  obtain as l n where acc: "acc = as @ [(l, n)]" using Cons.prems(1) by (metis append_butlast_last_id surj_pair)
  have lt: "\<forall>x\<in>fst ` set as. x < l" and le: "l \<le> c" "sorted (c # cs)" and sas: "sorted_wrt (<) (map fst as)"
    using Cons.prems by (auto simp: acc sorted_wrt_append)
  show ?case
  proof (cases "c = l")
    case True
    let ?acc = "as @ [(l, n + 1)]"
    have "group_costs acc (c # cs) = group_costs ?acc cs" using True by (simp add: acc)
    moreover have "expand ?acc = expand acc @ [c]"
      using True by (simp add: acc expand_def replicate_append_same)
    moreover have "map fst ?acc = map fst acc" by (simp add: acc)
    moreover have "fst (hd ?acc) = fst (hd acc)" by (cases as) (simp_all add: acc)
    moreover have "sorted (fst (last ?acc) # cs)" using le True by simp
    ultimately show ?thesis using Cons.IH [of ?acc] Cons.prems(2) by simp
  next
    case False
    then have lt': "\<forall>x\<in>fst ` set acc. x < c" using le lt acc by fastforce
    then have "c \<notin> fst ` set acc" by blast
    moreover have "sorted_wrt (<) (map fst (acc @ [(c, 1)]))" using Cons.prems(2) lt' by (auto simp: sorted_wrt_append)
    moreover have "expand (acc @ [(c, 1)]) = expand acc @ [c]" by (simp add: expand_def)
    ultimately show ?thesis using Cons.IH [of "acc @ [(c, 1)]"] le(2) Cons.prems(1) by simp
  qed
qed simp

lemma fit_chain_filter:
  "sorted_wrt (<) (map fst gs) \<Longrightarrow> fit_chain max_len n gs = n + length (filter (\<lambda>c. int c \<le> max_len) (expand gs))"
proof (induction max_len n gs rule: fit_chain.induct)
  case (2 max_len n sz k gs)
  show ?case
  proof (cases "max_len < int sz")
    case True
    have "sz \<le> c" if "c \<in> set (expand ((sz, k) # gs))" for c
    proof -
      have "c = sz \<or> c \<in> fst ` set gs" using that by (force simp: expand_def)
      then show ?thesis using 2(2) by auto
    qed
    then have "filter (\<lambda>c. int c \<le> max_len) (expand ((sz, k) # gs)) = []"
      unfolding filter_empty_conv using True by fastforce
    then show ?thesis using True by simp
  next
    case False
    then show ?thesis using 2 by (simp add: expand_def)
  qed
qed (simp add: expand_def)

lemma rules_that_fit_filter:
  assumes "sorted (c # cs)" "int c \<le> max_len"
  shows "rules_that_fit (c # cs) max_len = length (filter (\<lambda>c. int c \<le> max_len) (c # cs))"
proof -
  have g: "expand (group_costs [(c, Suc 0)] cs) = c # cs" "sorted_wrt (<) (map fst (group_costs [(c, Suc 0)] cs))"
    "group_costs [(c, Suc 0)] cs \<noteq> []" "fst (hd (group_costs [(c, Suc 0)] cs)) = c"
    using group_costs_expand [of "[(c, Suc 0)]" cs] assms by (auto simp: expand_def)
  then obtain k gs where gs: "group_costs [(c, Suc 0)] cs = (c, k) # gs" by (cases "group_costs [(c, Suc 0)] cs") auto
  have "c # cs = replicate k c @ expand gs" using g(1) by (simp add: gs expand_def)
  then have "length (filter (\<lambda>c. int c \<le> max_len) (c # cs)) = k + length (filter (\<lambda>c. int c \<le> max_len) (expand gs))"
    using assms(2) by simp
  then show ?thesis using fit_chain_filter [of gs max_len k] g(2) by (simp add: rules_that_fit_def gs)
qed

lemma sorted_filter_prefix:
  "sorted cs \<Longrightarrow> i < length (filter (\<lambda>c. int c \<le> m) cs) \<Longrightarrow> int (cs ! i) \<le> m"
proof (induction cs arbitrary: i)
  case (Cons c cs)
  show ?case
  proof (cases "int c \<le> m")
    case True
    then show ?thesis using Cons by (cases i) auto
  next
    case False
    then have "filter (\<lambda>c. int c \<le> m) (c # cs) = []" using Cons.prems(1) by (auto simp: filter_empty_conv)
    then show ?thesis using Cons.prems(2) by simp
  qed
qed simp

lemma candidate_rule:
  assumes "wf_grammar g" "k \<in> set (g_keys g)" "int (min_cost g k) \<le> max_len"
  shows "0 < rules_that_fit (g_cost g k) max_len" "rules_that_fit (g_cost g k) max_len \<le> length (g_rules g k)"
    "i < rules_that_fit (g_cost g k) max_len \<Longrightarrow> int (g_cost g k ! i) \<le> max_len"
proof -
  have len: "length (g_cost g k) = length (g_rules g k)" and sorted: "sorted (g_cost g k)" and ne: "g_rules g k \<noteq> []"
    using assms(1,2) by (auto simp: wf_grammar_def)
  then obtain c cs where c: "g_cost g k = c # cs" by (cases "g_cost g k") auto
  then have fit: "rules_that_fit (g_cost g k) max_len = length (filter (\<lambda>c. int c \<le> max_len) (g_cost g k))"
    using rules_that_fit_filter [of c cs max_len] sorted assms(3) by (simp add: min_cost_def)
  show "0 < rules_that_fit (g_cost g k) max_len"
    using fit assms(3) c by (simp add: min_cost_def)
  show "rules_that_fit (g_cost g k) max_len \<le> length (g_rules g k)"
    using fit length_filter_le [of _ "g_cost g k"] len by simp
  show "int (g_cost g k ! i) \<le> max_len" if "i < rules_that_fit (g_cost g k) max_len"
    using sorted_filter_prefix [OF sorted] that fit by simp
qed

subsection \<open>Generated trees conform\<close>

fun term_len :: "token list \<Rightarrow> nat" where
  "term_len [] = 0"
| "term_len (Term bs # ts) = length bs + term_len ts"
| "term_len (NonTerm t # ts) = term_len ts"

fun key_len :: "grammar \<Rightarrow> token list \<Rightarrow> nat" where
  "key_len g [] = 0"
| "key_len g (Term bs # ts) = key_len g ts"
| "key_len g (NonTerm t # ts) = min_cost g t + key_len g ts"

lemma expansion_cost_split: "expansion_cost g rule = term_len rule + key_len g rule"
  by (induction rule rule: term_len.induct) (auto simp: expansion_cost_def)

lemma readable_deserialize:
  "readable n \<Longrightarrow> node_deserialize (Suc (length (node_serialize [] n))) (node_serialize [] n) 0
     = Inr (keep n, length (node_serialize [] n)) \<and> node_of (keep n) = Some n"
  using node_deserialize_complete [of n "Suc (length (node_serialize [] n))" 0 "node_serialize [] n" "[]"]
  by (simp add: readable_def node_of_keep)

text \<open>What a generator call promises: the tree it returns and the length it reports.\<close>

definition gen_good :: "grammar \<Rightarrow> u32 \<Rightarrow> int \<Rightarrow> gen_error + (node option \<times> int \<times> 'r) \<Rightarrow> bool" where
  "gen_good g k consumed res \<longleftrightarrow>
     (\<exists>n c s. res = Inr (Some n, c, s) \<and> conforms g n \<and> node_id n = k \<and> (0 \<le> consumed \<longrightarrow> 0 \<le> c))"

lemma token_ok_leaf: "token_ok (Term bs) (Some (node_create_with_val 0 (Some bs)))"
  "conforms g (node_create_with_val 0 (Some bs))"
  "node_to_buf [] (node_create_with_val 0 (Some bs)) = bs"
  by (simp_all add: node_create_with_val_def node_create_with_rule_id_def node_create_def)

lemma gen_rule_good:
  assumes IH: "\<And>t max_len c s. NonTerm t \<in> set rule \<Longrightarrow> max_len \<le> bound \<Longrightarrow> 0 \<le> c \<Longrightarrow>
      gen_good g t c (gen_node g rb fuel t max_len (-1) c s)"
    and "0 \<notin> set (g_keys g)" "\<And>t. NonTerm t \<in> set rule \<Longrightarrow> t \<in> set (g_keys g)"
    and "gs_remaining st + int (key_len g rule) \<le> bound" "0 \<le> gs_sub_consumed st" "0 \<le> gs_consumed st"
  shows "\<exists>st' s' ns. gen_rule g rb fuel k rule st s = Inr (st', s') \<and> gs_subs st' = gs_subs st @ ns
    \<and> list_all2 token_ok rule (map Some ns) \<and> (\<forall>n\<in>set ns. conforms g n) \<and> 0 \<le> gs_consumed st'"
  using assms
proof (induction rule arbitrary: st s)
  case (Cons t rule)
  show ?case
  proof (cases t)
    case (Term bs)
    let ?st = "st\<lparr>gs_consumed := gs_consumed st + int (length bs), gs_subs := gs_subs st @ [node_create_with_val 0 (Some bs)]\<rparr>"
    obtain st' s' ns where "gen_rule g rb fuel k rule ?st s = Inr (st', s')" "gs_subs st' = gs_subs ?st @ ns"
      "list_all2 token_ok rule (map Some ns)" "\<forall>n\<in>set ns. conforms g n" "0 \<le> gs_consumed st'"
      using Cons.IH [of ?st s] Cons.prems Term by auto
    then show ?thesis using Term token_ok_leaf
      by (intro exI [of _ st'] exI [of _ s'] exI [of _ "node_create_with_val 0 (Some bs) # ns"]) (simp add: Let_def)
  next
    case (NonTerm t')
    obtain len s1 where len: "get_random_len rb (gs_nkeys st) (gs_remaining st) s = (len, s1)"
      by (cases "get_random_len rb (gs_nkeys st) (gs_remaining st) s")
    have "len + int (min_cost g t') \<le> bound"
      using get_random_len_le [OF len] Cons.prems(4) NonTerm by simp
    then have "gen_good g t' (gs_sub_consumed st) (gen_node g rb fuel t' (len + int (min_cost g t')) (-1) (gs_sub_consumed st) s1)"
      using Cons.prems(1) [of t' "len + int (min_cost g t')"] Cons.prems(5) NonTerm by simp
    then obtain n c s2 where n: "gen_node g rb fuel t' (len + int (min_cost g t')) (-1) (gs_sub_consumed st) s1 = Inr (Some n, c, s2)"
      "conforms g n" "node_id n = t'" "0 \<le> c" using Cons.prems(5) by (auto simp: gen_good_def)
    let ?st = "st\<lparr>gs_remaining := gs_remaining st + int (min_cost g t') - c, gs_nkeys := gs_nkeys st - 1,
        gs_sub_consumed := c, gs_consumed := gs_consumed st + c, gs_nt := gs_nt st + 1,
        gs_re := (if k = t' then gs_re st + 1 else gs_re st), gs_subs := gs_subs st @ [n]\<rparr>"
    obtain st' s' ns where st': "gen_rule g rb fuel k rule ?st s2 = Inr (st', s')" "gs_subs st' = gs_subs ?st @ ns"
      "list_all2 token_ok rule (map Some ns)" "\<forall>n\<in>set ns. conforms g n" "0 \<le> gs_consumed st'"
      using Cons.IH [of ?st s2] Cons.prems NonTerm n(4) by auto
    have "t' \<noteq> 0" using Cons.prems(2,3) NonTerm by auto
    then show ?thesis using NonTerm len n st'
      by (intro exI [of _ st'] exI [of _ s'] exI [of _ "n # ns"]) (simp add: Let_def)
  qed
qed simp

text \<open>Calls for the keys of a rule, given enough length, report the length of their text and keep to it.\<close>

definition gen_fits :: "grammar \<Rightarrow> ('r \<Rightarrow> u32 \<Rightarrow> u32 \<times> 'r) \<Rightarrow> nat \<Rightarrow> int \<Rightarrow> token list \<Rightarrow> bool" where
  "gen_fits g rb fuel bound rule \<longleftrightarrow>
     (\<forall>t max_len c s n c' s'. NonTerm t \<in> set rule \<longrightarrow> int (min_cost g t) \<le> max_len \<longrightarrow> max_len \<le> bound \<longrightarrow>
        gen_node g rb fuel t max_len (-1) c s = Inr (Some n, c', s') \<longrightarrow>
        c' = int (length (node_to_buf [] n)) \<and> c' \<le> max_len)"

lemma gen_fits_tl: "gen_fits g rb fuel bound (t # rule) \<Longrightarrow> gen_fits g rb fuel bound rule"
  unfolding gen_fits_def by (meson list.set_intros(2))

lemma gen_fitsD:
  "gen_fits g rb fuel bound rule \<Longrightarrow> NonTerm t \<in> set rule \<Longrightarrow> int (min_cost g t) \<le> max_len \<Longrightarrow> max_len \<le> bound \<Longrightarrow>
     gen_node g rb fuel t max_len (-1) c s = Inr (Some n, c', s') \<Longrightarrow>
     c' = int (length (node_to_buf [] n)) \<and> c' \<le> max_len"
  unfolding gen_fits_def by blast

text \<open>A rule without terminal text only leads to keys of smaller rank.\<close>

definition graded :: "grammar \<Rightarrow> (u32 \<Rightarrow> nat) \<Rightarrow> nat \<Rightarrow> bool" where
  "graded g rank r \<longleftrightarrow> (\<forall>k\<in>set (g_keys g). rank k \<le> r
     \<and> (\<forall>rule\<in>set (g_rules g k). term_len rule = 0 \<longrightarrow> (\<forall>t. NonTerm t \<in> set rule \<longrightarrow> rank t < rank k)))"

definition gen_fuel :: "nat \<Rightarrow> int \<Rightarrow> nat" where
  "gen_fuel r max_len = Suc (nat (max_len + 1) * Suc r + r)"

lemma wf_rule:
  assumes "wf_grammar g" "k \<in> set (g_keys g)" "i < length (g_rules g k)"
  shows "g_cost g k ! i = term_len (g_rules g k ! i) + key_len g (g_rules g k ! i)"
    "NonTerm t \<in> set (g_rules g k ! i) \<Longrightarrow> t \<in> set (g_keys g)"
    "0 \<notin> set (g_keys g)" "unat (of_int (int i) :: u32) = i"
proof -
  have k: "g_cost g k = map (expansion_cost g) (g_rules g k)" "length (g_rules g k) < 2 ^ 31"
    "\<And>rule t. rule \<in> set (g_rules g k) \<Longrightarrow> NonTerm t \<in> set rule \<Longrightarrow> t \<in> set (g_keys g)"
    using assms(1,2) unfolding wf_grammar_def by blast+
  show "g_cost g k ! i = term_len (g_rules g k ! i) + key_len g (g_rules g k ! i)"
    using assms(3) k(1) by (simp add: expansion_cost_split)
  show "t \<in> set (g_keys g)" if "NonTerm t \<in> set (g_rules g k ! i)"
    using k(3) [OF nth_mem [OF assms(3)]] that by simp
  show "0 \<notin> set (g_keys g)" using assms(1) by (simp add: wf_grammar_def)
  show "unat (of_int (int i) :: u32) = i" using assms(3) k(2) by simp
qed

lemma fuel_below:
  assumes "m' \<le> m - int l" "0 \<le> m" "l = 0 \<longrightarrow> rank' < rank" "rank' \<le> r"
    and "nat (m + 1) * Suc r + rank < Suc fuel"
  shows "nat (m' + 1) * Suc r + rank' < fuel"
proof (cases "l = 0")
  case True
  then have "nat (m' + 1) * Suc r \<le> nat (m + 1) * Suc r" using assms(1) by (intro mult_le_mono1) simp
  then show ?thesis using assms(3,5) True by linarith
next
  case False
  then have "Suc (nat (m' + 1)) \<le> nat (m + 1)" using assms(1,2) by linarith
  then have "Suc (nat (m' + 1)) * Suc r \<le> nat (m + 1) * Suc r" by (rule mult_le_mono1)
  then show ?thesis using assms(4,5) by simp
qed

context random_source
begin

lemma gen_node_pool:
  assumes "wf_grammar g" "k \<in> set (g_keys g)" "max_len < int (min_cost g k)"
  shows "\<exists>n s'. gen_node g rb (Suc fuel) k max_len rule_index consumed s = Inr (Some n, consumed, s')
    \<and> conforms g n \<and> node_id n = k \<and> length (node_to_buf [] n) = min_cost g k"
proof -
  obtain val s' where val: "map_rand rb s (int (length (g_pool g k))) = (val, s')"
    by (cases "map_rand rb s (int (length (g_pool g k)))")
  have "g_pool g k \<noteq> []" "length (g_pool g k) < 2 ^ 31" using assms by (auto simp: wf_grammar_def)
  then have "0 \<le> val" "val < int (length (g_pool g k))"
    using map_rand_bound [of "int (length (g_pool g k))" s] val by simp_all
  then have "g_pool g k ! nat val \<in> set (g_pool g k)" by (intro nth_mem) linarith
  then obtain n where "conforms g n" "readable n" "node_id n = k" "g_pool g k ! nat val = node_serialize [] n"
      "length (node_to_buf [] n) = min_cost g k"
    using assms(1,2) unfolding wf_grammar_def by meson
  then show ?thesis using assms(3) val readable_deserialize [of n] by (auto simp: Let_def simp del: node_deserialize.simps)
qed

lemma gen_node_choice:
  assumes "wf_grammar g" "k \<in> set (g_keys g)" "\<not> max_len < int (min_cost g k)"
  obtains i s' where "i < length (g_rules g k)"
    "(if rule_index < 0 \<or> rule_index \<ge> int (length (g_rules g k))
      then map_rand rb s (int (rules_that_fit (g_cost g k) max_len)) else (rule_index, s)) = (int i, s')"
    "0 \<le> rule_index \<and> rule_index < int (length (g_rules g k)) \<Longrightarrow> int i = rule_index"
    "\<not> (0 \<le> rule_index \<and> rule_index < int (length (g_rules g k))) \<Longrightarrow> int (g_cost g k ! i) \<le> max_len"
proof (cases "0 \<le> rule_index \<and> rule_index < int (length (g_rules g k))")
  case True
  then show ?thesis using that [of "nat rule_index" s] by auto
next
  case False
  note fit = candidate_rule [OF assms(1,2), of max_len]
  let ?v = "int (rules_that_fit (g_cost g k) max_len)"
  obtain val s' where val: "map_rand rb s ?v = (val, s')" by (cases "map_rand rb s ?v")
  have "length (g_rules g k) < 2 ^ 31" using assms(1,2) by (auto simp: wf_grammar_def)
  then have "?v < 2 ^ 31" using fit(2) assms(3) by simp
  then have "0 \<le> val" "val < ?v" using map_rand_bound [of ?v s] fit(1) assms(3) val by simp_all
  then show ?thesis using that [of "nat val" s'] val False fit(2,3) assms(3) by auto
qed

lemma gen_node_good:
  assumes g: "wf_grammar g" "graded g rank r"
  shows "\<lbrakk>k \<in> set (g_keys g); 0 \<le> consumed; nat (max_len + 1) * Suc r + rank k < fuel\<rbrakk> \<Longrightarrow>
    gen_good g k consumed (gen_node g rb fuel k max_len rule_index consumed s)"
proof (induction fuel arbitrary: k max_len rule_index consumed s)
  case (Suc fuel)
  show ?case
  proof (cases "max_len < int (min_cost g k)")
    case True
    then show ?thesis using gen_node_pool [OF g(1) Suc.prems(1) True, of fuel rule_index consumed s]
      by (auto simp: gen_good_def simp del: gen_node.simps)
  next
    case False
    obtain i s1 where i: "i < length (g_rules g k)"
      "(if rule_index < 0 \<or> rule_index \<ge> int (length (g_rules g k))
        then map_rand rb s (int (rules_that_fit (g_cost g k) max_len)) else (rule_index, s)) = (int i, s1)"
      using gen_node_choice [OF g(1) Suc.prems(1) False] by metis
    let ?rule = "g_rules g k ! i"
    note w = wf_rule [OF g(1) Suc.prems(1) i(1)]
    define st where "st = \<lparr>gs_remaining = max_len - int (g_cost g k ! i),
        gs_nkeys = length (filter (\<lambda>t. case t of NonTerm _ \<Rightarrow> True | _ \<Rightarrow> False) ?rule),
        gs_sub_consumed = 0, gs_consumed = 0, gs_nt = (if k \<noteq> 0 then 1 else 0), gs_re = 0, gs_subs = []\<rparr>"
    have "gen_good g t c (gen_node g rb fuel t ml (-1) c s)"
      if "NonTerm t \<in> set ?rule" "ml \<le> max_len - int (term_len ?rule)" "0 \<le> c" for t ml c s
    proof (rule Suc.IH)
      show "t \<in> set (g_keys g)" using w(2) that(1) by simp
      then have rank: "rank t \<le> r" using g(2) by (simp add: graded_def)
      have zero: "term_len ?rule = 0 \<longrightarrow> rank t < rank k"
        using g(2) Suc.prems(1) i(1) that(1) unfolding graded_def by (meson nth_mem)
      have "0 \<le> max_len" using False by linarith
      then show "nat (ml + 1) * Suc r + rank t < fuel"
        by (rule fuel_below [OF that(2) _ zero rank Suc.prems(3)])
    qed (rule that(3))
    then obtain st' s' ns where st': "gen_rule g rb fuel k ?rule st s1 = Inr (st', s')" "gs_subs st' = ns"
      "list_all2 token_ok ?rule (map Some ns)" "\<forall>n\<in>set ns. conforms g n" "0 \<le> gs_consumed st'"
      using gen_rule_good [of ?rule "max_len - int (term_len ?rule)" g rb fuel st k s1] w by (auto simp: st_def)
    then have "conforms g (Node k (of_int (int i)) [] (map Some ns) (gs_re st') (gs_nt st'))"
      using w(3,4) Suc.prems(1) i(1) by auto
    then show ?thesis using False i(2) st'(1,2,5) by (auto simp: gen_good_def st_def [symmetric] Let_def)
  qed
qed simp

lemma gen_node_rule_id:
  assumes "wf_grammar g" "k \<in> set (g_keys g)" "\<not> max_len < int (min_cost g k)"
    and "0 \<le> rule_index" "rule_index < int (length (g_rules g k))"
    and "gen_node g rb fuel k max_len rule_index consumed s = Inr (Some n, c, s')"
  shows "unat (rule_id n) = nat rule_index"
proof -
  obtain f where f: "fuel = Suc f" using assms(6) by (cases fuel) auto
  have "rule_id n = of_int rule_index" using assms(3-6) f by (auto simp: Let_def split: sum.splits)
  moreover have "unat (of_int (int (nat rule_index)) :: u32) = nat rule_index"
    using wf_rule(4) [OF assms(1,2), of "nat rule_index"] assms(4,5) by simp
  ultimately show ?thesis using assms(4) by simp
qed

lemma gen_rule_fit:
  assumes "gen_fits g rb fuel bound rule"
    and "0 \<le> gs_remaining st" "gs_remaining st + int (key_len g rule) \<le> bound" "bound + 1 < 2 ^ 31"
    and "gen_rule g rb fuel k rule st s = Inr (st', s')"
  shows "\<exists>ns. gs_subs st' = gs_subs st @ ns \<and> 0 \<le> gs_remaining st'
    \<and> gs_consumed st' = gs_consumed st + int (length (concat (map (node_to_buf []) ns)))
    \<and> gs_remaining st' + gs_consumed st' = gs_remaining st + int (key_len g rule) + int (term_len rule) + gs_consumed st"
  using assms
proof (induction rule arbitrary: st s)
  case (Cons t rule)
  show ?case
  proof (cases t)
    case (Term bs)
    let ?leaf = "node_create_with_val 0 (Some bs)"
    let ?st = "st\<lparr>gs_consumed := gs_consumed st + int (length bs), gs_subs := gs_subs st @ [?leaf]\<rparr>"
    have "gen_rule g rb fuel k rule ?st s = Inr (st', s')" using Cons.prems(5) Term by (simp add: Let_def)
    from Cons.IH [OF gen_fits_tl [OF Cons.prems(1)] _ _ Cons.prems(4) this] Cons.prems(2,3) Term
    obtain ns where "gs_subs st' = gs_subs ?st @ ns \<and> 0 \<le> gs_remaining st'
      \<and> gs_consumed st' = gs_consumed ?st + int (length (concat (map (node_to_buf []) ns)))
      \<and> gs_remaining st' + gs_consumed st' = gs_remaining ?st + int (key_len g rule) + int (term_len rule) + gs_consumed ?st"
      by auto
    then show ?thesis using Term by (intro exI [of _ "?leaf # ns"]) (simp add: token_ok_leaf(3))
  next
    case (NonTerm t')
    obtain len s1 where len: "get_random_len rb (gs_nkeys st) (gs_remaining st) s = (len, s1)"
      by (cases "get_random_len rb (gs_nkeys st) (gs_remaining st) s")
    have "gs_remaining st + 1 < 2 ^ 31" using Cons.prems(3,4) by linarith
    then have "0 \<le> len"
      using random_len_loop_nonneg [of "gs_remaining st" "gs_remaining st" "gs_nkeys st - 1" s] Cons.prems(2) len
      by (simp add: get_random_len_def)
    note bounds = this get_random_len_le [OF len]
    obtain n c s2 where n: "gen_node g rb fuel t' (len + int (min_cost g t')) (-1) (gs_sub_consumed st) s1 = Inr (Some n, c, s2)"
      using Cons.prems(5) NonTerm len by (auto simp: Let_def split: sum.splits option.splits prod.splits)
    have c: "c = int (length (node_to_buf [] n))" "c \<le> len + int (min_cost g t')"
      using gen_fitsD [OF Cons.prems(1) _ _ _ n] bounds Cons.prems(3) NonTerm by auto
    let ?st = "st\<lparr>gs_remaining := gs_remaining st + int (min_cost g t') - c, gs_nkeys := gs_nkeys st - 1,
        gs_sub_consumed := c, gs_consumed := gs_consumed st + c, gs_nt := gs_nt st + 1,
        gs_re := (if k = t' then gs_re st + 1 else gs_re st), gs_subs := gs_subs st @ [n]\<rparr>"
    have "gen_rule g rb fuel k rule ?st s2 = Inr (st', s')" using Cons.prems(5) NonTerm len n by (simp add: Let_def)
    from Cons.IH [OF gen_fits_tl [OF Cons.prems(1)] _ _ Cons.prems(4) this] Cons.prems(2,3) NonTerm bounds c
    obtain ns where "gs_subs st' = gs_subs ?st @ ns \<and> 0 \<le> gs_remaining st'
      \<and> gs_consumed st' = gs_consumed ?st + int (length (concat (map (node_to_buf []) ns)))
      \<and> gs_remaining st' + gs_consumed st' = gs_remaining ?st + int (key_len g rule) + int (term_len rule) + gs_consumed ?st"
      by auto
    then show ?thesis using NonTerm c(1) by (intro exI [of _ "n # ns"]) simp
  qed
qed simp

lemma gen_node_fit:
  assumes g: "wf_grammar g"
  shows "\<lbrakk>k \<in> set (g_keys g); int (min_cost g k) \<le> max_len; max_len + 1 < 2 ^ 31;
    \<not> (0 \<le> rule_index \<and> rule_index < int (length (g_rules g k)));
    gen_node g rb fuel k max_len rule_index consumed s = Inr (Some n, c, s')\<rbrakk> \<Longrightarrow>
    c = int (length (node_to_buf [] n)) \<and> c \<le> max_len"
proof (induction fuel arbitrary: k max_len rule_index consumed s n c s')
  case (Suc fuel)
  have "\<not> max_len < int (min_cost g k)" using Suc.prems(2) by simp
  obtain i s1 where i: "i < length (g_rules g k)"
    "(if rule_index < 0 \<or> rule_index \<ge> int (length (g_rules g k))
      then map_rand rb s (int (rules_that_fit (g_cost g k) max_len)) else (rule_index, s)) = (int i, s1)"
    "int (g_cost g k ! i) \<le> max_len"
    using gen_node_choice [OF g Suc.prems(1) \<open>\<not> max_len < int (min_cost g k)\<close>] Suc.prems(4) by metis
  let ?rule = "g_rules g k ! i"
  note w = wf_rule [OF g Suc.prems(1) i(1)]
  define st where "st = \<lparr>gs_remaining = max_len - int (g_cost g k ! i),
      gs_nkeys = length (filter (\<lambda>t. case t of NonTerm _ \<Rightarrow> True | _ \<Rightarrow> False) ?rule),
      gs_sub_consumed = 0, gs_consumed = 0, gs_nt = (if k \<noteq> 0 then 1 else 0), gs_re = 0, gs_subs = []\<rparr>"
  obtain st' where st': "gen_rule g rb fuel k ?rule st s1 = Inr (st', s')" "c = gs_consumed st'"
      "n = Node k (of_int (int i)) [] (map Some (gs_subs st')) (gs_re st') (gs_nt st')"
    using Suc.prems(5) \<open>\<not> max_len < int (min_cost g k)\<close> i(2)
    by (auto simp: st_def [symmetric] Let_def split: sum.splits)
  have IH: "c' = int (length (node_to_buf [] n)) \<and> c' \<le> ml"
    if "NonTerm t \<in> set ?rule" "int (min_cost g t) \<le> ml" "ml \<le> max_len"
      "gen_node g rb fuel t ml (-1) c s = Inr (Some n, c', s')" for t ml c s n c' s'
    by (rule Suc.IH [OF w(2) [OF that(1)] that(2) _ _ that(4)]) (use that(3) Suc.prems(3) in auto)
  have "0 \<le> gs_remaining st" "gs_remaining st + int (key_len g ?rule) \<le> max_len"
    using i(3) w(1) by (simp_all add: st_def)
  moreover have "gen_fits g rb fuel max_len ?rule" unfolding gen_fits_def using IH by blast
  ultimately have "\<exists>ns. gs_subs st' = gs_subs st @ ns \<and> 0 \<le> gs_remaining st'
    \<and> gs_consumed st' = gs_consumed st + int (length (concat (map (node_to_buf []) ns)))
    \<and> gs_remaining st' + gs_consumed st' = gs_remaining st + int (key_len g ?rule) + int (term_len ?rule) + gs_consumed st"
    by (intro gen_rule_fit [OF _ _ _ Suc.prems(3) st'(1)])
  then obtain ns where "gs_subs st' = ns" "0 \<le> gs_remaining st'"
    "gs_consumed st' = int (length (concat (map (node_to_buf []) ns)))"
    "gs_remaining st' + gs_consumed st' = gs_remaining st + int (key_len g ?rule) + int (term_len ?rule)"
    by (auto simp: st_def)
  then show ?case using st'(2,3) w(1) by (auto simp: st_def comp_def)
qed simp

end

subsection \<open>Minimal texts\<close>

lemma min_cost_le:
  assumes "wf_grammar g" "k \<in> set (g_keys g)" "i < length (g_rules g k)"
  shows "min_cost g k \<le> g_cost g k ! i"
proof -
  have "length (g_cost g k) = length (g_rules g k)" "sorted (g_cost g k)"
    using assms(1,2) by (auto simp: wf_grammar_def)
  then have "g_cost g k ! 0 \<le> g_cost g k ! i" "g_cost g k \<noteq> []" using assms(3) by (auto intro: sorted_nth_mono)
  then show ?thesis by (simp add: min_cost_def hd_conv_nth)
qed

lemma conforms_min_cost:
  "wf_grammar g \<Longrightarrow> conforms g n \<Longrightarrow> node_id n \<noteq> 0 \<Longrightarrow> min_cost g (node_id n) \<le> length (node_to_buf [] n)"
proof (induction n rule: node_induct)
  case (Node i r v ns re nt)
  let ?f = "\<lambda>xs. concat (map (case_option [] (node_to_buf [])) xs)"
  have i: "i \<in> set (g_keys g)" "unat r < length (g_rules g i)" "v = []" using Node.prems by auto
  have "list_all2 token_ok (g_rules g i ! unat r) ns" using Node.prems by simp
  moreover have "\<And>m. Some m \<in> set ns \<Longrightarrow> conforms g m" using Node.prems by simp
  ultimately have "term_len (g_rules g i ! unat r) + key_len g (g_rules g i ! unat r) \<le> length (?f ns)"
    using Node.IH
  proof (induction rule: list_all2_induct)
    case (Cons t ts s ss)
    obtain m where s: "s = Some m" using Cons(1) by (cases s; cases t) auto
    have m: "conforms g m" using Cons.prems(1) s by simp
    have tl: "term_len ts + key_len g ts \<le> length (?f ss)" using Cons by simp
    show ?case
    proof (cases t)
      case (Term bs)
      then have "node_to_buf [] m = bs" using Cons(1) s m by (cases m) auto
      then show ?thesis using Term tl s by simp
    next
      case (NonTerm k)
      then have "min_cost g k \<le> length (node_to_buf [] m)"
        using Cons.prems(2) [of m] Cons(1) s m Node.prems(1) by simp
      then show ?thesis using NonTerm tl s by simp
    qed
  qed simp
  moreover have "min_cost g i \<le> term_len (g_rules g i ! unat r) + key_len g (g_rules g i ! unat r)"
    using min_cost_le [OF Node.prems(1) i(1,2)] wf_rule(1) [OF Node.prems(1) i(1,2)] by simp
  ultimately show ?case using i(3) by (cases "ns = []") auto
qed

subsection \<open>Conforming trees are closed under replacement\<close>

lemma token_ok_map:
  assumes "\<And>m. s = Some m \<Longrightarrow> node_id (f m) = node_id m \<and> val_buf (f m) = val_buf m"
  shows "token_ok t (map_option f s) \<longleftrightarrow> token_ok t s"
  using assms by (cases s; cases t) auto

lemma list_all2_token_map:
  assumes "\<And>m. node_id (f m) = node_id m \<and> val_buf (f m) = val_buf m"
  shows "list_all2 token_ok ts (map (map_option f) ns) \<longleftrightarrow> list_all2 token_ok ts ns"
  unfolding list_all2_map2 using token_ok_map [of _ f] assms by simp

lemma None_in_map_option: "None \<in> set (map (map_option f) ns) \<longleftrightarrow> None \<in> set ns"
  by (auto simp: image_iff)

lemma conforms_map:
  assumes "\<And>i r v ns re nt. \<exists>re' nt'. f (Node i r v ns re nt) =
      (if i = 0 then Node i r v ns re' nt' else Node i r v (map (map_option f) ns) re' nt')"
  shows "conforms g (f n) \<longleftrightarrow> conforms g n"
proof (induction n rule: node_induct)
  case (Node i r v ns re nt)
  obtain re' nt' where f: "f (Node i r v ns re nt) =
      (if i = 0 then Node i r v ns re' nt' else Node i r v (map (map_option f) ns) re' nt')"
    using assms by blast
  have "node_id (f m) = node_id m \<and> val_buf (f m) = val_buf m" for m
    using assms by (cases m) (metis node.sel(1,3))
  note l = list_all2_token_map [of f, OF this]
  have "(\<forall>m. Some m \<in> set (map (map_option f) ns) \<longrightarrow> conforms g m) \<longleftrightarrow> (\<forall>m. Some m \<in> set ns \<longrightarrow> conforms g m)"
    unfolding Some_in_map_option using Node.IH by blast
  then show ?case by (simp add: f l None_in_map_option del: set_map)
qed

lemma conforms_node_get_size [simp]: "conforms g (node_get_size n) \<longleftrightarrow> conforms g n"
  by (rule conforms_map) (auto simp: node_get_size_eq Let_def)

lemma conforms_erase [simp]: "conforms g (erase n) \<longleftrightarrow> conforms g n"
proof (induction n rule: node_induct)
  case (Node i r v ns re nt)
  have "node_id (erase m) = node_id m \<and> val_buf (erase m) = val_buf m" for m by (cases m) simp
  note l = list_all2_token_map [of erase, OF this]
  have "(\<forall>m. Some m \<in> set (map (map_option erase) ns) \<longrightarrow> conforms g m) \<longleftrightarrow> (\<forall>m. Some m \<in> set ns \<longrightarrow> conforms g m)"
    unfolding Some_in_map_option using Node.IH by blast
  then show ?case by (simp add: l None_in_map_option del: set_map)
qed

lemma conforms_subnode:
  "conforms g (Node i r v ns re nt) \<Longrightarrow> Some m \<in> set ns \<Longrightarrow> conforms g m"
  by (auto split: if_splits)

lemma conforms_subtree: "conforms g t \<Longrightarrow> subtree t p = Some m \<Longrightarrow> conforms g m"
proof (induction t p rule: subtree.induct)
  case (2 n k p)
  obtain i r v ns re nt where n: "n = Node i r v ns re nt" by (cases n)
  obtain c where c: "k < length ns" "ns ! k = Some c" "subtree c p = Some m"
    using 2(3) n by (auto simp: sub_at_def split: if_splits option.splits)
  have "conforms g c" using conforms_subnode [OF 2(2) [unfolded n]] c nth_mem [OF c(1)] by simp
  then show ?case using 2(1) c n by simp
qed simp

lemma token_ok_same_id: "token_ok t (Some c) \<Longrightarrow> node_id c \<noteq> 0 \<Longrightarrow> node_id m = node_id c \<Longrightarrow> token_ok t (Some m)"
  by (cases t) auto

lemma conforms_replace:
  "conforms g t \<Longrightarrow> subtree t p = Some old \<Longrightarrow> conforms g m \<Longrightarrow> node_id m = node_id old \<Longrightarrow> node_id old \<noteq> 0 \<Longrightarrow>
     conforms g (replace_at t p m)"
proof (induction t p rule: subtree.induct)
  case (2 n k p)
  obtain i r v ns re nt where n: "n = Node i r v ns re nt" by (cases n)
  obtain c where c: "k < length ns" "ns ! k = Some c" "subtree c p = Some old"
    using 2(3) n by (auto simp: sub_at_def split: if_splits option.splits)
  have i: "i \<noteq> 0" using 2(2) c(1) n by auto
  have cc: "conforms g c" using conforms_subnode [OF 2(2) [unfolded n]] c nth_mem [OF c(1)] by simp
  then have rec: "conforms g (replace_at c p m)" using 2(1) c n 2(4-6) by simp
  have "node_id c \<noteq> 0"
  proof
    assume "node_id c = 0"
    then have "subnodes c = []" using cc by (cases c) simp
    then show False using c(3) \<open>node_id c = 0\<close> 2(6) by (cases p) auto
  qed
  moreover have "token_ok (g_rules g i ! unat r ! k) (Some c)"
    using 2(2) i c n by (auto simp: list_all2_conv_all_nth)
  moreover have "node_id (replace_at c p m) = node_id c" by (rule node_id_replace_at [OF c(3) 2(5)])
  ultimately have "token_ok (g_rules g i ! unat r ! k) (Some (replace_at c p m))"
    by (metis token_ok_same_id)
  moreover have "list_all2 token_ok (g_rules g i ! unat r) ns" using 2(2) i n by simp
  ultimately have "list_all2 token_ok (g_rules g i ! unat r) (ns[k := Some (replace_at c p m)])"
    using c(1) by (auto simp: list_all2_conv_all_nth nth_list_update)
  moreover have "x \<in> set ns \<or> x = Some (replace_at c p m)" if "x \<in> set (ns[k := Some (replace_at c p m)])" for x
    using that set_update_subset_insert by fast
  ultimately show ?case using 2(2) rec c n i by auto
qed simp

section \<open>Interfaces for the mutators\<close>

text \<open>
  What the mutators rely on: a class of trees that is closed under taking and exchanging non-terminal
  subtrees of the same id, and a generator that returns trees of the class for its keys.  \<open>ready\<close>
  is the condition on the tables under which the generator does so.
\<close>

locale tree_class =
  fixes conf :: "node \<Rightarrow> bool" and key :: "u32 \<Rightarrow> bool"
  assumes conf_wf: "conf t \<Longrightarrow> wf_node t \<and> full_node t"
    and conf_key: "conf t \<Longrightarrow> node_id t \<noteq> 0 \<Longrightarrow> key (node_id t)"
    and conf_subtree: "conf t \<Longrightarrow> subtree t p = Some m \<Longrightarrow> conf m"
    and conf_replace: "conf t \<Longrightarrow> subtree t p = Some old \<Longrightarrow> conf m \<Longrightarrow> node_id m = node_id old \<Longrightarrow>
      node_id old \<noteq> 0 \<Longrightarrow> conf (replace_at t p m)"
    and conf_get_size: "conf (node_get_size t) \<longleftrightarrow> conf t"

text \<open>A generator whose smallest trees are not longer than any tree of the class with that id.\<close>

locale generator = tree_class +
  fixes ready :: bool and gen :: "u32 \<Rightarrow> int \<Rightarrow> int \<Rightarrow> 'r \<Rightarrow> node option \<times> 'r"
  assumes gen_conf: "ready \<Longrightarrow> key k \<Longrightarrow> \<exists>n. fst (gen k max_len rule_index s) = Some n \<and> conf n \<and> node_id n = k"
    and gen_minimal: "ready \<Longrightarrow> key k \<Longrightarrow> fst (gen k 0 (-1) s) = Some n \<Longrightarrow> conf m \<Longrightarrow> node_id m = k \<Longrightarrow>
      length (node_to_buf [] n) \<le> length (node_to_buf [] m)"

interpretation conforming: tree_class "conforms g" "\<lambda>k. k \<in> set (g_keys g)" for g
proof
  show "wf_node t \<and> full_node t" if "conforms g t" for t using that by (rule conforms_wf)
  show "node_id t \<in> set (g_keys g)" if "conforms g t" "node_id t \<noteq> 0" for t using that by (cases t) simp
qed (auto intro: conforms_subtree conforms_replace)

text \<open>\<open>gen_funcs[k](max_len, &consumed, rule_index)\<close>, with the fuel that is enough.\<close>

definition gen_func ::
  "grammar \<Rightarrow> nat \<Rightarrow> ('r \<Rightarrow> u32 \<Rightarrow> u32 \<times> 'r) \<Rightarrow> u32 \<Rightarrow> int \<Rightarrow> int \<Rightarrow> 'r \<Rightarrow> node option \<times> 'r" where
  "gen_func g r rb k max_len rule_index s =
     (case gen_node g rb (gen_fuel r max_len) k max_len rule_index 0 s of
        Inl _ \<Rightarrow> (None, s) | Inr (n, _, s) \<Rightarrow> (n, s))"

definition gen_init :: "grammar \<Rightarrow> nat \<Rightarrow> ('r \<Rightarrow> u32 \<Rightarrow> u32 \<times> 'r) \<Rightarrow> int \<Rightarrow> 'r \<Rightarrow> tree \<times> 'r" where
  "gen_init g r rb max_len s =
     (case gen_func g r rb 1 max_len (-1) s of (n, s) \<Rightarrow> (tree_create\<lparr>root := n\<rparr>, s))"

context random_source
begin

lemma gen_func_good:
  assumes "wf_grammar g" "graded g rank r" "k \<in> set (g_keys g)"
  obtains n c s' where "gen_node g rb (gen_fuel r max_len) k max_len rule_index 0 s = Inr (Some n, c, s')"
    "gen_func g r rb k max_len rule_index s = (Some n, s')" "conforms g n" "node_id n = k"
proof -
  have "rank k \<le> r" using assms(2,3) by (simp add: graded_def)
  then have "nat (max_len + 1) * Suc r + rank k < gen_fuel r max_len" by (simp add: gen_fuel_def)
  then have "gen_good g k 0 (gen_node g rb (gen_fuel r max_len) k max_len rule_index 0 s)"
    by (intro gen_node_good [OF assms]) simp
  then show ?thesis using that by (auto simp: gen_good_def gen_func_def)
qed

lemma gen_func_minimal:
  assumes "wf_grammar g" "graded g rank r" "k \<in> set (g_keys g)" "fst (gen_func g r rb k 0 (-1) s) = Some n"
  shows "length (node_to_buf [] n) = min_cost g k"
proof -
  obtain c s' where n: "gen_node g rb (gen_fuel r 0) k 0 (-1) 0 s = Inr (Some n, c, s')" "conforms g n" "node_id n = k"
    using gen_func_good [OF assms(1-3), of 0 "-1" s] assms(4) by (metis fst_conv option.inject)
  have "k \<noteq> 0" using assms(1,3) by (auto simp: wf_grammar_def)
  then have ge: "min_cost g k \<le> length (node_to_buf [] n)" using conforms_min_cost [OF assms(1) n(2)] n(3) by simp
  show ?thesis
  proof (cases "min_cost g k = 0")
    case True
    then have "int (length (node_to_buf [] n)) \<le> 0"
      using gen_node_fit [OF assms(1,3) _ _ _ n(1)] by auto
    then show ?thesis using True by simp
  next
    case False
    have "gen_fuel r 0 = Suc (Suc r + r)" by (simp add: gen_fuel_def)
    then show ?thesis using gen_node_pool [OF assms(1,3), of 0 "Suc r + r" "-1" 0 s] n(1) False
      by (auto simp del: gen_node.simps)
  qed
qed

end

interpretation grammar_gen: generator "conforms g" "\<lambda>k. k \<in> set (g_keys g)"
  "wf_grammar g \<and> (\<exists>rank. graded g rank r)" "gen_func g r (draw random_next64)" for g r
proof
  fix k max_len rule_index s
  assume "wf_grammar g \<and> (\<exists>rank. graded g rank r)" "k \<in> set (g_keys g)"
  then obtain rank where "wf_grammar g" "graded g rank r" "k \<in> set (g_keys g)" by blast
  from romu64.gen_func_good [OF this, of max_len rule_index s]
  show "\<exists>n. fst (gen_func g r (draw random_next64) k max_len rule_index s) = Some n \<and> conforms g n \<and> node_id n = k"
    by (metis fst_conv)
next
  fix k s n m
  assume g: "wf_grammar g \<and> (\<exists>rank. graded g rank r)" "k \<in> set (g_keys g)"
    and n: "fst (gen_func g r (draw random_next64) k 0 (-1) s) = Some n" and m: "conforms g m" "node_id m = k"
  then have "length (node_to_buf [] n) = min_cost g k" using romu64.gen_func_minimal [of g _ r k s n] by blast
  moreover have "k \<noteq> 0" using g by (auto simp: wf_grammar_def)
  ultimately show "length (node_to_buf [] n) \<le> length (node_to_buf [] m)"
    using conforms_min_cost [of g m] g(1) m by simp
qed

section \<open>Properties\<close>

definition demo_rng :: "u64 rng option" where
  "demo_rng = Some \<lparr>seed0 = 1, seed1 = 2, seed2 = 3\<rparr>"

text \<open>The grammar \<^verbatim>\<open>grammars/test.json\<close>, with the tables computed from it.\<close>

definition test_tree :: "u32 \<Rightarrow> node" where
  "test_tree k =
     (let c = Node 3 0 [] [Some (Node 0 0 [67] [] 0 0)] 0 0;
          b = Node 2 0 [] [Some (Node 0 0 [108, 105, 107, 101, 32] [] 0 0), Some c] 0 0;
          a = Node 1 0 [] [Some (Node 0 0 [73, 32] [] 0 0), Some b] 0 0
      in if k = 1 then a else if k = 2 then b else c)"

definition test_grammar :: grammar where
  "test_grammar = \<lparr>g_keys = [1, 2, 3],
     g_rules = (\<lambda>k. if k = 1 then [[Term [73, 32], NonTerm 2]]
                 else if k = 2 then [[Term [108, 105, 107, 101, 32], NonTerm 3]]
                 else [[Term [67]], [Term [67, 43, 43]]]),
     g_cost = (\<lambda>k. if k = 1 then [8] else if k = 2 then [6] else [1, 3]),
     g_pool = (\<lambda>k. [node_serialize [] (test_tree k)])\<rparr>"

lemma test_tree_ok:
  assumes "k \<in> {1, 2, 3}"
  shows "conforms test_grammar (test_tree k)" "readable (test_tree k)" "node_id (test_tree k) = k"
    "length (node_to_buf [] (test_tree k)) = min_cost test_grammar k"
  using assms by (auto simp: test_tree_def Let_def test_grammar_def readable_def min_cost_def)

lemma test_grammar_wf: "wf_grammar test_grammar"
proof -
  have "g_pool test_grammar k = [node_serialize [] (test_tree k)]" for k by (simp add: test_grammar_def)
  then have "\<forall>p\<in>set (g_pool test_grammar k). \<exists>n. conforms test_grammar n \<and> readable n \<and> node_id n = k \<and> p = node_serialize [] n
      \<and> length (node_to_buf [] n) = min_cost test_grammar k"
    if "k \<in> {1, 2, 3}" for k
    using test_tree_ok [OF that] by auto
  moreover have "set (g_keys test_grammar) = {1, 2, 3}" by (simp add: test_grammar_def)
  ultimately show ?thesis unfolding wf_grammar_def
    by (auto simp: test_grammar_def expansion_cost_def min_cost_def)
qed

lemma test_grammar_graded: "graded test_grammar (\<lambda>_. 0) 0"
  by (auto simp: graded_def test_grammar_def)

text \<open>
  C1: the generated generators.  For a well-formed grammar in which rules without terminal text lower
  the rank, \<^verbatim>\<open>gen_funcs[k]\<close> terminates and returns a derivation tree of the key \<open>k\<close> whose text is in the
  language of the key; a rule index in range is the rule of the root when the key fits the length; with
  the index \<open>-1\<close>, and only then, the text keeps to a \<open>max_len\<close> below \<open>2\<^sup>3\<^sup>1 - 1\<close> when the cheapest text of the
  key does.
\<close>
theorem gen_func_correct:
  assumes "wf_grammar g" "graded g rank r" "k \<in> set (g_keys g)"
  shows "\<exists>n s'. gen_func g r (draw random_next64) k max_len rule_index s = (Some n, s')
    \<and> conforms g n \<and> node_id n = k \<and> derives g (NonTerm k) (node_to_buf [] n)
    \<and> (int (min_cost g k) \<le> max_len \<and> 0 \<le> rule_index \<and> rule_index < int (length (g_rules g k)) \<longrightarrow>
         unat (rule_id n) = nat rule_index)
    \<and> (int (min_cost g k) \<le> max_len \<and> max_len < 2 ^ 31 - 1 \<and> rule_index = -1 \<longrightarrow>
         int (length (node_to_buf [] n)) \<le> max_len)"
proof -
  obtain n c s' where n: "gen_node g (draw random_next64) (gen_fuel r max_len) k max_len rule_index 0 s = Inr (Some n, c, s')"
    "gen_func g r (draw random_next64) k max_len rule_index s = (Some n, s')" "conforms g n" "node_id n = k"
    using romu64.gen_func_good [OF assms] by metis
  have "k \<noteq> 0" using assms(1,3) by (auto simp: wf_grammar_def)
  then have "derives g (NonTerm k) (node_to_buf [] n)" using conforms_derives [OF n(3)] n(4) by simp
  moreover have "unat (rule_id n) = nat rule_index"
    if "int (min_cost g k) \<le> max_len" "0 \<le> rule_index" "rule_index < int (length (g_rules g k))"
    using romu64.gen_node_rule_id [OF assms(1,3) _ that(2,3) n(1)] that(1) by simp
  moreover have "int (length (node_to_buf [] n)) \<le> max_len"
    if "int (min_cost g k) \<le> max_len" "max_len < 2 ^ 31 - 1" "rule_index = -1"
    using romu64.gen_node_fit [OF assms(1,3) that(1) _ _ n(1)] that(2,3) by simp
  ultimately show ?thesis using n by blast
qed

theorem gen_func_correct_witness:
  "\<exists>n s'. gen_func test_grammar 0 (draw random_next64) 1 500 (-1) demo_rng = (Some n, s')
     \<and> conforms test_grammar n \<and> length (node_to_buf [] n) \<le> 500"
  using gen_func_correct [OF test_grammar_wf test_grammar_graded, of 1 500 "-1" demo_rng]
  by (auto simp: test_grammar_def min_cost_def)

end
