(* ===== verification/GM_Mutation.thy ===== *)
theory GM_Mutation
  imports GM_Grammar
begin

text \<open>
  Mutations and trimmings of a tree (\<^verbatim>\<open>Grammar-Mutator/src/tree_mutation.c\<close>, \<^verbatim>\<open>tree_trimming.c\<close>).  The
  operations get their random source \<open>rb\<close>, the generator table \<open>gen\<close> (\<^verbatim>\<open>gen_funcs\<close>) and, for splicing,
  the lookup \<open>alt\<close> in the chunk store as arguments.  A \<^verbatim>\<open>node_t *\<close> into a tree is a path.  The value
  \<open>Exit_Failure\<close> is the call of \<^verbatim>\<open>exit\<close> when no node could be picked, \<open>Null_Deref\<close> the write through a
  NULL replacement node, \<open>Undefined_Shift\<close> the shift of an \<^verbatim>\<open>int\<close> by more than 30 places.

  The lemmas are proved for every class of trees and generator that satisfies the interface of
  \<open>GM_Grammar\<close>; the properties are their instances for the derivation trees of a grammar.
\<close>

section \<open>Operations\<close>

datatype mut_error = Exit_Failure | Null_Deref | Undefined_Shift

type_synonym 'r source = "'r \<Rightarrow> u32 \<Rightarrow> u32 \<times> 'r"
type_synonym 'r gen_table = "u32 \<Rightarrow> int \<Rightarrow> int \<Rightarrow> 'r \<Rightarrow> node option \<times> 'r"

text \<open>
  \<^verbatim>\<open>max_tree_len\<close> is a \<^verbatim>\<open>size_t\<close> and the rule an \<^verbatim>\<open>uint32_t\<close>, but the generators take \<^verbatim>\<open>int\<close>s: the
  implicit conversion keeps the low 32 bits and reads them in two's complement.
\<close>

definition to_int :: "'a::len word \<Rightarrow> int" where
  "to_int n = sint (ucast n :: u32)"

definition random_mutation ::
  "'r source \<Rightarrow> 'r gen_table \<Rightarrow> u64 \<Rightarrow> tree option \<Rightarrow> 'r \<Rightarrow> mut_error + tree option \<times> 'r" where
  "random_mutation rb gen max_tree_len tree s =
     (case tree of
        None \<Rightarrow> Inr (None, s)
      | Some t \<Rightarrow>
          (let mutated_tree = tree_clone t
           in case root mutated_tree of
                None \<Rightarrow> Inl Exit_Failure
              | Some rt \<Rightarrow>
                  (case node_pick_non_term_subnode rb (Some rt) s of
                     (None, s) \<Rightarrow> Inl Exit_Failure
                   | (Some p, s) \<Rightarrow>
                       (case subtree rt p of
                          None \<Rightarrow> Inl Null_Deref
                        | Some node \<Rightarrow>
                            (case gen (node_id node) (to_int max_tree_len) (-1) s of
                               (replace_node, s) \<Rightarrow>
                                 if p = [] then Inr (Some (mutated_tree\<lparr>root := replace_node\<rparr>), s)
                                 else Inr (Some (mutated_tree\<lparr>root := Some (snd
                                        (node_replace_subnode rt (Some (butlast p)) (Some p) replace_node))\<rparr>), s))))))"

definition rules_mutation ::
  "(u32 \<Rightarrow> nat) \<Rightarrow> 'r gen_table \<Rightarrow> u64 \<Rightarrow> tree option \<Rightarrow> path option \<Rightarrow> u32 \<Rightarrow> 'r \<Rightarrow> mut_error + tree option \<times> 'r" where
  "rules_mutation num_rules gen max_tree_len tree node rule s =
     (case (tree, node) of
        (Some t, Some p) \<Rightarrow>
          (case Option.bind (root t) (\<lambda>rt. map_option (Pair rt) (subtree rt p)) of
             None \<Rightarrow> Inl Null_Deref
           | Some (rt, n) \<Rightarrow>
               if node_id n = 0 then Inr (None, s)
               else if unat rule \<ge> num_rules (node_id n) then Inr (None, s)
               else if rule_id n = rule then Inr (None, s)
               else (case gen (node_id n) (to_int max_tree_len) (to_int rule) s of (replace_node, s) \<Rightarrow>
                 if p = [] then Inr (Some (tree_create\<lparr>root := replace_node\<rparr>), s)
                 else (case replace_node of
                         None \<Rightarrow> Inl Null_Deref
                       | Some m \<Rightarrow> Inr (Some (tree_clone (t\<lparr>root := Some (replace_at rt p m)\<rparr>)), s))))
      | _ \<Rightarrow> Inr (None, s))"

fun node_rules_mutation_count :: "(u32 \<Rightarrow> nat) \<Rightarrow> node \<Rightarrow> nat"
  and rules_count_subnodes :: "(u32 \<Rightarrow> nat) \<Rightarrow> nat \<Rightarrow> node option list \<Rightarrow> nat" where
  "node_rules_mutation_count num_rules (Node i r v ns re nt) =
     (if i = 0 then 0
      else if num_rules i = 0 then 0
      else rules_count_subnodes num_rules (num_rules i - 1) ns)"
| "rules_count_subnodes num_rules ret [] = ret"
| "rules_count_subnodes num_rules ret (None # ns) = rules_count_subnodes num_rules ret ns"
| "rules_count_subnodes num_rules ret (Some n # ns) =
     rules_count_subnodes num_rules (ret + node_rules_mutation_count num_rules n) ns"

definition rules_mutation_count :: "(u32 \<Rightarrow> nat) \<Rightarrow> tree option \<Rightarrow> nat" where
  "rules_mutation_count num_rules tree =
     (case tree of None \<Rightarrow> 0
      | Some t \<Rightarrow> (case root t of None \<Rightarrow> 0 | Some n \<Rightarrow> node_rules_mutation_count num_rules n))"

definition set_child :: "node \<Rightarrow> nat \<Rightarrow> node option \<Rightarrow> node" where
  "set_child n k sub = set_subnodes n ((subnodes n)[k := sub])"

text \<open>The loop of \<^verbatim>\<open>random_recursive_mutation\<close>: a clone of the parent around the tail, \<open>num\<close> times.\<close>

fun repeat_part :: "node \<Rightarrow> nat \<Rightarrow> nat \<Rightarrow> node \<Rightarrow> node" where
  "repeat_part parent offset 0 tail = tail"
| "repeat_part parent offset (Suc num) tail =
     repeat_part parent offset num (set_child (node_clone parent) offset (Some tail))"

definition random_recursive_mutation ::
  "'r source \<Rightarrow> tree option \<Rightarrow> u8 \<Rightarrow> 'r \<Rightarrow> mut_error + tree option \<times> 'r" where
  "random_recursive_mutation rb tree n s =
     (case tree of
        None \<Rightarrow> Inr (None, s)
      | Some t \<Rightarrow>
          (let mutated_tree = tree_clone t
           in case root mutated_tree of
                None \<Rightarrow> Inr (Some mutated_tree, s)
              | Some rt \<Rightarrow>
                  (case node_pick_recursion_edge rb (Some rt) s of
                     (None, s) \<Rightarrow> Inr (Some mutated_tree, s)
                   | (Some e, s) \<Rightarrow>
                       (case (subtree rt (edge_parent e), subtree rt (edge_subnode e)) of
                          (Some parent, Some tail) \<Rightarrow>
                            (let offset = edge_offset e;
                                 parent = set_child parent offset None
                             in if unat n > 30 then Inl Undefined_Shift
                                else let tail = repeat_part parent offset (2 ^ unat n) tail;
                                         parent = set_child parent offset (Some tail)
                                     in Inr (Some (mutated_tree\<lparr>root := Some (replace_at rt (edge_parent e) parent)\<rparr>), s))
                        | _ \<Rightarrow> Inr (Some mutated_tree, s)))))"

definition splicing_mutation ::
  "'r source \<Rightarrow> (node \<Rightarrow> 'r \<Rightarrow> node option \<times> 'r) \<Rightarrow> tree option \<Rightarrow> 'r \<Rightarrow> mut_error + tree option \<times> 'r" where
  "splicing_mutation rb alt tree s =
     (case tree of
        None \<Rightarrow> Inr (None, s)
      | Some t \<Rightarrow>
          (let mutated_tree = tree_clone t
           in case root mutated_tree of
                None \<Rightarrow> Inl Exit_Failure
              | Some rt \<Rightarrow>
                  (case node_pick_non_term_subnode rb (Some rt) s of
                     (None, s) \<Rightarrow> Inl Exit_Failure
                   | (Some p, s) \<Rightarrow>
                       (case subtree rt p of
                          None \<Rightarrow> Inl Null_Deref
                        | Some node \<Rightarrow>
                            (case alt node s of
                               (None, s) \<Rightarrow> Inr (Some mutated_tree, s)
                             | (Some replace_node, s) \<Rightarrow>
                                 if p = [] then Inr (Some (mutated_tree\<lparr>root := Some replace_node\<rparr>), s)
                                 else Inr (Some (mutated_tree\<lparr>root := Some (snd
                                        (node_replace_subnode rt (Some (butlast p)) (Some p) (Some replace_node)))\<rparr>), s))))))"

subsection \<open>Trimming\<close>

definition subtree_trimming ::
  "'r gen_table \<Rightarrow> tree \<Rightarrow> path \<Rightarrow> 'r \<Rightarrow> mut_error + tree \<times> 'r" where
  "subtree_trimming gen t p s =
     (case Option.bind (root t) (\<lambda>rt. map_option (Pair rt) (subtree rt p)) of
        None \<Rightarrow> Inl Null_Deref
      | Some (rt, node) \<Rightarrow>
          (case gen (node_id node) 0 (-1) s of (min_node, s) \<Rightarrow>
             if p = [] then Inr (tree_create\<lparr>root := min_node\<rparr>, s)
             else (case min_node of
                     None \<Rightarrow> Inl Null_Deref
                   | Some m \<Rightarrow> Inr (tree_clone (t\<lparr>root := Some (replace_at rt p m)\<rparr>), s))))"

text \<open>The edge is given by value: its two ends are NULL together (\<open>None\<close>) or both set.\<close>

definition recursive_trimming :: "tree \<Rightarrow> edge option \<Rightarrow> tree" where
  "recursive_trimming t edge =
     (case edge of
        None \<Rightarrow> tree_clone t
      | Some e \<Rightarrow>
          (case Option.bind (root t) (\<lambda>rt. map_option (Pair rt) (subtree rt (edge_subnode e))) of
             None \<Rightarrow> tree_clone t
           | Some (rt, tail) \<Rightarrow>
               if edge_parent e = [] then tree_create\<lparr>root := Some (node_clone tail)\<rparr>
               else tree_clone (t\<lparr>root := Some (replace_at rt (edge_parent e) tail)\<rparr>)))"

section \<open>Lemmas\<close>

lemma rules_count_subnodes_eq:
  "rules_count_subnodes nr ret ns = ret + sum_list (map (case_option 0 (node_rules_mutation_count nr)) ns)"
proof (induction ns arbitrary: ret)
  case (Cons s ns)
  then show ?case by (cases s) auto
qed simp

lemma replace_at_child:
  assumes "k < length (subnodes n)" "subnodes n ! k = Some c"
  shows "replace_at n [k] m = set_child n k (Some m)"
  using assms by (cases n) (simp add: set_child_def)

lemma set_child_twice [simp]: "set_child (set_child n k a) k b = set_child n k b"
  by (cases n) (simp add: set_child_def)

lemma wf_set_child_None: "wf_node n \<Longrightarrow> wf_node (set_child n k None)"
  by (cases n) (auto simp: set_child_def dest!: set_update_subset_insert [THEN subsetD])

fun nest :: "node \<Rightarrow> nat \<Rightarrow> nat \<Rightarrow> node \<Rightarrow> node" where
  "nest parent k 0 tail = tail"
| "nest parent k (Suc num) tail = nest parent k num (set_child parent k (Some tail))"

lemma nest_outer: "set_child parent k (Some (nest parent k num tail)) = nest parent k (Suc num) tail"
  by (induction num arbitrary: tail) simp_all

lemma repeat_part_nest: "wf_node parent \<Longrightarrow> repeat_part (set_child parent k None) k num tail = nest parent k num tail"
  by (induction num arbitrary: tail) (simp_all add: node_clone_id wf_set_child_None)

text \<open>The text of a parent is the text of one subnode between two fixed strings.\<close>

lemma set_child_text:
  assumes "subtree n [k] = Some c"
  obtains a b where "\<And>m. node_to_buf [] (set_child n k (Some m)) = a @ node_to_buf [] m @ b"
    "node_to_buf [] n = a @ node_to_buf [] c @ b"
proof -
  have k: "k < length (subnodes n)" "subnodes n ! k = Some c"
    using assms by (auto simp: sub_at_def split: if_splits option.splits)
  obtain a b where ab: "\<And>m. node_to_buf [] (replace_at n [k] m) = a @ node_to_buf [] m @ b"
    using node_to_buf_replace [OF assms] by blast
  from ab [of c] have "node_to_buf [] n = a @ node_to_buf [] c @ b"
    using replace_at_same [OF assms] by simp
  then show ?thesis using that ab replace_at_child [OF k] by metis
qed

fun copies :: "nat \<Rightarrow> 'a list \<Rightarrow> 'a list" where
  "copies 0 xs = []"
| "copies (Suc n) xs = xs @ copies n xs"

lemma copies_comm: "copies n xs @ xs = xs @ copies n xs"
  by (induction n) auto

lemma nest_text:
  assumes "\<And>m. node_to_buf [] (set_child parent k (Some m)) = a @ node_to_buf [] m @ b"
  shows "node_to_buf [] (nest parent k num tail) = copies num a @ node_to_buf [] tail @ copies num b"
  using assms
proof (induction num arbitrary: tail)
  case (Suc num)
  then show ?case by (simp add: copies_comm flip: append_assoc)
qed simp

lemma subtree_append: "subtree t (p @ q) = Option.bind (subtree t p) (\<lambda>m. subtree m q)"
proof (induction t p rule: subtree.induct)
  case (2 n k p)
  then show ?case by (auto simp: sub_at_def split: option.splits)
qed simp

lemma node_replace_subnode_picked:
  assumes "subtree rt p = Some n" "p \<noteq> []" "node_id m = node_id n"
  shows "node_replace_subnode rt (Some (butlast p)) (Some p) (Some m) = (True, replace_at rt p m)"
  using assms by (simp add: node_replace_subnode_def)

subsection \<open>Sizes after a replacement\<close>

definition nts :: "node \<Rightarrow> nat" where
  "nts n = non_term_size (node_get_size n)"

lemma nts_Node: "nts (Node i r v ns re nt) = (if i = 0 then 0 else 1 + sum_list (map (case_option 0 nts) ns))"
  by (auto simp: nts_def [abs_def] node_get_size_eq nt_sum_def Let_def comp_def intro!: arg_cong [where f = sum_list]
      split: option.splits)

lemma nts_replace:
  "wf_node t \<Longrightarrow> subtree t p = Some old \<Longrightarrow> nts (replace_at t p m) + nts old = nts t + nts m"
proof (induction t p rule: subtree.induct)
  case (2 n k p)
  obtain i r v ns re nt where n: "n = Node i r v ns re nt" by (cases n)
  obtain c where c: "k < length ns" "ns ! k = Some c" "subtree c p = Some old"
    using 2(3) n by (auto simp: sub_at_def split: if_splits option.splits)
  have i: "i \<noteq> 0" "wf_node c" using 2(2) c n nth_mem [OF c(1)] by auto
  then have IH: "nts (replace_at c p m) + nts old = nts c + nts m" using 2(1) c n by simp
  let ?f = "\<lambda>xs. sum_list (map (case_option 0 nts) xs)"
  have split: "?f (ns[k := Some x]) = ?f (take k ns) + nts x + ?f (drop (Suc k) ns)" for x
    using c(1) by (simp add: upd_conv_take_nth_drop)
  have "ns[k := Some c] = ns" using c by (simp add: list_update_same_conv)
  then have "?f ns = ?f (take k ns) + nts c + ?f (drop (Suc k) ns)" using split [of c] by metis
  then show ?case using split [of "replace_at c p m"] IH c i n by (simp add: nts_Node)
qed simp

lemma nts_child:
  assumes "wf_node n" "subtree n [k] = Some c"
  shows "nts c < nts n"
proof -
  obtain i r v ns re nt where n: "n = Node i r v ns re nt" by (cases n)
  have k: "k < length ns" "ns ! k = Some c" using assms(2) n by (auto simp: sub_at_def split: if_splits option.splits)
  then have "i \<noteq> 0" using assms(1) n by auto
  moreover have "nts c \<le> sum_list (map (case_option 0 nts) ns)"
    using member_le_sum_list [of "nts c" "map (case_option 0 nts) ns"] nth_mem [OF k(1)] k(2) by force
  ultimately show ?thesis using n by (simp add: nts_Node)
qed

section \<open>The mutators in their environment\<close>

locale mutator_env = generator conf key ready gen + random_source rb
  for conf key ready and gen :: "'r gen_table" and rb :: "'r source"
begin

lemma picked:
  assumes "conf n" "sized n" "node_id n \<noteq> 0" "non_term_size n < 2 ^ 32"
  obtains p m s' where "node_pick_non_term_subnode rb (Some n) s = (Some p, s')" "subtree n p = Some m" "node_id m \<noteq> 0"
    "conf m" "key (node_id m)"
proof -
  obtain p s' where "pick_non_term rb [] n s = (Some ([] @ p), s')" "non_terminal_at n p"
    using pick_non_term_spec [OF _ assms(2-4), of "[]" s] conf_wf [OF assms(1)] by blast
  then obtain m where "subtree n p = Some m" "node_id m \<noteq> 0" "node_pick_non_term_subnode rb (Some n) s = (Some p, s')"
    by (auto simp: non_terminal_at_def node_pick_non_term_subnode_def)
  then show ?thesis using that conf_subtree [OF assms(1)] conf_key by metis
qed

lemma clone_conf: "conf n \<Longrightarrow> node_clone n = n"
  using conf_wf node_clone_id by blast

lemma random_mutation_spec:
  assumes "ready" "root t = Some n" "conf n" "sized n" "node_id n \<noteq> 0" "non_term_size n < 2 ^ 32"
  shows "\<exists>t' p old s1 new s2. node_pick_non_term_subnode rb (Some n) s = (Some p, s1)
    \<and> subtree n p = Some old \<and> node_id old \<noteq> 0 \<and> gen (node_id old) (to_int max_len) (-1) s1 = (Some new, s2)
    \<and> conf new \<and> node_id new = node_id old \<and> random_mutation rb gen max_len (Some t) s = Inr (Some t', s2)
    \<and> root t' = Some (replace_at n p new) \<and> conf (replace_at n p new)"
proof -
  obtain p m s1 where p: "node_pick_non_term_subnode rb (Some n) s = (Some p, s1)" "subtree n p = Some m" "node_id m \<noteq> 0"
    "conf m" "key (node_id m)" using picked [OF assms(3-6)] .
  obtain new s2 where new: "gen (node_id m) (to_int max_len) (-1) s1 = (Some new, s2)" "conf new" "node_id new = node_id m"
    using gen_conf [OF assms(1) p(5), of "to_int max_len" "-1" s1] by (metis prod.collapse)
  have root: "root (tree_clone t) = Some n" using assms(2) clone_conf [OF assms(3)] by (simp add: tree_clone_def)
  have conf: "conf (replace_at n p new)" by (rule conf_replace [OF assms(3) p(2) new(2,3) p(3)])
  have "random_mutation rb gen max_len (Some t) s = Inr (Some ((tree_clone t)\<lparr>root := Some (replace_at n p new)\<rparr>), s2)"
  proof (cases "p = []")
    case True
    then show ?thesis using root p new by (simp add: random_mutation_def Let_def)
  next
    case False
    then show ?thesis using root p new node_replace_subnode_picked [OF p(2) False new(3)]
      by (simp add: random_mutation_def Let_def)
  qed
  moreover have "root ((tree_clone t)\<lparr>root := Some (replace_at n p new)\<rparr>) = Some (replace_at n p new)" by simp
  ultimately show ?thesis using p new conf by blast
qed

lemma rules_mutation_spec:
  assumes "ready" "root t = Some n" "conf n" "subtree n p = Some m" "node_id m \<noteq> 0"
    and "unat rule < num_rules (node_id m)" "rule \<noteq> rule_id m"
  shows "\<exists>t' s' new. rules_mutation num_rules gen max_len (Some t) (Some p) rule s = Inr (Some t', s')
    \<and> gen (node_id m) (to_int max_len) (to_int rule) s = (Some new, s')
    \<and> conf new \<and> node_id new = node_id m \<and> root t' = Some (replace_at n p new) \<and> conf (replace_at n p new)"
proof -
  have "key (node_id m)" using conf_key [OF conf_subtree [OF assms(3,4)] assms(5)] .
  then obtain new s' where new: "gen (node_id m) (to_int max_len) (to_int rule) s = (Some new, s')" "conf new" "node_id new = node_id m"
    using gen_conf [OF assms(1), of "node_id m" "to_int max_len" "to_int rule" s] by (metis prod.collapse)
  have conf: "conf (replace_at n p new)" by (rule conf_replace [OF assms(3,4) new(2,3) assms(5)])
  show ?thesis
  proof (cases "p = []")
    case True
    then show ?thesis using assms new conf
      by (intro exI [of _ "tree_create\<lparr>root := Some new\<rparr>"] exI [of _ s'] exI [of _ new])
        (auto simp: rules_mutation_def)
  next
    case False
    then show ?thesis using assms new conf clone_conf [OF conf]
      by (intro exI [of _ "tree_clone (t\<lparr>root := Some (replace_at n p new)\<rparr>)"] exI [of _ s'] exI [of _ new])
        (auto simp: rules_mutation_def tree_clone_def)
  qed
qed

lemma nest_conf:
  assumes "conf parent" "subtree parent [j] = Some c" "node_id c = node_id parent" "node_id parent \<noteq> 0"
    and "conf tail" "node_id tail = node_id parent"
  shows "conf (nest parent j num tail) \<and> node_id (nest parent j num tail) = node_id parent"
  using assms(5,6)
proof (induction num arbitrary: tail)
  case (Suc num)
  have j: "j < length (subnodes parent)" "subnodes parent ! j = Some c"
    using assms(2) by (auto simp: sub_at_def split: if_splits option.splits)
  have "conf (replace_at parent [j] tail)" "node_id (replace_at parent [j] tail) = node_id parent"
    using conf_replace [OF assms(1,2) Suc.prems(1)] node_id_replace_at [OF assms(2)] Suc.prems(2) assms(3,4) by simp_all
  then show ?case using Suc.IH replace_at_child [OF j] by simp
qed simp

lemma random_recursive_mutation_spec:
  assumes "root t = Some n" "conf n" "sized n" "0 < recursion_edge_size n" "recursion_edge_size n < 2 ^ 32"
    and "unat k < 31"
  shows "\<exists>t' s' n' p j parent tail a b pre post. random_recursive_mutation rb (Some t) k s = Inr (Some t', s')
    \<and> root t' = Some n' \<and> conf n' \<and> node_id n' = node_id n
    \<and> subtree n p = Some parent \<and> subtree n (p @ [j]) = Some tail \<and> node_id parent = node_id tail
    \<and> node_to_buf [] parent = a @ node_to_buf [] tail @ b
    \<and> node_to_buf [] n = pre @ node_to_buf [] parent @ post
    \<and> node_to_buf [] n' = pre @ copies (2 ^ unat k + 1) a @ node_to_buf [] tail @ copies (2 ^ unat k + 1) b @ post"
proof -
  obtain p j s' where e: "pick_recursion_edge rb [] n s = (Some (mk_edge [] (p, j)), s')" "recursion_at n (p, j)"
    using pick_recursion_edge_spec [OF _ assms(3-5), of "[]" s] conf_wf [OF assms(2)] by (metis surj_pair)
  then obtain parent tail where pt: "subtree n p = Some parent" "subtree n (p @ [j]) = Some tail" "node_id parent = node_id tail"
    by (auto simp: recursion_at_def)
  have child: "subtree parent [j] = Some tail" using pt(1,2) by (simp add: subtree_append)
  have cp: "conf parent" "conf tail" using conf_subtree [OF assms(2)] pt by blast+
  have wf: "wf_node parent" using conf_wf [OF cp(1)] by simp
  have id: "node_id parent \<noteq> 0" using wf child by (cases parent) (auto simp: sub_at_def split: if_splits)
  obtain a b where ab: "\<And>m. node_to_buf [] (set_child parent j (Some m)) = a @ node_to_buf [] m @ b"
    "node_to_buf [] parent = a @ node_to_buf [] tail @ b" using set_child_text [OF child] by blast
  obtain pre post where pp: "\<And>m. node_to_buf [] (replace_at n p m) = pre @ node_to_buf [] m @ post"
    using node_to_buf_replace [OF pt(1)] by blast
  have text_n: "node_to_buf [] n = pre @ node_to_buf [] parent @ post"
    using pp [of parent] replace_at_same [OF pt(1)] by simp
  define num where "num = (2 ^ unat k + 1 :: nat)"
  define new where "new = nest parent j num tail"
  have "tree_clone t = tree_create\<lparr>root := Some n\<rparr>"
    using assms(1) clone_conf [OF assms(2)] by (simp add: tree_clone_def)
  then have run: "random_recursive_mutation rb (Some t) k s = Inr (Some (tree_create\<lparr>root := Some (replace_at n p new)\<rparr>), s')"
    using e pt(1,2) assms(6) nest_outer [of parent j "2 ^ unat k" tail] repeat_part_nest [OF wf]
    by (simp add: random_recursive_mutation_def Let_def node_pick_recursion_edge_def mk_edge_def new_def num_def)
  have new: "conf new" "node_id new = node_id parent"
    using nest_conf [OF cp(1) child pt(3) [symmetric] id cp(2) pt(3) [symmetric], of num] unfolding new_def by blast+
  have conf: "conf (replace_at n p new)" "node_id (replace_at n p new) = node_id n"
    by (rule conf_replace [OF assms(2) pt(1) new id], rule node_id_replace_at [OF pt(1) new(2)])
  have new_text: "node_to_buf [] (replace_at n p new) = pre @ copies num a @ node_to_buf [] tail @ copies num b @ post"
    by (simp only: pp new_def nest_text [OF ab(1)] append_assoc)
  have "root (tree_create\<lparr>root := Some (replace_at n p new)\<rparr>) = Some (replace_at n p new)" by simp
  from run this conf pt ab(2) text_n new_text show ?thesis unfolding num_def by blast
qed

lemma subtree_trimming_spec:
  assumes "ready" "root t = Some n" "conf n" "subtree n p = Some m" "node_id m \<noteq> 0"
  shows "\<exists>t' s' new. subtree_trimming gen t p s = Inr (t', s') \<and> conf new \<and> node_id new = node_id m
    \<and> root t' = Some (replace_at n p new) \<and> conf (replace_at n p new)
    \<and> length (node_to_buf [] (replace_at n p new)) \<le> length (node_to_buf [] n)"
proof -
  have m: "conf m" "key (node_id m)" using conf_subtree [OF assms(3,4)] conf_key assms(5) by blast+
  then obtain new s' where new: "gen (node_id m) 0 (-1) s = (Some new, s')" "conf new" "node_id new = node_id m"
    using gen_conf [OF assms(1), of "node_id m" 0 "-1" s] by (metis prod.collapse)
  have le: "length (node_to_buf [] new) \<le> length (node_to_buf [] m)"
    using gen_minimal [OF assms(1) m(2) _ m(1) refl, of s new] new(1) by simp
  obtain pre post where pp: "\<And>m. node_to_buf [] (replace_at n p m) = pre @ node_to_buf [] m @ post"
    using node_to_buf_replace [OF assms(4)] by blast
  have len: "length (node_to_buf [] (replace_at n p new)) \<le> length (node_to_buf [] n)"
    using pp [of new] pp [of m] replace_at_same [OF assms(4)] le by simp
  have conf: "conf (replace_at n p new)" by (rule conf_replace [OF assms(3,4) new(2,3) assms(5)])
  show ?thesis
  proof (cases "p = []")
    case True
    then show ?thesis using assms new conf len
      by (intro exI [of _ "tree_create\<lparr>root := Some new\<rparr>"] exI [of _ s'] exI [of _ new])
        (auto simp: subtree_trimming_def)
  next
    case False
    then show ?thesis using assms new conf len clone_conf [OF conf]
      by (intro exI [of _ "tree_clone (t\<lparr>root := Some (replace_at n p new)\<rparr>)"] exI [of _ s'] exI [of _ new])
        (auto simp: subtree_trimming_def tree_clone_def)
  qed
qed

lemma recursive_trimming_spec:
  assumes "root t = Some n" "conf n" "recursion_at n (p, j)"
  shows "\<exists>parent tail. subtree n p = Some parent \<and> subtree n (p @ [j]) = Some tail
    \<and> root (recursive_trimming t (Some \<lparr>edge_parent = p, edge_subnode = p @ [j], edge_offset = j\<rparr>)) = Some (replace_at n p tail)
    \<and> conf (replace_at n p tail) \<and> node_id (replace_at n p tail) = node_id n
    \<and> length (node_to_buf [] (replace_at n p tail)) \<le> length (node_to_buf [] n)
    \<and> nts (replace_at n p tail) < nts n"
proof -
  obtain parent tail where pt: "subtree n p = Some parent" "subtree n (p @ [j]) = Some tail" "node_id parent = node_id tail"
    using assms(3) by (auto simp: recursion_at_def)
  have child: "subtree parent [j] = Some tail" using pt(1,2) by (simp add: subtree_append)
  have cp: "conf parent" "conf tail" using conf_subtree [OF assms(2)] pt by blast+
  have wf: "wf_node parent" "wf_node n" using conf_wf cp(1) assms(2) by blast+
  have id: "node_id parent \<noteq> 0" using wf child by (cases parent) (auto simp: sub_at_def split: if_splits)
  obtain a b where ab: "node_to_buf [] parent = a @ node_to_buf [] tail @ b" using set_child_text [OF child] by metis
  obtain pre post where pp: "\<And>m. node_to_buf [] (replace_at n p m) = pre @ node_to_buf [] m @ post"
    using node_to_buf_replace [OF pt(1)] by blast
  have "length (node_to_buf [] (replace_at n p tail)) \<le> length (node_to_buf [] n)"
    using pp [of tail] pp [of parent] replace_at_same [OF pt(1)] ab by simp
  moreover have conf: "conf (replace_at n p tail)" "node_id (replace_at n p tail) = node_id n"
    using conf_replace [OF assms(2) pt(1) cp(2)] node_id_replace_at [OF pt(1)] pt(3) id by simp_all
  moreover have "nts (replace_at n p tail) < nts n"
    using nts_replace [OF wf(2) pt(1), of tail] nts_child [OF wf(1) child] by simp
  ultimately show ?thesis using pt assms(1) clone_conf [OF conf(1)] clone_conf [OF cp(2)]
    by (intro exI [of _ parent] exI [of _ tail]) (auto simp: recursive_trimming_def tree_clone_def)
qed

end

text \<open>
  Splicing takes its replacement from a store of earlier subtrees: the store returns a tree of the
  class with the id it was asked for, or nothing.
\<close>

locale splicer = mutator_env conf key ready gen rb
  for conf key ready and gen :: "'r gen_table" and rb :: "'r source" +
  fixes store_ok :: "'c \<Rightarrow> bool" and alt :: "'c \<Rightarrow> node \<Rightarrow> 'r \<Rightarrow> node option \<times> 'r"
  assumes alt_conf: "store_ok c \<Longrightarrow> conf n \<Longrightarrow> node_id n \<noteq> 0 \<Longrightarrow> fst (alt c n s) = Some m \<Longrightarrow>
    conf m \<and> node_id m = node_id n"
begin

lemma splicing_mutation_spec:
  assumes "store_ok c" "root t = Some n" "conf n" "sized n" "node_id n \<noteq> 0" "non_term_size n < 2 ^ 32"
  shows "\<exists>t' s' n'. splicing_mutation rb (alt c) (Some t) s = Inr (Some t', s') \<and> root t' = Some n' \<and> conf n'
    \<and> node_id n' = node_id n
    \<and> (n' = n \<or> (\<exists>p old new s1 s2. subtree n p = Some old \<and> node_id old \<noteq> 0 \<and> alt c old s1 = (Some new, s2)
         \<and> n' = replace_at n p new))"
proof -
  obtain p m s1 where p: "node_pick_non_term_subnode rb (Some n) s = (Some p, s1)" "subtree n p = Some m" "node_id m \<noteq> 0"
    "conf m" "key (node_id m)" using picked [OF assms(3-6)] .
  have rt: "root (tree_clone t) = Some n" using assms(2) clone_conf [OF assms(3)] by (simp add: tree_clone_def)
  obtain a s2 where a: "alt c m s1 = (a, s2)" by (cases "alt c m s1")
  show ?thesis
  proof (cases a)
    case None
    then show ?thesis using rt p a assms(3)
      by (intro exI [of _ "tree_clone t"] exI [of _ s2] exI [of _ n]) (auto simp: splicing_mutation_def Let_def)
  next
    case (Some new)
    have new: "conf new" "node_id new = node_id m" using alt_conf [OF assms(1) p(4,3), of s1 new] a Some by simp_all
    have conf: "conf (replace_at n p new)" "node_id (replace_at n p new) = node_id n"
      by (rule conf_replace [OF assms(3) p(2) new p(3)], rule node_id_replace_at [OF p(2) new(2)])
    have "splicing_mutation rb (alt c) (Some t) s = Inr (Some ((tree_clone t)\<lparr>root := Some (replace_at n p new)\<rparr>), s2)"
    proof (cases "p = []")
      case True
      then show ?thesis using rt p a Some by (simp add: splicing_mutation_def Let_def)
    next
      case False
      then show ?thesis using rt p a Some node_replace_subnode_picked [OF p(2) False new(2)]
        by (simp add: splicing_mutation_def Let_def)
    qed
    moreover have "root ((tree_clone t)\<lparr>root := Some (replace_at n p new)\<rparr>) = Some (replace_at n p new)" by simp
    ultimately show ?thesis using conf p a Some by blast
  qed
qed

end

interpretation mutator: mutator_env "conforms g" "\<lambda>k. k \<in> set (g_keys g)"
  "wf_grammar g \<and> (\<exists>rank. graded g rank r)" "gen_func g r (draw random_next64)" "draw random_next64" for g r
  by unfold_locales

subsection \<open>Counting rule mutations\<close>

text \<open>The non-terminal nodes in the order of \<open>node_get_non_terminal_nodes\<close>.\<close>

primrec preorder :: "node \<Rightarrow> node list" where
  "preorder (Node i r v ns re nt) =
     (if i = 0 then [] else Node i r v ns re nt # concat (map (case_option [] id) (map (map_option preorder) ns)))"

lemma preorder_Node:
  "preorder (Node i r v ns re nt) =
     (if i = 0 then [] else Node i r v ns re nt # concat (map (case_option [] preorder) ns))"
proof -
  have "case_option [] id (map_option preorder s) = case_option [] preorder s" for s by (cases s) simp_all
  then show ?thesis by (simp add: comp_def)
qed

declare preorder.simps [simp del]

lemma non_terminal_nodes_preorder:
  "\<exists>ps. node_get_non_terminal_nodes p n l = l @ map ((@) p) ps \<and> map (subtree n) ps = map Some (preorder n)"
  "\<exists>ps. non_terminals_subnodes p k ns l = l @ map ((@) p) ps
     \<and> map (\<lambda>q. case q of [] \<Rightarrow> None | j # q \<Rightarrow> sub_at ns k j q) ps = map Some (concat (map (case_option [] preorder) ns))
     \<and> (\<forall>q\<in>set ps. \<exists>j q'. q = j # q' \<and> k \<le> j)"
proof (induction p n l and p k ns l rule: node_get_non_terminal_nodes_non_terminals_subnodes.induct)
  case (1 p i r v ns re nt l)
  show ?case
  proof (cases "i = 0")
    case False
    obtain ps where ps: "non_terminals_subnodes p 0 ns (l @ [p]) = (l @ [p]) @ map ((@) p) ps"
      "map (\<lambda>q. case q of [] \<Rightarrow> None | j # q \<Rightarrow> sub_at ns 0 j q) ps = map Some (concat (map (case_option [] preorder) ns))"
      "\<forall>q\<in>set ps. \<exists>j q'. q = j # q' \<and> 0 \<le> j" using 1 False by blast
    have "map (subtree (Node i r v ns re nt)) ps = map (\<lambda>q. case q of [] \<Rightarrow> None | j # q \<Rightarrow> sub_at ns 0 j q) ps"
      using ps(3) by (intro map_cong) auto
    then show ?thesis using False ps by (intro exI [of _ "[] # ps"]) (simp add: preorder_Node)
  qed (simp add: preorder_Node)
next
  case (3 p k ns l)
  obtain ps where ps: "non_terminals_subnodes p (Suc k) ns l = l @ map ((@) p) ps"
     "map (\<lambda>q. case q of [] \<Rightarrow> None | j # q \<Rightarrow> sub_at ns (Suc k) j q) ps = map Some (concat (map (case_option [] preorder) ns))"
     "\<forall>q\<in>set ps. \<exists>j q'. q = j # q' \<and> Suc k \<le> j" using 3 by blast
  have "map (\<lambda>q. case q of [] \<Rightarrow> None | j # q \<Rightarrow> sub_at (None # ns) k j q) ps
      = map (\<lambda>q. case q of [] \<Rightarrow> None | j # q \<Rightarrow> sub_at ns (Suc k) j q) ps"
    using ps(3) by (intro map_cong) (auto split: list.splits)
  then show ?case using ps by (intro exI [of _ ps]) (auto dest: Suc_leD)
next
  case (4 p k n ns l)
  obtain ps where ps: "node_get_non_terminal_nodes (p @ [k]) n l = l @ map ((@) (p @ [k])) ps"
    "map (subtree n) ps = map Some (preorder n)" using 4(1) by blast
  obtain qs where qs: "non_terminals_subnodes p (Suc k) ns (node_get_non_terminal_nodes (p @ [k]) n l)
       = node_get_non_terminal_nodes (p @ [k]) n l @ map ((@) p) qs"
     "map (\<lambda>q. case q of [] \<Rightarrow> None | j # q \<Rightarrow> sub_at ns (Suc k) j q) qs = map Some (concat (map (case_option [] preorder) ns))"
     "\<forall>q\<in>set qs. \<exists>j q'. q = j # q' \<and> Suc k \<le> j" using 4(2) by blast
  have "map (\<lambda>q. case q of [] \<Rightarrow> None | j # q \<Rightarrow> sub_at (Some n # ns) k j q) qs
      = map (\<lambda>q. case q of [] \<Rightarrow> None | j # q \<Rightarrow> sub_at ns (Suc k) j q) qs"
    using qs(3) by (intro map_cong) (auto split: list.splits)
  moreover have "map (\<lambda>q. case q of [] \<Rightarrow> None | j # q \<Rightarrow> sub_at (Some n # ns) k j q) (map ((#) k) ps) = map (subtree n) ps"
    by simp
  ultimately show ?case using ps qs
    by (intro exI [of _ "map ((#) k) ps @ qs"]) (auto dest: Suc_leD)
qed (auto intro: exI [of _ "[]"])

lemma preorder_of_tree:
  "map (subtree n) (node_get_non_terminal_nodes [] n []) = map Some (preorder n)"
  using non_terminal_nodes_preorder(1) [of "[]" n "[]"] by (auto simp: map_idI)

lemma sum_list_concat: "sum_list (concat xss) = sum_list (map sum_list (xss :: nat list list))"
  by (induction xss) auto

lemma rules_count_preorder:
  "\<forall>m\<in>set (preorder n). 0 < nr (node_id m) \<Longrightarrow>
     node_rules_mutation_count nr n = sum_list (map (\<lambda>m. nr (node_id m) - 1) (preorder n))"
proof (induction n rule: node_induct)
  case (Node i r v ns re nt)
  show ?case
  proof (cases "i = 0")
    case False
    have "case_option 0 (node_rules_mutation_count nr) s =
        sum_list (map (\<lambda>m. nr (node_id m) - 1) (case_option [] preorder s))" if "s \<in> set ns" for s
    proof (cases s)
      case (Some m)
      then show ?thesis using Node.IH [of m] Node.prems that False by (auto simp: preorder_Node)
    qed simp
    then have "map (case_option 0 (node_rules_mutation_count nr)) ns =
        map (\<lambda>s. sum_list (map (\<lambda>m. nr (node_id m) - 1) (case_option [] preorder s))) ns"
      by simp
    then show ?thesis using False Node.prems
      by (simp add: rules_count_subnodes_eq preorder_Node sum_list_concat map_concat comp_def del: map_eq_conv)
  qed (simp add: preorder_Node)
qed

section \<open>Properties\<close>

definition test_root :: tree where
  "test_root = tree_create\<lparr>root := Some (node_get_size (test_tree 1))\<rparr>"

lemma test_root_ok:
  "root test_root = Some (node_get_size (test_tree 1))" "conforms test_grammar (node_get_size (test_tree 1))"
  "sized (node_get_size (test_tree 1))" "node_id (node_get_size (test_tree 1)) = 1"
  "non_term_size (node_get_size (test_tree 1)) = 3"
  using test_tree_ok [of 1]
  by (simp_all add: test_root_def sized_node_get_size) (simp add: test_tree_def node_get_size_eq)

lemma to_int_u32: "unat (n :: u32) < 2 ^ 31 \<Longrightarrow> to_int n = int (unat n)"
proof -
  assume "unat n < 2 ^ 31"
  then have "uint n < 2 ^ 31" unfolding uint_nat by (metis of_nat_less_numeral_power_cancel_iff)
  moreover have "- (2 ^ 31) \<le> uint n" using uint_ge_0 [of n] by (rule order_trans [rotated]) simp
  ultimately have "signed_take_bit 31 (uint n) = uint n" by (intro signed_take_bit_int_eq_self)
  then show ?thesis by (simp add: to_int_def sint_uint)
qed

lemma gen_func_rule:
  assumes "wf_grammar g" "graded g rank r" "k \<in> set (g_keys g)" "int (min_cost g k) \<le> max_len" "i < length (g_rules g k)"
    and "gen_func g r (draw random_next64) k max_len (int i) s = (Some n, s')"
  shows "unat (rule_id n) = i"
proof -
  obtain n' c s'' where "gen_node g (draw random_next64) (gen_fuel r max_len) k max_len (int i) 0 s = Inr (Some n', c, s'')"
    "gen_func g r (draw random_next64) k max_len (int i) s = (Some n', s'')"
    using romu64.gen_func_good [OF assms(1-3)] by metis
  then have "gen_node g (draw random_next64) (gen_fuel r max_len) k max_len (int i) 0 s = Inr (Some n, c, s'')"
    using assms(6) by simp
  moreover have "int i < int (length (g_rules g k))" using assms(5) by simp
  ultimately have "unat (rule_id n) = nat (int i)"
    using romu64.gen_node_rule_id [OF assms(1,3) leD [OF assms(4)] of_nat_0_le_iff] by blast
  then show ?thesis by simp
qed





text \<open>A grammar of differences, \<open>E \<rightarrow> E - E | 1\<close>, and the tree of \<open>1-1\<close>.\<close>

definition diff_grammar :: grammar where
  "diff_grammar = \<lparr>g_keys = [1], g_rules = (\<lambda>_. [[Term [49]], [NonTerm 1, Term [45], NonTerm 1]]),
     g_cost = (\<lambda>_. [1, 3]), g_pool = (\<lambda>_. [])\<rparr>"

definition diff_tree :: node where
  "diff_tree = (let e = Some (Node 1 0 [] [Some (Node 0 0 [49] [] 0 0)] 0 0)
     in node_get_size (Node 1 1 [] [e, Some (Node 0 0 [45] [] 0 0), e] 0 0))"

lemma diff_tree_ok:
  "conforms diff_grammar diff_tree" "sized diff_tree" "recursion_edge_size diff_tree = 2" "nts diff_tree = 3"
  "recursion_at diff_tree ([], 0)"
  by (auto simp: diff_tree_def diff_grammar_def Let_def sized_node_get_size recursion_at_def nts_Node)
    (simp_all add: node_get_size_eq sub_at_def nts_Node)

text \<open>
  C16: \<^verbatim>\<open>random_recursive_mutation\<close> on a derivation tree with a recursion edge, for \<open>k < 31\<close>, where the
  shift \<^verbatim>\<open>1 << k\<close> of an \<^verbatim>\<open>int\<close> is defined.  If the text of the upper node is \<open>a\<close>, the text of the lower
  node, \<open>b\<close>, then in the result both \<open>a\<close> and \<open>b\<close> are there \<open>2 ^ k + 1\<close> times around the lower text, the
  rest of the text is unchanged, and the result is a derivation tree with the same root id.
\<close>
theorem random_recursive_mutation_repeats:
  assumes "root t = Some n" "conforms g n" "sized n" "0 < recursion_edge_size n" "recursion_edge_size n < 2 ^ 32"
    and "unat k < 31"
  shows "\<exists>t' s' n' p j parent tail a b pre post. random_recursive_mutation (draw random_next64) (Some t) k s = Inr (Some t', s')
    \<and> root t' = Some n' \<and> conforms g n' \<and> node_id n' = node_id n
    \<and> subtree n p = Some parent \<and> subtree n (p @ [j]) = Some tail \<and> node_id parent = node_id tail
    \<and> node_to_buf [] parent = a @ node_to_buf [] tail @ b
    \<and> node_to_buf [] n = pre @ node_to_buf [] parent @ post
    \<and> node_to_buf [] n' = pre @ copies (2 ^ unat k + 1) a @ node_to_buf [] tail @ copies (2 ^ unat k + 1) b @ post"
  by (rule mutator.random_recursive_mutation_spec [OF assms])

theorem random_recursive_mutation_repeats_witness:
  "\<exists>t' s' n'. random_recursive_mutation (draw random_next64) (Some (tree_create\<lparr>root := Some diff_tree\<rparr>)) 3 demo_rng
       = Inr (Some t', s') \<and> root t' = Some n' \<and> conforms diff_grammar n'"
proof -
  have "root (tree_create\<lparr>root := Some diff_tree\<rparr>) = Some diff_tree" by simp
  moreover have "0 < recursion_edge_size diff_tree" "recursion_edge_size diff_tree < 2 ^ 32" by (simp_all add: diff_tree_ok)
  moreover have "unat (3 :: u8) < 31" by simp
  ultimately show ?thesis
    using random_recursive_mutation_repeats [OF _ diff_tree_ok(1,2)] by blast
qed



end
