(* ===== verification/GM_Chunk.thy ===== *)
theory GM_Chunk
  imports GM_Mutation RXI_Map
begin

text \<open>
  The chunk store (\<^verbatim>\<open>Grammar-Mutator/src/chunk_store.c\<close>): all subtrees of the trees seen so far, each
  kept once.  A tree is cloned into the store's heap; a subtree whose hash was seen before is freed
  and its parent is pointed at the stored copy, so the stored nodes form a graph in which subtrees
  are shared.  The model therefore has an explicit heap of nodes with their \<^verbatim>\<open>parent\<close> and \<^verbatim>\<open>subnodes\<close>
  pointers; an access to a freed or missing node is \<open>None\<close>.  The two hash tables are those of
  \<open>RXI_Map\<close>, with the list of a type as its value.

  \<open>xxh3\<close> stands for the XXH3 digest of the bytes passed to the hash state, \<open>type_str\<close> for the generated
  \<^verbatim>\<open>node_type_str\<close>.  Allocation succeeds.
\<close>

section \<open>Heap\<close>

type_synonym naddr = nat

record hnode =
  hn_id :: u32
  hn_rule :: u32
  hn_val :: "u8 list"
  hn_parent :: "naddr option"
  hn_subs :: "naddr option list"
  hn_re :: nat
  hn_nt :: nat

record nheap =
  hcells :: "naddr \<Rightarrow> hnode option"
  hbrk :: naddr

definition heap_alloc :: "nheap \<Rightarrow> hnode \<Rightarrow> naddr \<times> nheap" where
  "heap_alloc h c = (hbrk h, h\<lparr>hcells := (hcells h)(hbrk h \<mapsto> c), hbrk := Suc (hbrk h)\<rparr>)"

definition heap_put :: "nheap \<Rightarrow> naddr \<Rightarrow> hnode \<Rightarrow> nheap" where
  "heap_put h a c = h\<lparr>hcells := (hcells h)(a \<mapsto> c)\<rparr>"

definition heap_free :: "nheap \<Rightarrow> naddr \<Rightarrow> nheap" where
  "heap_free h a = h\<lparr>hcells := (hcells h)(a := None)\<rparr>"

definition heap_set_subnode :: "nheap \<Rightarrow> naddr \<Rightarrow> nat \<Rightarrow> naddr \<Rightarrow> nheap" where
  "heap_set_subnode h a k b =
     (case hcells h a of
        None \<Rightarrow> h
      | Some c \<Rightarrow>
          if hn_id c = 0 \<or> k \<ge> length (hn_subs c) then h
          else
            let h = heap_put h a (c\<lparr>hn_subs := (hn_subs c)[k := Some b]\<rparr>)
            in (case hcells h b of None \<Rightarrow> h | Some d \<Rightarrow> heap_put h b (d\<lparr>hn_parent := Some a\<rparr>)))"

text \<open>\<^verbatim>\<open>node_clone\<close> of a tree into the heap.\<close>

fun heap_clone :: "nheap \<Rightarrow> node \<Rightarrow> naddr \<times> nheap"
  and heap_clone_subnodes :: "nheap \<Rightarrow> naddr \<Rightarrow> nat \<Rightarrow> node option list \<Rightarrow> nheap" where
  "heap_clone h (Node i r v ns re nt) =
     (case heap_alloc h \<lparr>hn_id = i, hn_rule = r, hn_val = v, hn_parent = None,
          hn_subs = (if i = 0 then [] else replicate (length ns) None), hn_re = re, hn_nt = nt\<rparr> of
        (a, h) \<Rightarrow> (a, heap_clone_subnodes h a 0 ns))"
| "heap_clone_subnodes h a k [] = h"
| "heap_clone_subnodes h a k (None # ns) = heap_clone_subnodes h a (Suc k) ns"
| "heap_clone_subnodes h a k (Some n # ns) =
     (case heap_clone h n of (b, h) \<Rightarrow> heap_clone_subnodes (heap_set_subnode h a k b) a (Suc k) ns)"

text \<open>\<^verbatim>\<open>node_clone\<close> of a stored node out of the heap.\<close>

fun heap_read :: "nat \<Rightarrow> nheap \<Rightarrow> naddr \<Rightarrow> node option"
  and heap_read_subnodes :: "nat \<Rightarrow> nheap \<Rightarrow> naddr option list \<Rightarrow> node option list option" where
  "heap_read 0 h a = None"
| "heap_read (Suc f) h a =
     (case hcells h a of
        None \<Rightarrow> None
      | Some c \<Rightarrow> map_option (\<lambda>ns. Node (hn_id c) (hn_rule c) (hn_val c) ns (hn_re c) (hn_nt c))
          (heap_read_subnodes f h (hn_subs c)))"
| "heap_read_subnodes f h [] = Some []"
| "heap_read_subnodes f h (None # as) = map_option ((#) None) (heap_read_subnodes f h as)"
| "heap_read_subnodes f h (Some a # as) =
     (case heap_read f h a of
        None \<Rightarrow> None
      | Some n \<Rightarrow> map_option ((#) (Some n)) (heap_read_subnodes f h as))"

fun heap_node_free :: "nat \<Rightarrow> nheap \<Rightarrow> naddr \<Rightarrow> nheap option"
  and heap_free_subnodes :: "nat \<Rightarrow> nheap \<Rightarrow> naddr option list \<Rightarrow> nheap option" where
  "heap_node_free 0 h a = None"
| "heap_node_free (Suc f) h a =
     (case hcells h a of
        None \<Rightarrow> None
      | Some c \<Rightarrow> map_option (\<lambda>h. heap_free h a) (heap_free_subnodes f h (hn_subs c)))"
| "heap_free_subnodes f h [] = Some h"
| "heap_free_subnodes f h (None # as) = heap_free_subnodes f h as"
| "heap_free_subnodes f h (Some a # as) =
     (case heap_node_free f h a of None \<Rightarrow> None | Some h \<Rightarrow> heap_free_subnodes f h as)"

text \<open>\<^verbatim>\<open>node_replace_subnode\<close>: the first slot of \<open>p\<close> that holds \<open>a\<close>.\<close>

fun find_slot :: "naddr \<Rightarrow> nat \<Rightarrow> naddr option list \<Rightarrow> nat option" where
  "find_slot a k [] = None"
| "find_slot a k (x # xs) = (if x = Some a then Some k else find_slot a (Suc k) xs)"

definition heap_replace_subnode :: "nheap \<Rightarrow> naddr \<Rightarrow> naddr \<Rightarrow> naddr \<Rightarrow> nheap option" where
  "heap_replace_subnode h p a b =
     (case (hcells h p, hcells h a, hcells h b) of
        (Some cp, Some ca, Some cb) \<Rightarrow>
          if hn_id ca \<noteq> hn_id cb then Some h
          else if hn_parent ca \<noteq> Some p then Some h
          else (case find_slot a 0 (hn_subs cp) of
                  None \<Rightarrow> Some h
                | Some k \<Rightarrow>
                    let h = heap_put h p (cp\<lparr>hn_subs := (hn_subs cp)[k := Some b]\<rparr>);
                        h = (case hcells h b of None \<Rightarrow> h | Some d \<Rightarrow> heap_put h b (d\<lparr>hn_parent := Some p\<rparr>));
                        h = (case hcells h a of None \<Rightarrow> h | Some d \<Rightarrow> heap_put h a (d\<lparr>hn_parent := None\<rparr>))
                    in Some h)
      | _ \<Rightarrow> None)"

section \<open>Hashing\<close>

definition hex_digit :: "u64 \<Rightarrow> u8" where
  "hex_digit d = (if d < 10 then 48 + ucast d else 55 + ucast d)"

fun uint64_to_hex_loop :: "nat \<Rightarrow> u64 \<Rightarrow> u8 list \<Rightarrow> u8 list" where
  "uint64_to_hex_loop 0 num dest = dest"
| "uint64_to_hex_loop (Suc k) num dest = uint64_to_hex_loop k (drop_bit 4 num) (hex_digit (num AND 15) # dest)"

definition uint64_to_hex :: "u64 \<Rightarrow> u8 list" where
  "uint64_to_hex num = uint64_to_hex_loop 16 num []"

text \<open>The bytes passed to the hash state; a NULL subnode is dereferenced.\<close>

fun node_update_hash :: "nat \<Rightarrow> nheap \<Rightarrow> naddr \<Rightarrow> u8 list \<Rightarrow> u8 list option"
  and update_hash_subnodes :: "nat \<Rightarrow> nheap \<Rightarrow> naddr option list \<Rightarrow> u8 list \<Rightarrow> u8 list option" where
  "node_update_hash 0 h a hash = None"
| "node_update_hash (Suc f) h a hash =
     (case hcells h a of
        None \<Rightarrow> None
      | Some c \<Rightarrow> update_hash_subnodes f h (hn_subs c)
          (hash @ le32 (hn_id c) @ le32 (hn_rule c) @ le32 (of_nat (length (hn_val c))) @ hn_val c))"
| "update_hash_subnodes f h [] hash = Some hash"
| "update_hash_subnodes f h (None # as) hash = None"
| "update_hash_subnodes f h (Some a # as) hash =
     (case node_update_hash f h a hash of None \<Rightarrow> None | Some hash \<Rightarrow> update_hash_subnodes f h as hash)"

definition hash_node :: "(u8 list \<Rightarrow> u64) \<Rightarrow> nat \<Rightarrow> nheap \<Rightarrow> naddr \<Rightarrow> key option" where
  "hash_node xxh3 f h a = map_option (uint64_to_hex \<circ> xxh3) (node_update_hash f h a [])"

section \<open>The store\<close>

record chunks =
  heap :: nheap
  chunk_store :: "naddr list map_base"
  seen_chunks :: "naddr map_base"

definition chunk_store_init :: "nheap \<Rightarrow> chunks" where
  "chunk_store_init h = \<lparr>heap = h, chunk_store = map_init, seen_chunks = map_init\<rparr>"

definition store_append :: "(u32 \<Rightarrow> key) \<Rightarrow> chunks \<Rightarrow> u32 \<Rightarrow> naddr \<Rightarrow> chunks" where
  "store_append type_str st i a =
     (let node_type = type_str i;
          m = (if map_get (chunk_store st) node_type = None
               then map_put (chunk_store st) node_type [] else chunk_store st)
      in case map_get m node_type of
           None \<Rightarrow> st\<lparr>chunk_store := m\<rparr>
         | Some l \<Rightarrow> st\<lparr>chunk_store := map_put m node_type (l @ [a])\<rparr>)"

fun chunk_store_take_node ::
    "(u8 list \<Rightarrow> u64) \<Rightarrow> (u32 \<Rightarrow> key) \<Rightarrow> nat \<Rightarrow> chunks \<Rightarrow> naddr \<Rightarrow> chunks option"
  and take_subnodes ::
    "(u8 list \<Rightarrow> u64) \<Rightarrow> (u32 \<Rightarrow> key) \<Rightarrow> nat \<Rightarrow> chunks \<Rightarrow> naddr \<Rightarrow> nat \<Rightarrow> nat \<Rightarrow> chunks option" where
  "chunk_store_take_node xxh3 type_str 0 st a = None"
| "chunk_store_take_node xxh3 type_str (Suc f) st a =
     (case (hcells (heap st) a, hash_node xxh3 (Suc f) (heap st) a) of
        (Some c, Some node_hash) \<Rightarrow>
          (case map_get (seen_chunks st) node_hash of
             Some seen_node \<Rightarrow>
               (case (case hn_parent c of
                        None \<Rightarrow> Some (heap st)
                      | Some p \<Rightarrow> heap_replace_subnode (heap st) p a seen_node) of
                  None \<Rightarrow> None
                | Some h \<Rightarrow> map_option (\<lambda>h. st\<lparr>heap := h\<rparr>) (heap_node_free (Suc f) h a))
           | None \<Rightarrow>
               (let st = st\<lparr>seen_chunks := map_put (seen_chunks st) node_hash a\<rparr>;
                    st = store_append type_str st (hn_id c) a
                in take_subnodes xxh3 type_str f st a 0 (length (hn_subs c))))
      | _ \<Rightarrow> None)"
| "take_subnodes xxh3 type_str f st a i 0 = Some st"
| "take_subnodes xxh3 type_str f st a i (Suc n) =
     (case hcells (heap st) a of
        None \<Rightarrow> None
      | Some c \<Rightarrow>
          (case hn_subs c ! i of
             None \<Rightarrow> take_subnodes xxh3 type_str f st a (Suc i) n
           | Some b \<Rightarrow>
               (case chunk_store_take_node xxh3 type_str f st b of
                  None \<Rightarrow> None
                | Some st \<Rightarrow> take_subnodes xxh3 type_str f st a (Suc i) n)))"

fun node_count :: "node \<Rightarrow> nat" where
  "node_count (Node i r v ns re nt) =
     Suc (sum_list (map (\<lambda>s. case s of None \<Rightarrow> 0 | Some n \<Rightarrow> node_count n) ns))"

definition chunk_store_add_tree ::
  "(u8 list \<Rightarrow> u64) \<Rightarrow> (u32 \<Rightarrow> key) \<Rightarrow> chunks \<Rightarrow> tree option \<Rightarrow> chunks option" where
  "chunk_store_add_tree xxh3 type_str st tree =
     (case tree of None \<Rightarrow> Some st
      | Some t \<Rightarrow>
          (case root t of None \<Rightarrow> Some st
           | Some n \<Rightarrow>
               (case heap_clone (heap st) n of (a, h) \<Rightarrow>
                  chunk_store_take_node xxh3 type_str (node_count n) (st\<lparr>heap := h\<rparr>) a)))"

definition chunk_store_get_alternative_node ::
  "(u32 \<Rightarrow> key) \<Rightarrow> 'r source \<Rightarrow> chunks \<Rightarrow> node \<Rightarrow> 'r \<Rightarrow> node option \<times> 'r" where
  "chunk_store_get_alternative_node type_str rb st node s =
     (case map_get (chunk_store st) (type_str (node_id node)) of
        None \<Rightarrow> (None, s)
      | Some l \<Rightarrow>
          (case rb s (of_nat (length l)) of (w, s) \<Rightarrow>
             let prob = sint w
             in (if 0 \<le> prob \<and> nat prob < length l
                 then heap_read (hbrk (heap st)) (heap st) (l ! nat prob) else None, s)))"

text \<open>\<^verbatim>\<open>node_free_only_self\<close> for every node of every list; \<open>None\<close> is a double free.\<close>

fun free_only_self_all :: "nheap \<Rightarrow> naddr list \<Rightarrow> nheap option" where
  "free_only_self_all h [] = Some h"
| "free_only_self_all h (a # as) =
     (case hcells h a of None \<Rightarrow> None | Some _ \<Rightarrow> free_only_self_all (heap_free h a) as)"

fun clear_lists :: "naddr list map_base \<Rightarrow> nheap \<Rightarrow> key list \<Rightarrow> nheap option" where
  "clear_lists m h [] = Some h"
| "clear_lists m h (key # keys) =
     (case map_get m key of
        None \<Rightarrow> None
      | Some l \<Rightarrow> (case free_only_self_all h l of None \<Rightarrow> None | Some h \<Rightarrow> clear_lists m h keys))"

definition chunk_store_clear :: "chunks \<Rightarrow> chunks option" where
  "chunk_store_clear st =
     (case map_keys (chunk_store st) of
        None \<Rightarrow> None
      | Some keys \<Rightarrow> map_option (\<lambda>h. \<lparr>heap = h, chunk_store = map_deinit (chunk_store st),
            seen_chunks = map_deinit (seen_chunks st)\<rparr>) (clear_lists (chunk_store st) (heap st) keys))"

section \<open>Values of heap nodes\<close>

text \<open>\<open>dag h a n\<close>: the node at \<open>a\<close> stands for the tree \<open>n\<close>, up to the size fields; subtrees may be shared.\<close>

fun dag :: "nheap \<Rightarrow> naddr \<Rightarrow> node \<Rightarrow> bool"
  and dags :: "nheap \<Rightarrow> naddr option list \<Rightarrow> node option list \<Rightarrow> bool" where
  "dag h a (Node i r v ns re nt) =
     (case hcells h a of
        None \<Rightarrow> False
      | Some c \<Rightarrow> hn_id c = i \<and> hn_rule c = r \<and> hn_val c = v \<and> dags h (hn_subs c) ns)"
| "dags h [] [] = True"
| "dags h (None # as) (None # ns) = dags h as ns"
| "dags h (Some a # as) (Some n # ns) = (dag h a n \<and> dags h as ns)"
| "dags h _ _ = False"

lemma dags_all2: "dags h as ns = list_all2 (rel_option (dag h)) as ns"
  by (induction h as ns rule: dag_dags.induct(2)) auto

lemma all2_Some: "list_all2 (rel_option R) as ns \<Longrightarrow> Some m \<in> set ns \<Longrightarrow> \<exists>b. Some b \<in> set as \<and> R b m"
  by (induction rule: list_all2_induct) (auto simp: option_rel_Some2)

lemma dag_iff:
  "dag h a (Node i r v ns re nt) \<longleftrightarrow> (\<exists>c. hcells h a = Some c \<and> hn_id c = i \<and> hn_rule c = r \<and> hn_val c = v
     \<and> list_all2 (rel_option (dag h)) (hn_subs c) ns)"
  by (auto simp: dags_all2 split: option.splits)

declare dag.simps [simp del]

lemma dagE:
  assumes "dag h a (Node i r v ns re nt)"
  obtains c where "hcells h a = Some c" "hn_id c = i" "hn_rule c = r" "hn_val c = v"
    "list_all2 (rel_option (dag h)) (hn_subs c) ns"
  using assms unfolding dag_iff by blast

lemma dag_erase: "dag h a (erase n) = dag h a n"
proof (induction n arbitrary: a rule: node_induct)
  case (Node i r v ns re nt)
  have "rel_option (dag h) x (map_option erase s) = rel_option (dag h) x s" if "s \<in> set ns" for x s
    using Node that by (cases s; cases x) auto
  then have "list_all2 (rel_option (dag h)) xs (map (map_option erase) ns) = list_all2 (rel_option (dag h)) xs ns" for xs
    by (auto simp: list_all2_conv_all_nth)
  then show ?case by (simp add: dag_iff)
qed

lemma dag_unique: "dag h a n \<Longrightarrow> dag h a m \<Longrightarrow> erase n = erase m"
proof (induction n arbitrary: a m rule: node_induct)
  case (Node i r v ns re nt)
  obtain i' r' v' ns' re' nt' where m: "m = Node i' r' v' ns' re' nt'" by (cases m)
  have "map_option erase s = map_option erase s'"
    if "s \<in> set ns" "rel_option (dag h) x s" "rel_option (dag h) x s'" for x s s'
    using that(2,3) by (cases s; cases s'; cases x) (simp_all, use that(1) Node.IH in blast)
  then have eq: "map (map_option erase) ns = map (map_option erase) ns'"
    if "list_all2 (rel_option (dag h)) xs ns" "list_all2 (rel_option (dag h)) xs ns'" for xs
    using that list_all2_lengthD [OF that(1)] list_all2_lengthD [OF that(2)]
    by (intro nth_equalityI) (simp, metis (no_types, lifting) length_map list_all2_nthD nth_map nth_mem)
  from Node.prems show ?case unfolding m dag_iff using eq by fastforce
qed

lemma dag_cong: "erase n = erase m \<Longrightarrow> dag h a n = dag h a m"
  by (metis dag_erase)

fun height :: "node \<Rightarrow> nat" where
  "height (Node i r v ns re nt) = Suc (foldr max (map (\<lambda>s. case s of None \<Rightarrow> 0 | Some n \<Rightarrow> height n) ns) 0)"

lemma foldr_max_le: "foldr max xs 0 \<le> (k::nat) \<longleftrightarrow> (\<forall>x\<in>set xs. x \<le> k)"
  by (induction xs) auto

lemma foldr_max_attained: "foldr max xs 0 = (0::nat) \<or> foldr max xs 0 \<in> set xs"
  by (induction xs) (auto simp: max_def)

lemma height_le_iff: "height (Node i r v ns re nt) \<le> Suc f \<longleftrightarrow> (\<forall>m. Some m \<in> set ns \<longrightarrow> height m \<le> f)"
  by (auto simp: foldr_max_le split: option.splits)

lemma height_pos: "0 < height n"
  by (cases n) simp

lemma height_child: "1 < height (Node i r v ns re nt) \<Longrightarrow>
  \<exists>m. Some m \<in> set ns \<and> Suc (height m) = height (Node i r v ns re nt)"
  using foldr_max_attained [of "map (\<lambda>s. case s of None \<Rightarrow> 0 | Some n \<Rightarrow> height n) ns"]
  by (auto split: option.splits)

lemma height_erase: "height (erase n) = height n"
proof (induction n rule: node_induct)
  case (Node i r v ns re nt)
  have "(case map_option erase s of None \<Rightarrow> 0 | Some n \<Rightarrow> height n) = (case s of None \<Rightarrow> 0 | Some n \<Rightarrow> height n)"
    if "s \<in> set ns" for s using Node that by (cases s) auto
  then show ?case by (simp cong: map_cong)
qed

lemma height_less: "Some m \<in> set ns \<Longrightarrow> height m < height (Node i r v ns re nt)"
  using height_le_iff [of i r v ns re nt "height (Node i r v ns re nt) - 1"] height_pos [of "Node i r v ns re nt"]
  by (simp del: height.simps) fastforce

lemma dag_height: "dag h a n \<Longrightarrow> dag h a m \<Longrightarrow> height n = height m"
  by (metis dag_unique height_erase)

lemma height_le_count: "height n \<le> node_count n"
proof (induction n rule: node_induct)
  case (Node i r v ns re nt)
  let ?c = "\<lambda>s. case s of None \<Rightarrow> 0 | Some n \<Rightarrow> node_count n"
  have "height m \<le> sum_list (map ?c ns)" if "Some m \<in> set ns" for m
    using Node that member_le_sum_list [of "?c (Some m)" "map ?c ns"] by force
  then show ?case using height_le_iff by (metis node_count.simps)
qed

text \<open>The nodes below a stored node are bounded by the addresses in use, so its tree can be read back.\<close>

lemma dag_level:
  assumes "dag h a n" "0 < k" "k \<le> height n"
  shows "\<exists>x m. dag h x m \<and> height m = k"
  using assms
proof (induction n arbitrary: a rule: node_induct)
  case (Node i r v ns re nt)
  show ?case
  proof (cases "k = height (Node i r v ns re nt)")
    case False
    then have "1 < height (Node i r v ns re nt)" using Node.prems by linarith
    then obtain m where m: "Some m \<in> set ns" "Suc (height m) = height (Node i r v ns re nt)"
      using height_child by blast
    obtain c where "hcells h a = Some c" "hn_id c = i" "hn_rule c = r" "hn_val c = v"
      "list_all2 (rel_option (dag h)) (hn_subs c) ns" by (rule dagE [OF Node.prems(1)])
    then obtain b where "dag h b m" using all2_Some [OF _ m(1)] by blast
    then show ?thesis using Node.IH [OF m(1)] Node.prems m(2) False by fastforce
  qed (use Node.prems in blast)
qed

lemma dag_height_bound:
  assumes "dag h a n" "dom (hcells h) \<subseteq> {..<B}"
  shows "height n \<le> B"
proof -
  have "\<forall>k\<in>{1..height n}. \<exists>x. \<exists>m. dag h x m \<and> height m = k" using dag_level [OF assms(1)] by auto
  then obtain f where f: "\<forall>k\<in>{1..height n}. \<exists>m. dag h (f k) m \<and> height m = k" by metis
  then have "inj_on f {1..height n}" by (intro inj_onI) (metis dag_height)
  moreover have "f k \<in> dom (hcells h)" if k: "k \<in> {1..height n}" for k
  proof -
    obtain m where "dag h (f k) m" using f k by blast
    then show ?thesis by (cases m) (auto simp: dag_iff)
  qed
  then have "f ` {1..height n} \<subseteq> {..<B}" using assms(2) by blast
  ultimately show ?thesis using card_inj_on_le [of f "{1..height n}" "{..<B}"] by simp
qed

lemma heap_read_dag:
  "dag h a n \<Longrightarrow> height n \<le> f \<Longrightarrow> \<exists>m. heap_read f h a = Some m \<and> erase m = erase n"
proof (induction n arbitrary: a f rule: node_induct)
  case (Node i r v ns re nt)
  then obtain g where f: "f = Suc g" by (cases f) auto
  have hm: "\<forall>m. Some m \<in> set ns \<longrightarrow> height m \<le> g" using Node.prems(2) height_le_iff unfolding f by blast
  have sub: "\<exists>ms. heap_read_subnodes g h as = Some ms \<and> map (map_option erase) ms = map (map_option erase) ns'"
    if "list_all2 (rel_option (dag h)) as ns'" "set ns' \<subseteq> set ns" for as ns'
    using that
  proof (induction as ns' rule: list_all2_induct)
    case (Cons x xs y ys)
    then obtain ms where ms: "heap_read_subnodes g h xs = Some ms" "map (map_option erase) ms = map (map_option erase) ys"
      by auto
    show ?case
    proof (cases y)
      case (Some m)
      then obtain b where b: "x = Some b" "dag h b m" using Cons(1) by (cases x) auto
      have "Some m \<in> set ns" using Cons Some by auto
      then obtain m' where "heap_read g h b = Some m'" "erase m' = erase m" using Node.IH [OF _ b(2)] hm by blast
      then show ?thesis using ms b Some by auto
    qed (use Cons ms in \<open>auto split: option.splits\<close>)
  qed simp
  obtain c where c: "hcells h a = Some c" "hn_id c = i" "hn_rule c = r" "hn_val c = v"
    "list_all2 (rel_option (dag h)) (hn_subs c) ns" by (rule dagE [OF Node.prems(1)])
  obtain ms where "heap_read_subnodes g h (hn_subs c) = Some ms" "map (map_option erase) ms = map (map_option erase) ns"
    using sub [OF c(5)] by blast
  then show ?case using c by (simp add: f)
qed

text \<open>The bytes hashed for a tree without NULL subnodes.\<close>

fun node_bytes :: "node \<Rightarrow> u8 list" where
  "node_bytes (Node i r v ns re nt) =
     le32 i @ le32 r @ le32 (of_nat (length v)) @ v @ concat (map (\<lambda>s. case s of None \<Rightarrow> [] | Some n \<Rightarrow> node_bytes n) ns)"

definition node_key :: "(u8 list \<Rightarrow> u64) \<Rightarrow> node \<Rightarrow> key" where
  "node_key xxh3 n = uint64_to_hex (xxh3 (node_bytes n))"

lemma node_bytes_erase: "node_bytes (erase n) = node_bytes n"
proof (induction n rule: node_induct)
  case (Node i r v ns re nt)
  have "(case map_option erase s of None \<Rightarrow> [] | Some n \<Rightarrow> node_bytes n) = (case s of None \<Rightarrow> [] | Some n \<Rightarrow> node_bytes n)"
    if "s \<in> set ns" for s using Node that by (cases s) auto
  then show ?case by (simp cong: map_cong)
qed

lemma node_key_cong: "erase n = erase m \<Longrightarrow> node_key xxh3 n = node_key xxh3 m"
  unfolding node_key_def by (metis node_bytes_erase)

lemma node_update_hash_dag:
  "dag h a n \<Longrightarrow> full_node n \<Longrightarrow> height n \<le> f \<Longrightarrow> node_update_hash f h a buf = Some (buf @ node_bytes n)"
proof (induction n arbitrary: a f buf rule: node_induct)
  case (Node i r v ns re nt)
  then obtain g where f: "f = Suc g" by (cases f) auto
  have hm: "\<forall>m. Some m \<in> set ns \<longrightarrow> height m \<le> g" using Node.prems(3) height_le_iff unfolding f by blast
  have full: "None \<notin> set ns" "\<forall>m. Some m \<in> set ns \<longrightarrow> full_node m" using Node.prems(2) by auto
  have sub: "update_hash_subnodes g h as b = Some (b @ concat (map (\<lambda>s. case s of None \<Rightarrow> [] | Some n \<Rightarrow> node_bytes n) ns'))"
    if "list_all2 (rel_option (dag h)) as ns'" "set ns' \<subseteq> set ns" for as ns' b
    using that
  proof (induction as ns' arbitrary: b rule: list_all2_induct)
    case (Cons x xs y ys)
    then obtain m where m: "y = Some m" "Some m \<in> set ns" using full by (cases y) auto
    then obtain c where c: "x = Some c" "dag h c m" using Cons(1) by (cases x) auto
    have "node_update_hash g h c b = Some (b @ node_bytes m)" using Node.IH [OF m(2) c(2)] full hm m by blast
    then show ?case using Cons m c by simp
  qed simp
  obtain c where c: "hcells h a = Some c" "hn_id c = i" "hn_rule c = r" "hn_val c = v"
    "list_all2 (rel_option (dag h)) (hn_subs c) ns" by (rule dagE [OF Node.prems(1)])
  show ?case using c sub [OF c(5)] by (simp add: f)
qed

lemma hash_node_dag:
  "dag h a n \<Longrightarrow> full_node n \<Longrightarrow> height n \<le> f \<Longrightarrow> hash_node xxh3 f h a = Some (node_key xxh3 n)"
  by (simp add: hash_node_def node_update_hash_dag node_key_def)

section \<open>Private trees\<close>

text \<open>
  \<open>own h p a n S\<close>: the node at \<open>a\<close> is the root of the tree \<open>n\<close>, its parent pointer is \<open>p\<close>, its nodes
  lie at the distinct addresses \<open>S\<close> and their parent pointers are right.
\<close>

fun own :: "nheap \<Rightarrow> naddr option \<Rightarrow> naddr \<Rightarrow> node \<Rightarrow> naddr set \<Rightarrow> bool"
  and owns :: "nheap \<Rightarrow> naddr \<Rightarrow> naddr option list \<Rightarrow> node option list \<Rightarrow> naddr set \<Rightarrow> bool" where
  "own h p a (Node i r v ns re nt) S =
     (case hcells h a of
        None \<Rightarrow> False
      | Some c \<Rightarrow> hn_id c = i \<and> hn_rule c = r \<and> hn_val c = v \<and> hn_parent c = p \<and> a \<in> S
          \<and> owns h a (hn_subs c) ns (S - {a}))"
| "owns h p [] [] S = (S = {})"
| "owns h p (None # as) (None # ns) S = owns h p as ns S"
| "owns h p (Some b # as) (Some n # ns) S =
     (\<exists>S1 S2. S = S1 \<union> S2 \<and> S1 \<inter> S2 = {} \<and> own h (Some p) b n S1 \<and> owns h p as ns S2)"
| "owns h p _ _ S = False"

lemma own_iff:
  "own h p a (Node i r v ns re nt) S \<longleftrightarrow> (\<exists>c. hcells h a = Some c \<and> hn_id c = i \<and> hn_rule c = r \<and> hn_val c = v
     \<and> hn_parent c = p \<and> a \<in> S \<and> owns h a (hn_subs c) ns (S - {a}))"
  by (auto split: option.splits)

declare own.simps [simp del]

lemma owns_Nil: "owns h p as [] S \<longleftrightarrow> as = [] \<and> S = {}"
  by (cases "(h, p, as, [] :: node option list, S)" rule: owns.cases) auto

lemma owns_None: "owns h p as (None # ns) S \<longleftrightarrow> (\<exists>as'. as = None # as' \<and> owns h p as' ns S)"
  by (cases "(h, p, as, None # ns, S)" rule: owns.cases) auto

lemma owns_Some: "owns h p as (Some n # ns) S \<longleftrightarrow> (\<exists>b as' S1 S2. as = Some b # as' \<and> S = S1 \<union> S2 \<and> S1 \<inter> S2 = {}
    \<and> own h (Some p) b n S1 \<and> owns h p as' ns S2)"
  by (cases "(h, p, as, Some n # ns, S)" rule: owns.cases) auto

lemma own_root: "own h p a n S \<Longrightarrow> a \<in> S \<and> (\<exists>c. hcells h a = Some c \<and> hn_parent c = p)"
  by (cases n) (auto simp: own_iff)

lemma own_dag: "own h p a n S \<Longrightarrow> dag h a n"
  and owns_dags: "owns h q as ns U \<Longrightarrow> dags h as ns"
proof (induction h p a n S and h q as ns U rule: own_owns.induct)
  case (1 h p a i r v ns re nt S)
  then show ?case by (auto simp: own_iff dag.simps)
qed auto

lemma own_frame: "own h p a n S \<Longrightarrow> (\<And>x. x \<in> S \<Longrightarrow> hcells h' x = hcells h x) \<Longrightarrow> own h' p a n S"
  and owns_frame: "owns h q as ns U \<Longrightarrow> (\<And>x. x \<in> U \<Longrightarrow> hcells h' x = hcells h x) \<Longrightarrow> owns h' q as ns U"
proof (induction h p a n S and h q as ns U rule: own_owns.induct)
  case (1 h p a i r v ns re nt S)
  obtain c where c: "hcells h a = Some c" "hn_id c = i" "hn_rule c = r" "hn_val c = v" "hn_parent c = p" "a \<in> S"
    "owns h a (hn_subs c) ns (S - {a})" using 1(2) unfolding own_iff by blast
  have "owns h' a (hn_subs c) ns (S - {a})" by (rule 1(1) [OF c(1) c(7)]) (use 1(3) in auto)
  then show ?case unfolding own_iff using c 1(3) [OF c(6)] by simp
next
  case (4 h p b as n ns S)
  then obtain S1 S2 where S: "S = S1 \<union> S2" "S1 \<inter> S2 = {}" "own h (Some p) b n S1" "owns h p as ns S2" by auto
  have "own h' (Some p) b n S1" by (rule 4(1) [OF S(3)]) (use 4(4) S(1) in auto)
  moreover have "owns h' p as ns S2" by (rule 4(2) [OF S(4)]) (use 4(4) S(1) in auto)
  ultimately show ?case using S(1,2) by auto
qed auto

lemma own_reparent:
  assumes "own h p a n S" "hcells h a = Some c" "hcells h' a = Some (c\<lparr>hn_parent := q\<rparr>)"
    "\<And>x. x \<in> S \<Longrightarrow> x \<noteq> a \<Longrightarrow> hcells h' x = hcells h x"
  shows "own h' q a n S"
proof (cases n)
  case (Node i r v ns re nt)
  have "owns h' a (hn_subs c) ns (S - {a})"
    by (rule owns_frame [of h]) (use assms in \<open>auto simp: own_iff Node\<close>)
  then show ?thesis using assms unfolding own_iff Node by auto
qed

text \<open>A private tree points to its own nodes only.\<close>

lemma own_closed: "own h p a n S \<Longrightarrow> x \<in> S \<Longrightarrow> hcells h x = Some c \<Longrightarrow> Some y \<in> set (hn_subs c) \<Longrightarrow> y \<in> S - {a}"
  and owns_closed: "owns h q as ns U \<Longrightarrow>
    (x \<in> U \<longrightarrow> hcells h x = Some c \<longrightarrow> Some y \<in> set (hn_subs c) \<longrightarrow> y \<in> U) \<and> (Some y \<in> set as \<longrightarrow> y \<in> U)"
proof (induction h p a n S and h q as ns U rule: own_owns.induct)
  case (1 h p a i r v ns re nt S)
  then show ?case by (auto simp: own_iff)
next
  case (4 h p b as n ns S)
  then show ?case using own_root by fastforce
qed auto

lemma owns_length: "owns h p as ns S \<Longrightarrow> length as = length ns"
  by (induction h p as ns S rule: own_owns.induct(2)) auto

lemma own_alive: "own h p a n S \<Longrightarrow> x \<in> S \<Longrightarrow> hcells h x \<noteq> None"
  and owns_alive: "owns h q as ns U \<Longrightarrow> x \<in> U \<Longrightarrow> hcells h x \<noteq> None"
proof (induction h p a n S and h q as ns U rule: own_owns.induct)
  case (1 h p a i r v ns re nt S)
  then show ?case by (cases "x = a") (auto simp: own_iff)
qed auto

text \<open>Freeing a private tree frees exactly its nodes, each once.\<close>

definition heap_minus :: "nheap \<Rightarrow> naddr set \<Rightarrow> nheap" where
  "heap_minus h S = h\<lparr>hcells := (\<lambda>x. if x \<in> S then None else hcells h x)\<rparr>"

lemma heap_minus_simps [simp]:
  "hcells (heap_minus h S) x = (if x \<in> S then None else hcells h x)" "hbrk (heap_minus h S) = hbrk h"
  "heap_minus (heap_minus h S) S' = heap_minus h (S \<union> S')" "heap_minus h {} = h"
  by (auto simp: heap_minus_def fun_eq_iff intro!: nheap.equality)

lemma heap_free_minus: "heap_free h a = heap_minus h {a}"
  by (auto simp: heap_free_def heap_minus_def fun_eq_iff intro!: nheap.equality)

lemma heap_free_subnodes_own:
  assumes "\<And>m h p a S. Some m \<in> set ns \<Longrightarrow> own h p a m S \<Longrightarrow> heap_node_free f h a = Some (heap_minus h S)"
  shows "owns h q as ns U \<Longrightarrow> heap_free_subnodes f h as = Some (heap_minus h U)"
  using assms
proof (induction ns arbitrary: h as U)
  case (Cons s ns)
  have IH: "owns h q as ns U \<Longrightarrow> heap_free_subnodes f h as = Some (heap_minus h U)" for h as U
    by (rule Cons.IH) (assumption, rule Cons.prems(2), auto)
  show ?case
  proof (cases s)
    case None
    then show ?thesis using Cons.prems(1) IH by (auto simp: owns_None)
  next
    case (Some n)
    obtain b as' S1 S2 where S: "as = Some b # as'" "U = S1 \<union> S2" "S1 \<inter> S2 = {}" "own h (Some q) b n S1" "owns h q as' ns S2"
      using Cons.prems(1) unfolding Some owns_Some by blast
    have "heap_node_free f h b = Some (heap_minus h S1)" by (rule Cons.prems(2) [OF _ S(4)]) (use Some in simp)
    moreover have "owns (heap_minus h S1) q as' ns S2" by (rule owns_frame [OF S(5)]) (use S(3) in auto)
    then have "heap_free_subnodes f (heap_minus h S1) as' = Some (heap_minus (heap_minus h S1) S2)" by (rule IH)
    ultimately show ?thesis using S(1,2) by simp
  qed
qed (simp add: owns_Nil)

lemma heap_node_free_own: "own h p a n S \<Longrightarrow> height n \<le> f \<Longrightarrow> heap_node_free f h a = Some (heap_minus h S)"
proof (induction n arbitrary: h p a S f rule: node_induct)
  case (Node i r v ns re nt)
  then obtain g where f: "f = Suc g" by (cases f) auto
  obtain c where c: "hcells h a = Some c" "a \<in> S" "owns h a (hn_subs c) ns (S - {a})"
    using Node.prems(1) unfolding own_iff by blast
  have "heap_free_subnodes g h (hn_subs c) = Some (heap_minus h (S - {a}))"
    by (rule heap_free_subnodes_own [OF _ c(3)], rule Node.IH) (use Node.prems(2) height_le_iff f in blast)+
  then show ?case using c by (simp add: f heap_free_minus insert_absorb)
qed

text \<open>Cloning a well-formed tree makes a private tree at fresh addresses.\<close>

lemma heap_clone_own:
  "wf_node n \<Longrightarrow> heap_clone h n = (a, h') \<Longrightarrow>
     a = hbrk h \<and> hbrk h < hbrk h' \<and> own h' None a n {hbrk h..<hbrk h'} \<and> (\<forall>x<hbrk h. hcells h' x = hcells h x)
     \<and> (\<forall>x\<ge>hbrk h'. hcells h' x = hcells h x) \<and> hbrk h' = hbrk h + node_count n"
  and heap_clone_subnodes_owns:
  "(\<forall>m. Some m \<in> set ns \<longrightarrow> wf_node m) \<Longrightarrow> hcells h q = Some c \<Longrightarrow> q < hbrk h \<Longrightarrow> hn_id c \<noteq> 0 \<Longrightarrow>
     hn_subs c = xs @ replicate (length ns) None \<Longrightarrow> k = length xs \<Longrightarrow> heap_clone_subnodes h q k ns = h' \<Longrightarrow>
     \<exists>as. hcells h' q = Some (c\<lparr>hn_subs := xs @ as\<rparr>) \<and> hbrk h \<le> hbrk h' \<and> owns h' q as ns {hbrk h..<hbrk h'}
       \<and> (\<forall>x<hbrk h. x \<noteq> q \<longrightarrow> hcells h' x = hcells h x) \<and> (\<forall>x\<ge>hbrk h'. hcells h' x = hcells h x)
       \<and> hbrk h' = hbrk h + sum_list (map (\<lambda>s. case s of None \<Rightarrow> 0 | Some n \<Rightarrow> node_count n) ns)"
proof (induction h n and h q k ns arbitrary: a h' and c xs h' rule: heap_clone_heap_clone_subnodes.induct)
  case (1 h i r v ns re nt)
  let ?c = "\<lparr>hn_id = i, hn_rule = r, hn_val = v, hn_parent = None,
          hn_subs = (if i = 0 then [] else replicate (length ns) None), hn_re = re, hn_nt = nt\<rparr>"
  define h1 where "h1 = h\<lparr>hcells := (hcells h)(hbrk h \<mapsto> ?c), hbrk := Suc (hbrk h)\<rparr>"
  have al: "heap_alloc h ?c = (hbrk h, h1)" by (simp add: heap_alloc_def h1_def)
  have a: "a = hbrk h" and h': "heap_clone_subnodes h1 (hbrk h) 0 ns = h'" using 1(3) by (auto simp: al)
  have h1: "hcells h1 (hbrk h) = Some ?c" "hbrk h1 = Suc (hbrk h)" "\<And>x. x \<noteq> hbrk h \<Longrightarrow> hcells h1 x = hcells h x"
    by (auto simp: h1_def)
  show ?case
  proof (cases "i = 0")
    case True
    then have "ns = []" using 1(2) by simp
    then have "h' = h1" using h' by simp
    then show ?thesis using h1 a True \<open>ns = []\<close> by (auto simp: own_iff)
  next
    case False
    obtain as where as: "hcells h' (hbrk h) = Some (?c\<lparr>hn_subs := as\<rparr>)" "Suc (hbrk h) \<le> hbrk h'"
      "owns h' (hbrk h) as ns {Suc (hbrk h)..<hbrk h'}"
      "\<forall>x<Suc (hbrk h). x \<noteq> hbrk h \<longrightarrow> hcells h' x = hcells h1 x" "\<forall>x\<ge>hbrk h'. hcells h' x = hcells h1 x"
      "hbrk h' = Suc (hbrk h) + sum_list (map (\<lambda>s. case s of None \<Rightarrow> 0 | Some n \<Rightarrow> node_count n) ns)"
      using 1(1) [OF al [symmetric], of ?c "[]" h'] 1(2) h1(1,2) h' False by auto
    have "{hbrk h..<hbrk h'} - {hbrk h} = {Suc (hbrk h)..<hbrk h'}" by auto
    then show ?thesis using as h1(3) a by (auto simp: own_iff)
  qed
next
  case (3 h q k ns)
  obtain as where "hcells h' q = Some (c\<lparr>hn_subs := (xs @ [None]) @ as\<rparr>)" "hbrk h \<le> hbrk h'" "owns h' q as ns {hbrk h..<hbrk h'}"
       "\<forall>x<hbrk h. x \<noteq> q \<longrightarrow> hcells h' x = hcells h x" "\<forall>x\<ge>hbrk h'. hcells h' x = hcells h x"
       "hbrk h' = hbrk h + sum_list (map (\<lambda>s. case s of None \<Rightarrow> 0 | Some n \<Rightarrow> node_count n) ns)"
    using 3(1) [of c "xs @ [None]" h'] 3(2-) by auto
  then show ?case by (intro exI [of _ "None # as"]) auto
next
  case (4 h q k n ns)
  obtain b h1 where cl: "heap_clone h n = (b, h1)" by (cases "heap_clone h n")
  have b: "b = hbrk h" "hbrk h < hbrk h1" "own h1 None b n {hbrk h..<hbrk h1}" "\<forall>x<hbrk h. hcells h1 x = hcells h x"
     "\<forall>x\<ge>hbrk h1. hcells h1 x = hcells h x" "hbrk h1 = hbrk h + node_count n"
    using 4(1) [OF _ cl] 4(3) by auto
  obtain d where d: "hcells h1 b = Some d" "hn_parent d = None" using own_root [OF b(3)] by blast
  have q: "hcells h1 q = Some c" "q \<noteq> b" using b(1,4) 4(4,5) by auto
  define h2 where "h2 = heap_set_subnode h1 q k b"
  have h2: "hcells h2 q = Some (c\<lparr>hn_subs := (xs @ [Some b]) @ replicate (length ns) None\<rparr>)"
      "hcells h2 b = Some (d\<lparr>hn_parent := Some q\<rparr>)" "hbrk h2 = hbrk h1" "\<And>x. x \<noteq> q \<Longrightarrow> x \<noteq> b \<Longrightarrow> hcells h2 x = hcells h1 x"
    using q d 4(6-8) by (auto simp: h2_def heap_set_subnode_def heap_put_def Let_def list_update_append)
  have own2: "own h2 (Some q) b n {hbrk h..<hbrk h1}" by (rule own_reparent [OF b(3) d(1) h2(2)]) (use h2(4) 4(5) in auto)
  have "heap_clone_subnodes h2 q (Suc k) ns = h'" using 4(9) by (simp add: cl h2_def)
  then obtain as where as: "hcells h' q = Some (c\<lparr>hn_subs := (xs @ [Some b]) @ as\<rparr>)" "hbrk h1 \<le> hbrk h'"
      "owns h' q as ns {hbrk h1..<hbrk h'}"
      "\<forall>x<hbrk h1. x \<noteq> q \<longrightarrow> hcells h' x = hcells h2 x" "\<forall>x\<ge>hbrk h'. hcells h' x = hcells h2 x"
      "hbrk h' = hbrk h1 + sum_list (map (\<lambda>s. case s of None \<Rightarrow> 0 | Some n \<Rightarrow> node_count n) ns)"
    using 4(2) [OF cl [symmetric], folded h2_def, of _ "xs @ [Some b]" h'] 4(3,5,6,8) h2(1,3) b(2) by auto
  have "own h' (Some q) b n {hbrk h..<hbrk h1}" by (rule own_frame [OF own2]) (use as(4) 4(5) in auto)
  moreover have "{hbrk h..<hbrk h'} = {hbrk h..<hbrk h1} \<union> {hbrk h1..<hbrk h'}" using b(2) as(2) by auto
  ultimately have "owns h' q (Some b # as) (Some n # ns) {hbrk h..<hbrk h'}"
    unfolding owns.simps by (intro exI [of _ "{hbrk h..<hbrk h1}"] exI [of _ "{hbrk h1..<hbrk h'}"]) (simp add: as(3))
  then show ?case using as h2(4) b 4(5) by (intro exI [of _ "Some b # as"]) auto
next
  case (2 h q k)
  then show ?case by (intro exI [of _ "[]"]) auto
qed

end
