(* ===== verification/GM_Store.thy ===== *)
theory GM_Store
  imports GM_Chunk
begin

text \<open>
  Correctness of the chunk store of \<open>GM_Chunk\<close>: the invariant of the shared heap and of the two hash
  tables, that adding a tree and clearing the store never touch a freed node, that every distinct
  subtree is kept exactly once, and that the alternative nodes handed to the splicing mutation are
  trees of the right type.
\<close>

section \<open>Invariant\<close>

text \<open>
  A class of trees the store works on: without NULL subnodes, closed under subnodes, and on which the
  hash has no collisions.
\<close>

definition chunk_class :: "(u8 list \<Rightarrow> u64) \<Rightarrow> node set \<Rightarrow> bool" where
  "chunk_class xxh3 T \<longleftrightarrow> (\<forall>n\<in>T. full_node n \<and> wf_node n \<and> (\<forall>m. Some m \<in> set (subnodes n) \<longrightarrow> m \<in> T))
     \<and> (\<forall>n\<in>T. \<forall>m\<in>T. node_key xxh3 n = node_key xxh3 m \<longrightarrow> erase n = erase m)"

definition stored :: "chunks \<Rightarrow> naddr set" where
  "stored st = {a. \<exists>k l. map_get (chunk_store st) k = Some l \<and> a \<in> set l}"

text \<open>
  The live nodes are the stored ones and the private ones in \<open>P\<close>.  Every stored node stands for a tree
  of the class and is the entry for its hash; the list of a type holds distinct nodes of that type.
\<close>

definition chunk_inv :: "(u8 list \<Rightarrow> u64) \<Rightarrow> (u32 \<Rightarrow> key) \<Rightarrow> node set \<Rightarrow> chunks \<Rightarrow> naddr set \<Rightarrow> bool" where
  "chunk_inv xxh3 type_str T st P \<longleftrightarrow>
     map_ok (seen_chunks st) \<and> map_ok (chunk_store st)
     \<and> dom (hcells (heap st)) = stored st \<union> P \<and> stored st \<inter> P = {} \<and> stored st \<union> P \<subseteq> {..<hbrk (heap st)}
     \<and> nnodes (seen_chunks st) + card P \<le> hbrk (heap st) \<and> nnodes (chunk_store st) + card P \<le> hbrk (heap st)
     \<and> (\<forall>k l. map_get (chunk_store st) k = Some l \<longrightarrow> distinct l
          \<and> (\<forall>a\<in>set l. \<exists>c. hcells (heap st) a = Some c \<and> type_str (hn_id c) = k))
     \<and> (\<forall>a\<in>stored st. \<exists>n\<in>T. dag (heap st) a n \<and> map_get (seen_chunks st) (node_key xxh3 n) = Some a)
     \<and> (\<forall>k a. map_get (seen_chunks st) k = Some a \<longrightarrow> a \<in> stored st \<and> (\<exists>n\<in>T. dag (heap st) a n \<and> k = node_key xxh3 n))"

lemma nnodes_put:
  assumes "map_ok m" "nnodes m < 2 ^ 31"
  shows "nnodes (map_put m k v) = (if map_get m k = None then Suc (nnodes m) else nnodes m)"
proof -
  have card: "nnodes m = card (dom (map_abs m)) \<and> finite (dom (map_abs m))" if "map_ok m" for m :: "'v map_base"
  proof -
    have "dom (map_abs m) = set (map mn_key (map_entries m))" using map_abs_None [of m] by (auto simp: dom_def)
    then show ?thesis using that distinct_card [of "map mn_key (map_entries m)"] by (simp add: map_ok_alt)
  qed
  have ok: "map_ok (map_put m k v)" by (rule rxi.ok_put [OF assms])
  have "map_abs (map_put m k v) = (map_abs m)(k \<mapsto> v)"
  proof (rule ext)
    fix x
    show "map_abs (map_put m k v) x = ((map_abs m)(k \<mapsto> v)) x"
      using rxi.get_put [OF assms, of k v x] map_get_abs [OF ok, of x] map_get_abs [OF assms(1), of x] by simp
  qed
  then have "dom (map_abs (map_put m k v)) = insert k (dom (map_abs m))" by simp
  then show ?thesis using card [OF ok] card [OF assms(1)] map_get_abs [OF assms(1), of k]
    by (auto simp: card_insert_if)
qed

lemma store_append_spec:
  assumes "map_ok (chunk_store st)" "nnodes (chunk_store st) + 1 < 2 ^ 31" "st' = store_append type_str st i a"
  shows "heap st' = heap st" "seen_chunks st' = seen_chunks st" "map_ok (chunk_store st')"
    "nnodes (chunk_store st') \<le> nnodes (chunk_store st) + 1"
    "map_get (chunk_store st') k = (if k = type_str i then
       Some ((case map_get (chunk_store st) k of None \<Rightarrow> [] | Some l \<Rightarrow> l) @ [a]) else map_get (chunk_store st) k)"
proof -
  define m where "m = (if map_get (chunk_store st) (type_str i) = None
    then map_put (chunk_store st) (type_str i) [] else chunk_store st)"
  have room: "nnodes (chunk_store st) < 2 ^ 31" using assms(2) by simp
  note m = rxi.get_or_put [OF assms(1) room m_def]
  have nm: "nnodes m \<le> nnodes (chunk_store st) + 1" unfolding m_def using nnodes_put [OF assms(1) room] by simp
  then have room': "nnodes m < 2 ^ 31" using assms(2) by linarith
  define l where "l = (case map_get (chunk_store st) (type_str i) of None \<Rightarrow> [] | Some l \<Rightarrow> l)"
  have st': "st' = st\<lparr>chunk_store := map_put m (type_str i) (l @ [a])\<rparr>"
    using m(2) by (simp add: assms(3) store_append_def Let_def m_def [symmetric] l_def)
  show "heap st' = heap st" "seen_chunks st' = seen_chunks st" by (simp_all add: st')
  show "map_ok (chunk_store st')" unfolding st' using rxi.ok_put [OF m(1) room'] by simp
  show "nnodes (chunk_store st') \<le> nnodes (chunk_store st) + 1"
    using nnodes_put [OF m(1) room', of "type_str i" "l @ [a]"] m(2) nm by (simp add: st')
  show "map_get (chunk_store st') k = (if k = type_str i then
       Some ((case map_get (chunk_store st) k of None \<Rightarrow> [] | Some l \<Rightarrow> l) @ [a]) else map_get (chunk_store st) k)"
    using rxi.get_put [OF m(1) room', of "type_str i" "l @ [a]" k] m(3) [of k] by (simp add: st' l_def)
qed

section \<open>Patched heaps\<close>

text \<open>
  Taking the private tree at \<open>a\<close> with the addresses \<open>S\<close> changes the rest of the heap in one place: the
  slot \<open>i\<close> of the parent \<open>p\<close>, the only pointer into the private tree, is pointed at the stored copy \<open>b\<close>.
\<close>

definition refs_only :: "nheap \<Rightarrow> naddr set \<Rightarrow> naddr option \<Rightarrow> nat \<Rightarrow> bool" where
  "refs_only h S p i \<longleftrightarrow> (\<forall>x c j y. hcells h x = Some c \<longrightarrow> x \<notin> S \<longrightarrow> j < length (hn_subs c) \<longrightarrow>
     hn_subs c ! j = Some y \<longrightarrow> y \<in> S \<longrightarrow> p = Some x \<and> j = i)"

definition slot :: "nheap \<Rightarrow> naddr option \<Rightarrow> naddr \<Rightarrow> nat \<Rightarrow> bool" where
  "slot h p a i \<longleftrightarrow> (\<forall>q. p = Some q \<longrightarrow> (\<exists>c. hcells h q = Some c \<and> i < length (hn_subs c) \<and> hn_subs c ! i = Some a))"

definition same_head :: "hnode \<Rightarrow> hnode \<Rightarrow> bool" where
  "same_head c c' \<longleftrightarrow> hn_id c' = hn_id c \<and> hn_rule c' = hn_rule c \<and> hn_val c' = hn_val c"

definition patched :: "nheap \<Rightarrow> nheap \<Rightarrow> naddr set \<Rightarrow> naddr option \<Rightarrow> nat \<Rightarrow> naddr \<Rightarrow> bool" where
  "patched h h' S p i b \<longleftrightarrow> (\<forall>x. x \<notin> S \<longrightarrow> rel_option (\<lambda>c c'. same_head c c' \<and>
     hn_subs c' = (if p = Some x then (hn_subs c)[i := Some b] else hn_subs c)) (hcells h x) (hcells h' x))"

lemma patchedD:
  assumes "patched h h' S p i b" "x \<notin> S" "hcells h x = Some c"
  obtains c' where "hcells h' x = Some c'" "same_head c c'"
    "hn_subs c' = (if p = Some x then (hn_subs c)[i := Some b] else hn_subs c)"
proof -
  have "rel_option (\<lambda>c c'. same_head c c' \<and>
     hn_subs c' = (if p = Some x then (hn_subs c)[i := Some b] else hn_subs c)) (hcells h x) (hcells h' x)"
    using assms(1,2) unfolding patched_def by blast
  then show thesis using assms(3) that by (cases "hcells h' x") simp_all
qed

lemma list_all2_patch:
  assumes "list_all2 R xs ns" "length ys = length xs" "\<And>j. j < length xs \<Longrightarrow> R (xs ! j) (ns ! j) \<Longrightarrow> R' (ys ! j) (ns ! j)"
  shows "list_all2 R' ys ns"
  using assms by (simp add: list_all2_conv_all_nth)

lemma dag_patched:
  assumes h: "patched h h' S p i b" "refs_only h S p i" "slot h p a i" "dag h a n" "dag h' b n"
    and "x \<notin> S" "dag h x m"
  shows "dag h' x m"
  using assms(6-)
proof (induction m arbitrary: x rule: node_induct)
  case (Node k r v ns re nt)
  obtain c where c: "hcells h x = Some c" "hn_id c = k" "hn_rule c = r" "hn_val c = v"
    "list_all2 (rel_option (dag h)) (hn_subs c) ns" by (rule dagE [OF Node.prems(2)])
  obtain c' where c': "hcells h' x = Some c'" "same_head c c'"
    "hn_subs c' = (if p = Some x then (hn_subs c)[i := Some b] else hn_subs c)" by (rule patchedD [OF h(1) Node.prems(1) c(1)])
  have "list_all2 (rel_option (dag h')) (hn_subs c') ns"
  proof (rule list_all2_patch [OF c(5)])
    fix j assume j: "j < length (hn_subs c)" "rel_option (dag h) (hn_subs c ! j) (ns ! j)"
    have jn: "ns ! j \<in> set ns" using j(1) list_all2_lengthD [OF c(5)] by simp
    show "rel_option (dag h') (hn_subs c' ! j) (ns ! j)"
    proof (cases "p = Some x \<and> j = i")
      case True
      then have "hn_subs c ! j = Some a" "hn_subs c' ! j = Some b" using h(3) c(1) c'(3) j(1) by (auto simp: slot_def)
      then obtain m where m: "ns ! j = Some m" "dag h a m" using j(2) by (auto simp: option_rel_Some1)
      then have "dag h' b m" using dag_cong [OF dag_unique [OF h(4) m(2)]] h(5) by blast
      then show ?thesis using m \<open>hn_subs c' ! j = Some b\<close> by simp
    next
      case False
      then have eq: "hn_subs c' ! j = hn_subs c ! j" using c'(3) by auto
      show ?thesis
      proof (cases "ns ! j")
        case (Some m)
        then obtain y where y: "hn_subs c ! j = Some y" "dag h y m" using j(2) by (auto simp: option_rel_Some2)
        have "y \<notin> S" using h(2) c(1) Node.prems(1) j(1) y(1) False unfolding refs_only_def by blast
        then show ?thesis using Node.IH [OF _ _ y(2)] jn Some y(1) eq by simp
      qed (use j(2) eq in simp)
    qed
  qed (use c'(3) in simp)
  then show ?case using c c' by (auto simp: dag_iff same_head_def)
qed

text \<open>A tree that is not higher than the private one does not lead to the patched parent.\<close>

lemma dag_patched_below:
  assumes h: "patched h h' S p i b" "refs_only h S p i" "\<And>q. p = Some q \<Longrightarrow> \<exists>k. dag h q k \<and> height n < height k"
    and "x \<notin> S" "dag h x m" "height m \<le> height n"
  shows "dag h' x m"
  using assms(4-)
proof (induction m arbitrary: x rule: node_induct)
  case (Node k r v ns re nt)
  obtain c where c: "hcells h x = Some c" "hn_id c = k" "hn_rule c = r" "hn_val c = v"
    "list_all2 (rel_option (dag h)) (hn_subs c) ns" by (rule dagE [OF Node.prems(2)])
  have px: "p \<noteq> Some x" using h(3) [of x] dag_height [OF Node.prems(2)] Node.prems(3) by fastforce
  obtain c' where c': "hcells h' x = Some c'" "same_head c c'" "hn_subs c' = hn_subs c"
    using patchedD [OF h(1) Node.prems(1) c(1)] px by metis
  have "list_all2 (rel_option (dag h')) (hn_subs c') ns"
  proof (rule list_all2_patch [OF c(5)])
    fix j assume j: "j < length (hn_subs c)" "rel_option (dag h) (hn_subs c ! j) (ns ! j)"
    have jn: "ns ! j \<in> set ns" using j(1) list_all2_lengthD [OF c(5)] by simp
    show "rel_option (dag h') (hn_subs c' ! j) (ns ! j)"
    proof (cases "ns ! j")
      case (Some m)
      then obtain y where y: "hn_subs c ! j = Some y" "dag h y m" using j(2) by (auto simp: option_rel_Some2)
      have "y \<notin> S" using h(2) c(1) Node.prems(1) j(1) y(1) px unfolding refs_only_def by blast
      moreover have "height m \<le> height n" using height_less [of m ns k r v re nt] jn Some Node.prems(3) by simp
      ultimately show ?thesis using Node.IH [OF _ _ y(2)] jn Some y(1) c'(3) by simp
    qed (use j(2) c'(3) in simp)
  qed (use c'(3) in simp)
  then show ?case using c c' by (auto simp: dag_iff same_head_def)
qed

lemma find_slot_first:
  "i < length xs \<Longrightarrow> xs ! i = Some a \<Longrightarrow> Some a \<notin> set (take i xs) \<Longrightarrow> find_slot a k xs = Some (k + i)"
  by (induction xs arbitrary: i k) (auto simp: less_Suc_eq_0_disj)

lemma heap_replace_subnode_spec:
  assumes "hcells h p = Some cp" "hcells h a = Some ca" "hcells h b = Some cb" "p \<noteq> a" "a \<noteq> b" "p \<noteq> b"
    "hn_id ca = hn_id cb" "hn_parent ca = Some p" "find_slot a 0 (hn_subs cp) = Some i"
  shows "\<exists>h'. heap_replace_subnode h p a b = Some h' \<and> hbrk h' = hbrk h
    \<and> hcells h' = (hcells h)(p \<mapsto> cp\<lparr>hn_subs := (hn_subs cp)[i := Some b]\<rparr>, b \<mapsto> cb\<lparr>hn_parent := Some p\<rparr>,
        a \<mapsto> ca\<lparr>hn_parent := None\<rparr>)"
  using assms by (simp add: heap_replace_subnode_def heap_put_def)

definition subtrees :: "node \<Rightarrow> node set" where
  "subtrees n = {m. \<exists>p. subtree n p = Some m}"

lemma subtrees_Node:
  "subtrees (Node i r v ns re nt) = insert (Node i r v ns re nt) (\<Union>m \<in> {m. Some m \<in> set ns}. subtrees m)"
proof -
  have "m \<in> subtrees (Node i r v ns re nt) \<longleftrightarrow> m = Node i r v ns re nt \<or> (\<exists>k. Some k \<in> set ns \<and> m \<in> subtrees k)" for m
  proof
    assume "m \<in> subtrees (Node i r v ns re nt)"
    then obtain p where p: "subtree (Node i r v ns re nt) p = Some m" by (auto simp: subtrees_def)
    show "m = Node i r v ns re nt \<or> (\<exists>k. Some k \<in> set ns \<and> m \<in> subtrees k)"
    proof (cases p)
      case (Cons j q)
      then obtain k where "j < length ns" "ns ! j = Some k" "subtree k q = Some m"
        using p by (auto simp: sub_at_def split: if_splits option.splits)
      then show ?thesis unfolding subtrees_def by (metis (mono_tags) mem_Collect_eq nth_mem)
    qed (use p in simp)
  next
    assume "m = Node i r v ns re nt \<or> (\<exists>k. Some k \<in> set ns \<and> m \<in> subtrees k)"
    then show "m \<in> subtrees (Node i r v ns re nt)"
    proof
      assume "\<exists>k. Some k \<in> set ns \<and> m \<in> subtrees k"
      then obtain k j q where "j < length ns" "ns ! j = Some k" "subtree k q = Some m"
        by (auto simp: subtrees_def in_set_conv_nth)
      then have "subtree (Node i r v ns re nt) (j # q) = Some m" by (simp add: sub_at_def)
      then show ?thesis unfolding subtrees_def by blast
    qed (auto simp: subtrees_def intro: exI [of _ "[]"])
  qed
  then show ?thesis by blast
qed

lemma subtrees_self: "n \<in> subtrees n"
  by (cases n) (simp add: subtrees_Node)

section \<open>Taking a tree into the store\<close>

lemma chunk_inv_add:
  assumes inv: "chunk_inv xxh3 type_str T st P" and a: "a \<in> P" "hcells (heap st) a = Some c" "dag (heap st) a n" "n \<in> T"
    and new: "map_get (seen_chunks st) (node_key xxh3 n) = None" and small: "hbrk (heap st) < 2 ^ 31"
    and st': "st' = store_append type_str (st\<lparr>seen_chunks := map_put (seen_chunks st) (node_key xxh3 n) a\<rparr>) (hn_id c) a"
  shows "chunk_inv xxh3 type_str T st' (P - {a}) \<and> heap st' = heap st \<and> stored st' = insert a (stored st)"
proof -
  define st1 where "st1 = st\<lparr>seen_chunks := map_put (seen_chunks st) (node_key xxh3 n) a\<rparr>"
  note I = inv [unfolded chunk_inv_def]
  have Iseen: "\<forall>a\<in>stored st. \<exists>n\<in>T. dag (heap st) a n \<and> map_get (seen_chunks st) (node_key xxh3 n) = Some a"
    using I by simp
  have fin: "finite P" using I finite_subset [of P "{..<hbrk (heap st)}"] by blast
  then have cP: "card P = Suc (card (P - {a}))" using a(1) by (metis card_Suc_Diff1)
  have room: "nnodes (seen_chunks st) < 2 ^ 31" "nnodes (chunk_store st1) + 1 < 2 ^ 31"
    using I cP small by (auto simp: st1_def)
  have ok: "map_ok (seen_chunks st)" "map_ok (chunk_store st1)" using I by (auto simp: st1_def)
  note A = store_append_spec [OF ok(2) room(2) st' [folded st1_def]]
  have get: "map_get (seen_chunks st') k = (if k = node_key xxh3 n then Some a else map_get (seen_chunks st) k)" for k
    using rxi.get_put [OF ok(1) room(1)] A(2) by (simp add: st1_def)
  have heap: "heap st' = heap st" using A(1) by (simp add: st1_def)
  have stored: "stored st' = insert a (stored st)"
  proof -
    have "x \<in> stored st' \<longleftrightarrow> x = a \<or> x \<in> stored st" for x
      unfolding stored_def mem_Collect_eq A(5) st1_def by (auto split: if_splits option.splits) (metis option.inject)+
    then show ?thesis by blast
  qed
  have "map_ok (seen_chunks st')" using rxi.ok_put [OF ok(1) room(1)] A(2) by (simp add: st1_def)
  moreover have "nnodes (seen_chunks st') + card (P - {a}) \<le> hbrk (heap st')"
    using nnodes_put [OF ok(1) room(1), of "node_key xxh3 n" a] new A(2) I cP heap by (simp add: st1_def)
  moreover have "nnodes (chunk_store st') + card (P - {a}) \<le> hbrk (heap st')" using A(4) I cP heap by (simp add: st1_def)
  moreover have "distinct l \<and> (\<forall>x\<in>set l. \<exists>c. hcells (heap st') x = Some c \<and> type_str (hn_id c) = k)"
    if "map_get (chunk_store st') k = Some l" for k l
  proof -
    define old where "old = (case map_get (chunk_store st) k of None \<Rightarrow> [] | Some l \<Rightarrow> l)"
    have old: "distinct old" "\<forall>x\<in>set old. \<exists>c. hcells (heap st) x = Some c \<and> type_str (hn_id c) = k" "set old \<subseteq> stored st"
    proof (atomize (full), cases "map_get (chunk_store st) k")
      case (Some l)
      then show "distinct old \<and> (\<forall>x\<in>set old. \<exists>c. hcells (heap st) x = Some c \<and> type_str (hn_id c) = k) \<and> set old \<subseteq> stored st"
        using I unfolding stored_def by (simp add: old_def) blast
    qed (simp add: old_def)
    have "a \<notin> set old" using old(3) a(1) I by blast
    moreover have "l = old @ [a] \<and> k = type_str (hn_id c) \<or> l = old"
      using that A(5) [of k] by (auto simp: old_def st1_def split: if_splits)
    ultimately show ?thesis using old a(2) heap by auto
  qed
  moreover have "\<exists>m\<in>T. dag (heap st') x m \<and> map_get (seen_chunks st') (node_key xxh3 m) = Some x" if x: "x \<in> stored st'" for x
  proof (cases "x = a")
    case True
    then show ?thesis using a heap get by auto
  next
    case False
    then obtain m where "m \<in> T" "dag (heap st) x m" "map_get (seen_chunks st) (node_key xxh3 m) = Some x"
      using bspec [OF Iseen, of x] x stored by auto
    then show ?thesis using heap get new by (intro bexI [of _ m]) auto
  qed
  moreover have "x \<in> stored st' \<and> (\<exists>m\<in>T. dag (heap st') x m \<and> k = node_key xxh3 m)"
    if "map_get (seen_chunks st') k = Some x" for k x
    using that get stored heap a I by (auto split: if_splits)
  ultimately have "chunk_inv xxh3 type_str T st' (P - {a})"
    unfolding chunk_inv_def using A(3) I stored heap a(1) by (intro conjI allI impI ballI) auto
  then show ?thesis using heap stored by blast
qed

text \<open>Stored nodes with a subnode that is still private are higher than \<open>N\<close>, except perhaps those in \<open>X\<close>.\<close>

definition pend :: "chunks \<Rightarrow> naddr set \<Rightarrow> naddr set \<Rightarrow> nat \<Rightarrow> bool" where
  "pend st P X N \<longleftrightarrow> (\<forall>x c y. x \<in> stored st \<longrightarrow> x \<notin> X \<longrightarrow> hcells (heap st) x = Some c \<longrightarrow> Some y \<in> set (hn_subs c) \<longrightarrow>
     y \<in> P \<longrightarrow> (\<exists>k. dag (heap st) x k \<and> N < height k))"

text \<open>Before the private tree \<open>n\<close> at the addresses \<open>S\<close> is taken, and after it.\<close>

definition take_pre ::
  "(u8 list \<Rightarrow> u64) \<Rightarrow> (u32 \<Rightarrow> key) \<Rightarrow> node set \<Rightarrow> chunks \<Rightarrow> naddr set \<Rightarrow> naddr set \<Rightarrow> naddr option \<Rightarrow> naddr \<Rightarrow> nat \<Rightarrow> node \<Rightarrow> bool" where
  "take_pre xxh3 type_str T st P S p a i n \<longleftrightarrow>
     chunk_inv xxh3 type_str T st P \<and> hbrk (heap st) < 2 ^ 31 \<and> own (heap st) p a n S \<and> S \<subseteq> P \<and> n \<in> T
     \<and> (\<forall>q. p = Some q \<longrightarrow> q \<in> stored st) \<and> slot (heap st) p a i \<and> refs_only (heap st) S p i \<and> pend st P {} (height n)"

definition take_post ::
  "(u8 list \<Rightarrow> u64) \<Rightarrow> (u32 \<Rightarrow> key) \<Rightarrow> node set \<Rightarrow> chunks \<Rightarrow> naddr set \<Rightarrow> naddr set \<Rightarrow> node set \<Rightarrow> chunks \<Rightarrow> bool" where
  "take_post xxh3 type_str T st P S ms st' \<longleftrightarrow>
     chunk_inv xxh3 type_str T st' (P - S) \<and> hbrk (heap st') = hbrk (heap st)
     \<and> stored st \<subseteq> stored st' \<and> stored st' \<subseteq> stored st \<union> S
     \<and> (\<forall>x\<in>P - S. hcells (heap st') x = hcells (heap st) x)
     \<and> (\<forall>x\<in>S. \<forall>c y. hcells (heap st') x = Some c \<longrightarrow> Some y \<in> set (hn_subs c) \<longrightarrow> y \<in> stored st')
     \<and> (\<forall>x m. x \<notin> S \<longrightarrow> dag (heap st) x m \<longrightarrow> dag (heap st') x m)
     \<and> (\<forall>m\<in>ms. \<exists>a\<in>stored st'. dag (heap st') a m)
     \<and> (\<forall>a\<in>stored st' - stored st. \<exists>m\<in>ms. dag (heap st') a m)"

lemma take_postI:
  assumes "chunk_inv xxh3 type_str T st' (P - S)" "hbrk (heap st') = hbrk (heap st)"
    "stored st \<subseteq> stored st'" "stored st' \<subseteq> stored st \<union> S"
    "\<And>x. x \<in> P \<Longrightarrow> x \<notin> S \<Longrightarrow> hcells (heap st') x = hcells (heap st) x"
    "\<And>x c y. x \<in> S \<Longrightarrow> hcells (heap st') x = Some c \<Longrightarrow> Some y \<in> set (hn_subs c) \<Longrightarrow> y \<in> stored st'"
    "\<And>x m. x \<notin> S \<Longrightarrow> dag (heap st) x m \<Longrightarrow> dag (heap st') x m"
    "\<And>m. m \<in> ms \<Longrightarrow> \<exists>a\<in>stored st'. dag (heap st') a m"
    "\<And>a. a \<in> stored st' \<Longrightarrow> a \<notin> stored st \<Longrightarrow> \<exists>m\<in>ms. dag (heap st') a m"
  shows "take_post xxh3 type_str T st P S ms st'"
  unfolding take_post_def using assms by (intro conjI ballI allI impI) auto

lemma take_postD:
  assumes "take_post xxh3 type_str T st P S ms st'"
  shows "chunk_inv xxh3 type_str T st' (P - S)" "hbrk (heap st') = hbrk (heap st)"
    "stored st \<subseteq> stored st'" "stored st' \<subseteq> stored st \<union> S"
    "\<And>x. x \<in> P \<Longrightarrow> x \<notin> S \<Longrightarrow> hcells (heap st') x = hcells (heap st) x"
    "\<And>x c y. x \<in> S \<Longrightarrow> hcells (heap st') x = Some c \<Longrightarrow> Some y \<in> set (hn_subs c) \<Longrightarrow> y \<in> stored st'"
    "\<And>x m. x \<notin> S \<Longrightarrow> dag (heap st) x m \<Longrightarrow> dag (heap st') x m"
    "\<And>m. m \<in> ms \<Longrightarrow> \<exists>a\<in>stored st'. dag (heap st') a m"
    "\<And>a. a \<in> stored st' \<Longrightarrow> a \<notin> stored st \<Longrightarrow> \<exists>m\<in>ms. dag (heap st') a m"
  using assms unfolding take_post_def by simp_all

lemma chunk_invD:
  assumes "chunk_inv xxh3 type_str T st P"
  shows "map_ok (seen_chunks st)" "map_ok (chunk_store st)" "dom (hcells (heap st)) = stored st \<union> P"
    "stored st \<inter> P = {}" "stored st \<union> P \<subseteq> {..<hbrk (heap st)}"
    "nnodes (seen_chunks st) + card P \<le> hbrk (heap st)" "nnodes (chunk_store st) + card P \<le> hbrk (heap st)"
    "\<And>k l. map_get (chunk_store st) k = Some l \<Longrightarrow> distinct l
          \<and> (\<forall>a\<in>set l. \<exists>c. hcells (heap st) a = Some c \<and> type_str (hn_id c) = k)"
    "\<And>a. a \<in> stored st \<Longrightarrow> \<exists>n\<in>T. dag (heap st) a n \<and> map_get (seen_chunks st) (node_key xxh3 n) = Some a"
    "\<And>k a. map_get (seen_chunks st) k = Some a \<Longrightarrow> a \<in> stored st \<and> (\<exists>n\<in>T. dag (heap st) a n \<and> k = node_key xxh3 n)"
    "finite P"
proof -
  show "map_ok (seen_chunks st)" "map_ok (chunk_store st)" "dom (hcells (heap st)) = stored st \<union> P"
    "stored st \<inter> P = {}" "stored st \<union> P \<subseteq> {..<hbrk (heap st)}"
    "nnodes (seen_chunks st) + card P \<le> hbrk (heap st)" "nnodes (chunk_store st) + card P \<le> hbrk (heap st)"
    "\<And>k l. map_get (chunk_store st) k = Some l \<Longrightarrow> distinct l
          \<and> (\<forall>a\<in>set l. \<exists>c. hcells (heap st) a = Some c \<and> type_str (hn_id c) = k)"
    "\<And>a. a \<in> stored st \<Longrightarrow> \<exists>n\<in>T. dag (heap st) a n \<and> map_get (seen_chunks st) (node_key xxh3 n) = Some a"
    "\<And>k a. map_get (seen_chunks st) k = Some a \<Longrightarrow> a \<in> stored st \<and> (\<exists>n\<in>T. dag (heap st) a n \<and> k = node_key xxh3 n)"
    using assms unfolding chunk_inv_def by simp_all
  then show "finite P" using finite_subset [of P "{..<hbrk (heap st)}"] by simp
qed

text \<open>A stored node without private nodes below it has every subtree stored.\<close>

lemma stored_subtrees:
  assumes inv: "chunk_inv xxh3 type_str T st P" "pend st P {} N"
  shows "x \<in> stored st \<Longrightarrow> dag (heap st) x n \<Longrightarrow> height n \<le> N \<Longrightarrow> m \<in> subtrees n \<Longrightarrow> \<exists>a\<in>stored st. dag (heap st) a m"
proof (induction n arbitrary: x rule: node_induct)
  case (Node k r v ns re nt)
  show ?case
  proof (cases "m = Node k r v ns re nt")
    case False
    then obtain n' where n': "Some n' \<in> set ns" "m \<in> subtrees n'" using Node.prems(4) by (auto simp: subtrees_Node)
    obtain c where c: "hcells (heap st) x = Some c" "hn_id c = k" "hn_rule c = r" "hn_val c = v"
      "list_all2 (rel_option (dag (heap st))) (hn_subs c) ns" by (rule dagE [OF Node.prems(2)])
    obtain y where y: "Some y \<in> set (hn_subs c)" "dag (heap st) y n'" using all2_Some [OF c(5) n'(1)] by blast
    have "y \<notin> P"
    proof
      assume "y \<in> P"
      then obtain k' where "dag (heap st) x k'" "N < height k'"
        using inv(2) Node.prems(1) c(1) y(1) unfolding pend_def by blast
      then show False using dag_height [OF Node.prems(2)] Node.prems(3) by force
    qed
    moreover have "y \<in> dom (hcells (heap st))" using y(2) by (cases n') (auto simp: dag_iff)
    ultimately have "y \<in> stored st" using chunk_invD(3) [OF inv(1)] by blast
    then show ?thesis using Node.IH [OF n'(1) _ y(2) _ n'(2)] height_less [OF n'(1), of k r v re nt] Node.prems(3) by simp
  qed (use Node.prems in blast)
qed

text \<open>Pointing the parent at the stored copy.\<close>

lemma redirect_parent:
  assumes pre: "take_pre xxh3 type_str T st P S p a i n" and b: "b \<in> stored st" "dag (heap st) b n"
    and c: "hcells (heap st) a = Some c" "hn_parent c = p"
  obtains h where
    "(case p of None \<Rightarrow> Some (heap st) | Some q \<Rightarrow> heap_replace_subnode (heap st) q a b) = Some h"
    "hbrk h = hbrk (heap st)" "own h None a n S" "patched (heap st) h S p i b"
    "\<And>x. x \<in> P \<Longrightarrow> x \<notin> S \<Longrightarrow> hcells h x = hcells (heap st) x"
proof (cases p)
  case None
  then show thesis using that [of "heap st"] pre
    by (auto simp: take_pre_def patched_def same_head_def intro: option.rel_refl)
next
  case (Some q)
  note pre' = pre [unfolded take_pre_def]
  have inv: "chunk_inv xxh3 type_str T st P" using pre' by blast
  have q: "q \<in> stored st" using pre' Some by blast
  obtain cq where cq: "hcells (heap st) q = Some cq" "i < length (hn_subs cq)" "hn_subs cq ! i = Some a"
    using pre' Some unfolding slot_def by blast
  obtain cb where cb: "hcells (heap st) b = Some cb" "hn_id cb = hn_id c"
    using b(2) own_dag [of "heap st" p a n S] pre' c(1) by (cases n) (auto simp: dag_iff)
  have aP: "a \<in> S" "S \<subseteq> P" using own_root [of "heap st" p a n S] pre' by auto
  have disj: "x \<notin> P" if "x \<in> stored st" for x using chunk_invD(4) [OF inv] that by blast
  have "\<exists>k. dag (heap st) q k \<and> height n < height k"
    using pre' q cq aP nth_mem [OF cq(2)] unfolding pend_def by (metis empty_iff subsetD)
  then have "q \<noteq> b" using b(2) dag_height by (metis less_irrefl)
  have first: "Some a \<notin> set (take i (hn_subs cq))"
  proof
    assume "Some a \<in> set (take i (hn_subs cq))"
    then obtain j where j: "j < i" "hn_subs cq ! j = Some a" using cq(2) by (auto simp: in_set_conv_nth)
    have "q \<notin> S" using disj [OF q] aP by blast
    then have "j = i" using pre' cq j aP(1) unfolding refs_only_def by (metis order.strict_trans)
    then show False using j by simp
  qed
  have ne: "q \<noteq> a" "a \<noteq> b" using disj q b(1) aP by auto
  obtain h where h: "heap_replace_subnode (heap st) q a b = Some h" "hbrk h = hbrk (heap st)"
    "hcells h = (hcells (heap st))(q \<mapsto> cq\<lparr>hn_subs := (hn_subs cq)[i := Some b]\<rparr>, b \<mapsto> cb\<lparr>hn_parent := Some q\<rparr>,
        a \<mapsto> c\<lparr>hn_parent := None\<rparr>)"
    using heap_replace_subnode_spec [OF cq(1) c(1) cb(1) ne \<open>q \<noteq> b\<close>, of i] cb(2) c(2) Some
      find_slot_first [OF cq(2,3) first, of 0] by auto
  have "own h None a n S"
    by (rule own_reparent [OF _ c(1)]) (use h(3) pre' disj q b(1) aP in auto)
  moreover have "patched (heap st) h S p i b" unfolding patched_def
    using h(3) Some aP(1) cq(1) cb(1) \<open>q \<noteq> b\<close>
    by (auto simp: same_head_def option_rel_Some1 intro: option.rel_refl)
  moreover have "hcells h x = hcells (heap st) x" if "x \<in> P" "x \<notin> S" for x
    using that h(3) disj q b(1) aP by auto
  ultimately show thesis using that [of h] h(1,2) Some by simp
qed

lemma patched_minus: "patched h h' S p i b \<Longrightarrow> patched h (heap_minus h' S) S p i b"
  by (simp add: patched_def)

lemma patched_dom:
  assumes "patched h h' S p i b" "x \<notin> S"
  shows "x \<in> dom (hcells h') \<longleftrightarrow> x \<in> dom (hcells h)"
proof -
  have "rel_option (\<lambda>c c'. same_head c c' \<and>
     hn_subs c' = (if p = Some x then (hn_subs c)[i := Some b] else hn_subs c)) (hcells h x) (hcells h' x)"
    using assms unfolding patched_def by blast
  then show ?thesis by (cases "hcells h x"; cases "hcells h' x") auto
qed

text \<open>A duplicate: the private nodes are freed, the store stays as it is.\<close>

lemma take_seen:
  assumes pre: "take_pre xxh3 type_str T st P S p a i n" and b: "b \<in> stored st" "dag (heap st) b n"
    and h: "hbrk h = hbrk (heap st)" "patched (heap st) h S p i b" "own h None a n S"
      "\<And>x. x \<in> P \<Longrightarrow> x \<notin> S \<Longrightarrow> hcells h x = hcells (heap st) x"
    and st': "st' = st\<lparr>heap := heap_minus h S\<rparr>"
  shows "take_post xxh3 type_str T st P S (subtrees n) st' \<and> dag (heap st') b n \<and> patched (heap st) (heap st') S p i b"
proof -
  note pre' = pre [unfolded take_pre_def]
  have inv: "chunk_inv xxh3 type_str T st P" using pre' by blast
  note I = chunk_invD [OF inv]
  have S: "S \<subseteq> P" "a \<in> S" using pre' own_root [of "heap st" p a n S] by auto
  have disj: "x \<notin> S" if "x \<in> stored st" for x using I(4) that S by blast
  have pat: "patched (heap st) (heap st') S p i b" using patched_minus [OF h(2)] by (simp add: st')
  have refs: "refs_only (heap st) S p i" "slot (heap st) p a i" using pre' by blast+
  have dagn: "dag (heap st) a n" using pre' own_dag by blast
  have up: "\<exists>k. dag (heap st) q k \<and> height n < height k" if q: "p = Some q" for q
  proof -
    obtain cq where cq: "hcells (heap st) q = Some cq" "i < length (hn_subs cq)" "hn_subs cq ! i = Some a"
      using refs(2) q unfolding slot_def by blast
    have "q \<in> stored st" using pre' q by blast
    then show ?thesis using pre' cq S nth_mem [OF cq(2)] unfolding pend_def by (metis empty_iff subsetD)
  qed
  have dagb: "dag (heap st') b n" by (rule dag_patched_below [OF pat refs(1) up disj [OF b(1)] b(2)]) simp_all
  have keep: "dag (heap st') x m" if "x \<notin> S" "dag (heap st) x m" for x m
    by (rule dag_patched [OF pat refs dagn dagb that])
  have stored: "stored st' = stored st" by (simp add: st' stored_def)
  have gone: "hcells (heap st') x = None" if "x \<in> S" for x using that by (simp add: st')
  have dom: "dom (hcells (heap st')) = stored st \<union> (P - S)"
  proof -
    have "x \<in> dom (hcells (heap st')) \<longleftrightarrow> x \<in> stored st \<union> (P - S)" for x
      using patched_dom [OF pat, of x] gone [of x] I(3) disj [of x] by (cases "x \<in> S") auto
    then show ?thesis by blast
  qed
  have same: "seen_chunks st' = seen_chunks st" "chunk_store st' = chunk_store st" by (simp_all add: st')
  have lists: "distinct l \<and> (\<forall>x\<in>set l. \<exists>c. hcells (heap st') x = Some c \<and> type_str (hn_id c) = k)"
    if l: "map_get (chunk_store st) k = Some l" for k l
  proof -
    have "\<exists>c. hcells (heap st') x = Some c \<and> type_str (hn_id c) = k" if x: "x \<in> set l" for x
    proof -
      obtain c where c: "hcells (heap st) x = Some c" "type_str (hn_id c) = k" using I(8) [OF l] x by blast
      have "x \<notin> S" using l x by (intro disj) (auto simp: stored_def)
      then show ?thesis using patchedD [OF pat _ c(1)] c(2) unfolding same_head_def by metis
    qed
    then show ?thesis using I(8) [OF l] by blast
  qed
  have entries: "\<exists>m\<in>T. dag (heap st') x m \<and> map_get (seen_chunks st) (node_key xxh3 m) = Some x" if "x \<in> stored st" for x
    using I(9) [OF that] keep disj that by meson
  have entries': "x \<in> stored st \<and> (\<exists>m\<in>T. dag (heap st') x m \<and> k = node_key xxh3 m)"
    if "map_get (seen_chunks st) k = Some x" for k x
    using I(10) [OF that] keep disj by meson
  have card: "card (P - S) \<le> card P" using I(11) by (simp add: card_mono)
  have brk: "hbrk (heap st') = hbrk (heap st)" using h(1) by (simp add: st')
  have inv': "chunk_inv xxh3 type_str T st' (P - S)"
    unfolding chunk_inv_def stored same brk dom
    using I(1,2,4,5,6,7) card lists entries entries' by (intro conjI allI impI ballI) auto
  have "take_post xxh3 type_str T st P S (subtrees n) st'"
  proof (rule take_postI [OF inv' brk])
    show "\<exists>x\<in>stored st'. dag (heap st') x m" if "m \<in> subtrees n" for m
      using stored_subtrees [OF inv _ b order_refl that] pre' keep disj unfolding stored by blast
  qed (use h(4) gone keep stored in \<open>auto simp: st'\<close>)
  then show ?thesis using dagb pat by blast
qed

text \<open>What has to be shown of a call for \<open>n\<close> with fuel \<open>f\<close>.\<close>

definition take_fits :: "(u8 list \<Rightarrow> u64) \<Rightarrow> (u32 \<Rightarrow> key) \<Rightarrow> node set \<Rightarrow> nat \<Rightarrow> node \<Rightarrow> bool" where
  "take_fits xxh3 type_str T f n \<longleftrightarrow> (\<forall>st P S p a i. take_pre xxh3 type_str T st P S p a i n \<longrightarrow>
     (\<exists>st'. chunk_store_take_node xxh3 type_str f st a = Some st' \<and> take_post xxh3 type_str T st P S (subtrees n) st'
        \<and> (\<exists>b\<in>stored st'. dag (heap st') b n \<and> patched (heap st) (heap st') S p i b)))"

lemma take_fitsD:
  assumes "take_fits xxh3 type_str T f n" "take_pre xxh3 type_str T st P S p a i n"
  obtains st' b where "chunk_store_take_node xxh3 type_str f st a = Some st'"
    "take_post xxh3 type_str T st P S (subtrees n) st'" "b \<in> stored st'" "dag (heap st') b n"
    "patched (heap st) (heap st') S p i b"
  using assms unfolding take_fits_def by blast

text \<open>The loop over the subnodes of the stored node \<open>a\<close>, from index \<open>j\<close> on; \<open>N\<close> is the height of \<open>a\<close>.\<close>

definition loop_pre ::
  "(u8 list \<Rightarrow> u64) \<Rightarrow> (u32 \<Rightarrow> key) \<Rightarrow> node set \<Rightarrow> chunks \<Rightarrow> naddr set \<Rightarrow> naddr set \<Rightarrow> naddr \<Rightarrow> hnode \<Rightarrow> nat \<Rightarrow> node option list \<Rightarrow> nat \<Rightarrow> bool" where
  "loop_pre xxh3 type_str T st P U a c j ns N \<longleftrightarrow>
     chunk_inv xxh3 type_str T st P \<and> hbrk (heap st) < 2 ^ 31 \<and> a \<in> stored st \<and> hcells (heap st) a = Some c
     \<and> length (hn_subs c) = j + length ns \<and> owns (heap st) a (drop j (hn_subs c)) ns U
     \<and> (\<forall>y. Some y \<in> set (take j (hn_subs c)) \<longrightarrow> y \<in> stored st) \<and> U \<subseteq> P
     \<and> None \<notin> set ns \<and> (\<forall>m. Some m \<in> set ns \<longrightarrow> m \<in> T \<and> height m < N) \<and> pend st P {a} N
     \<and> (\<exists>k. dag (heap st) a k \<and> height k = N)
     \<and> (\<forall>x d k y. hcells (heap st) x = Some d \<longrightarrow> x \<notin> U \<longrightarrow> k < length (hn_subs d) \<longrightarrow> hn_subs d ! k = Some y \<longrightarrow>
          y \<in> U \<longrightarrow> x = a \<and> j \<le> k)"

lemma loop_preD:
  assumes "loop_pre xxh3 type_str T st P U a c j ns N"
  shows "chunk_inv xxh3 type_str T st P" "hbrk (heap st) < 2 ^ 31" "a \<in> stored st" "hcells (heap st) a = Some c"
    "length (hn_subs c) = j + length ns" "owns (heap st) a (drop j (hn_subs c)) ns U"
    "\<And>y. Some y \<in> set (take j (hn_subs c)) \<Longrightarrow> y \<in> stored st" "U \<subseteq> P"
    "None \<notin> set ns" "\<And>m. Some m \<in> set ns \<Longrightarrow> m \<in> T \<and> height m < N" "pend st P {a} N"
    "\<exists>k. dag (heap st) a k \<and> height k = N"
    "\<And>x d k y. hcells (heap st) x = Some d \<Longrightarrow> x \<notin> U \<Longrightarrow> k < length (hn_subs d) \<Longrightarrow> hn_subs d ! k = Some y \<Longrightarrow>
          y \<in> U \<Longrightarrow> x = a \<and> j \<le> k"
  using assms unfolding loop_pre_def by blast+

text \<open>The next subnode can be taken.\<close>

lemma loop_head:
  assumes pre: "loop_pre xxh3 type_str T st P U a c j (Some m # ns) N"
  obtains b as S1 S2 where "drop j (hn_subs c) = Some b # as" "hn_subs c ! j = Some b" "U = S1 \<union> S2" "S1 \<inter> S2 = {}"
    "owns (heap st) a as ns S2" "take_pre xxh3 type_str T st P S1 (Some a) b j m"
proof -
  note L = loop_preD [OF pre]
  obtain b as S1 S2 where o: "drop j (hn_subs c) = Some b # as" "U = S1 \<union> S2" "S1 \<inter> S2 = {}"
    "own (heap st) (Some a) b m S1" "owns (heap st) a as ns S2" using L(6) unfolding owns_Some by blast
  have j: "j < length (hn_subs c)" using L(5) by simp
  then have jb: "hn_subs c ! j = Some b" using o(1) by (metis hd_drop_conv_nth list.sel(1))
  have as: "as = drop (Suc j) (hn_subs c)" using o(1) by (metis drop_Suc drop_tl list.sel(3))
  have "refs_only (heap st) S1 (Some a) j" unfolding refs_only_def
  proof (intro allI impI)
    fix x d k y
    assume x: "hcells (heap st) x = Some d" "x \<notin> S1" "k < length (hn_subs d)" "hn_subs d ! k = Some y" "y \<in> S1"
    have "Some y \<in> set (hn_subs d)" using nth_mem [OF x(3)] x(4) by simp
    then have x2: "x \<notin> S2" using owns_closed [OF o(5), of x d y] x(1,5) o(3) by blast
    then have xa: "x = a" "j \<le> k" using L(13) [OF x(1) _ x(3,4)] x(2,5) o(2) by blast+
    have "k = j"
    proof (rule ccontr)
      assume "k \<noteq> j"
      then have "Some y \<in> set as" using xa x(1,3,4) L(4) as by (auto simp: in_set_conv_nth intro!: exI [of _ "k - Suc j"])
      then show False using owns_closed [OF o(5), of x d y] x(5) o(3) by blast
    qed
    then show "Some a = Some x \<and> k = j" using xa by simp
  qed
  moreover have "pend st P {} (height m)" unfolding pend_def
  proof (intro allI impI)
    fix x d y
    assume x: "x \<in> stored st" "hcells (heap st) x = Some d" "Some y \<in> set (hn_subs d)" "y \<in> P"
    have m: "height m < N" using L(10) by simp
    show "\<exists>k. dag (heap st) x k \<and> height m < height k"
    proof (cases "x = a")
      case True
      then show ?thesis using L(12) m by blast
    next
      case False
      then obtain k where "dag (heap st) x k" "N < height k" using L(11) x unfolding pend_def by blast
      then show ?thesis using m by (meson less_trans)
    qed
  qed
  moreover have "slot (heap st) (Some a) b j" using L(4) j jb by (simp add: slot_def)
  ultimately have "take_pre xxh3 type_str T st P S1 (Some a) b j m"
    using L(1,2,3,8,10) o(2,4) by (auto simp: take_pre_def)
  then show thesis using that o jb by blast
qed

text \<open>The loop invariant holds again after the subnode was taken.\<close>

lemma loop_next:
  assumes pre: "loop_pre xxh3 type_str T st P U a c j (Some m # ns) N"
    and o: "drop j (hn_subs c) = Some b0 # as" "U = S1 \<union> S2" "S1 \<inter> S2 = {}" "owns (heap st) a as ns S2"
    and post: "take_post xxh3 type_str T st P S1 ms st1" "b \<in> stored st1" "patched (heap st) (heap st1) S1 (Some a) j b"
  obtains c1 where "loop_pre xxh3 type_str T st1 (P - S1) S2 a c1 (Suc j) ns N"
proof -
  note L = loop_preD [OF pre]
  note Q = take_postD [OF post(1)]
  have sP: "x \<notin> P" if "x \<in> stored st" for x using chunk_invD(4) [OF L(1)] that by blast
  have sP1: "x \<notin> P - S1" if "x \<in> stored st1" for x using chunk_invD(4) [OF Q(1)] that by blast
  have aS1: "a \<notin> S1" using sP [OF L(3)] L(8) o(2) by blast
  obtain c1 where c1: "hcells (heap st1) a = Some c1" "hn_subs c1 = (hn_subs c)[j := Some b]"
    using patchedD [OF post(3) aS1 L(4)] by metis
  have as: "as = drop (Suc j) (hn_subs c)" using o(1) by (metis drop_Suc drop_tl list.sel(3))
  have "owns (heap st1) a (drop (Suc j) (hn_subs c1)) ns S2"
    unfolding c1(2) using owns_frame [OF o(4), of "heap st1"] Q(5) L(8) o(2,3) as by auto
  moreover have "y \<in> stored st1" if "Some y \<in> set (take (Suc j) (hn_subs c1))" for y
  proof -
    have "set (take (Suc j) (hn_subs c1)) \<subseteq> insert (Some b) (set (take j (hn_subs c)))"
      using L(5) by (auto simp: c1(2) take_Suc_conv_app_nth)
    then show ?thesis using that post(2) L(7) Q(3) by blast
  qed
  moreover have "pend st1 (P - S1) {a} N" unfolding pend_def
  proof (intro allI impI)
    fix x d y
    assume x: "x \<in> stored st1" "x \<notin> {a}" "hcells (heap st1) x = Some d" "Some y \<in> set (hn_subs d)" "y \<in> P - S1"
    have xS: "x \<notin> S1" using Q(6) [OF _ x(3,4)] sP1 x(5) by blast
    then have xs: "x \<in> stored st" using x(1) Q(4) by blast
    obtain d0 where d0: "hcells (heap st) x = Some d0" using patched_dom [OF post(3) xS] x(3) by auto
    have "hn_subs d = hn_subs d0" using patchedD [OF post(3) xS d0] x(2,3) by (metis option.inject singletonI)
    then obtain k where "dag (heap st) x k" "N < height k" using L(11) xs x(2,4,5) d0 unfolding pend_def by (metis DiffD1)
    then show "\<exists>k. dag (heap st1) x k \<and> N < height k" using Q(7) [OF xS] by blast
  qed
  moreover have "x = a \<and> Suc j \<le> k"
    if x: "hcells (heap st1) x = Some d" "x \<notin> S2" "k < length (hn_subs d)" "hn_subs d ! k = Some y" "y \<in> S2" for x d k y
  proof -
    have yd: "Some y \<in> set (hn_subs d)" using nth_mem [OF x(3)] x(4) by simp
    have yP: "y \<in> P - S1" using x(5) o(2,3) L(8) by blast
    have xS: "x \<notin> S1" using Q(6) [OF _ x(1) yd] sP1 yP by blast
    obtain d0 where d0: "hcells (heap st) x = Some d0" using patched_dom [OF post(3) xS] x(1) by auto
    have d: "hn_subs d = (if x = a then (hn_subs d0)[j := Some b] else hn_subs d0)"
      using patchedD [OF post(3) xS d0] x(1) by (metis option.inject)
    have ne: "\<not> (x = a \<and> k = j)" using d x(3,4) sP1 [OF post(2)] yP by auto
    then have "hn_subs d0 ! k = Some y" "k < length (hn_subs d0)" using d x(3,4) by (auto split: if_splits)
    then have "x = a \<and> j \<le> k" using L(13) [OF d0] xS x(2,5) o(2) by blast
    then show ?thesis using ne by simp
  qed
  moreover have "\<exists>k. dag (heap st1) a k \<and> height k = N" using L(12) Q(7) [OF aS1] by blast
  ultimately have "loop_pre xxh3 type_str T st1 (P - S1) S2 a c1 (Suc j) ns N"
    unfolding loop_pre_def using Q(1,2) L(2,3,5,8,9,10) Q(3) c1 o(2,3) by (intro conjI allI impI) auto
  then show thesis using that by blast
qed

lemma take_post_trans:
  assumes "take_post xxh3 type_str T st P S1 ms1 st1" "take_post xxh3 type_str T st1 (P - S1) S2 ms2 st2"
    "S1 \<inter> S2 = {}" "S1 \<union> S2 \<subseteq> P" "chunk_inv xxh3 type_str T st P" "a \<in> stored st"
    "patched (heap st1) (heap st2) (insert a S2) None 0 0"
  shows "take_post xxh3 type_str T st P (S1 \<union> S2) (ms1 \<union> ms2) st2"
proof -
  note A = take_postD [OF assms(1)] and B = take_postD [OF assms(2)]
  have aS: "a \<notin> S1" using chunk_invD(4) [OF assms(5)] assms(4,6) by blast
  show ?thesis
  proof (rule take_postI)
    show "chunk_inv xxh3 type_str T st2 (P - (S1 \<union> S2))" using B(1) by (simp add: Diff_eq Int_assoc)
  next
    fix x c y
    assume x: "x \<in> S1 \<union> S2" "hcells (heap st2) x = Some c" "Some y \<in> set (hn_subs c)"
    show "y \<in> stored st2"
    proof (cases "x \<in> S2")
      case False
      then have xS: "x \<in> S1" "x \<notin> insert a S2" using x(1) aS by auto
      obtain c0 where c0: "hcells (heap st1) x = Some c0" using patched_dom [OF assms(7) xS(2)] x(2) by auto
      have "hn_subs c = hn_subs c0" using patchedD [OF assms(7) xS(2) c0] x(2) by (metis option.distinct(1) option.inject)
      then show ?thesis using A(6) [OF xS(1) c0] x(3) B(3) by auto
    qed (use B(6) x(2,3) in blast)
  next
    fix m assume "m \<in> ms1 \<union> ms2"
    then show "\<exists>a\<in>stored st2. dag (heap st2) a m"
    proof
      assume "m \<in> ms1"
      then obtain x where x: "x \<in> stored st1" "dag (heap st1) x m" using A(8) by blast
      have "x \<notin> S2" using chunk_invD(4) [OF A(1)] x(1) assms(3,4) by blast
      then show ?thesis using x B(3,7) by blast
    qed (rule B(8))
  next
    fix x assume x: "x \<in> stored st2" "x \<notin> stored st"
    show "\<exists>m\<in>ms1 \<union> ms2. dag (heap st2) x m"
    proof (cases "x \<in> stored st1")
      case True
      then have "x \<notin> S2" using chunk_invD(4) [OF A(1)] assms(3,4) by blast
      then show ?thesis using A(9) [OF True x(2)] B(7) by blast
    qed (use B(9) x(1) in blast)
  qed (use A(2,3,4,5,7) B(2,3,4,5,7) in auto)
qed

lemma patched_refl: "patched h h S None i b"
  by (auto simp: patched_def same_head_def intro: option.rel_refl)

lemma patched_trans:
  assumes "patched h h1 S1 (Some a) j b" "patched h1 h2 (insert a S2) None 0 0"
  shows "patched h h2 (insert a (S1 \<union> S2)) None 0 0"
  unfolding patched_def
proof (intro allI impI)
  fix x assume x: "x \<notin> insert a (S1 \<union> S2)"
  have 1: "rel_option (\<lambda>c c'. same_head c c' \<and> hn_subs c' = hn_subs c) (hcells h x) (hcells h1 x)"
    using assms(1) x unfolding patched_def by auto
  have 2: "rel_option (\<lambda>c c'. same_head c c' \<and> hn_subs c' = hn_subs c) (hcells h1 x) (hcells h2 x)"
    using assms(2) x unfolding patched_def by auto
  show "rel_option (\<lambda>c c'. same_head c c' \<and> hn_subs c' = (if None = Some x then (hn_subs c)[0 := Some 0] else hn_subs c))
    (hcells h x) (hcells h2 x)"
    using 1 2 by (cases "hcells h x"; cases "hcells h1 x"; cases "hcells h2 x") (auto simp: same_head_def)
qed

lemma take_subnodes_spec:
  assumes "\<And>m. Some m \<in> set ns \<Longrightarrow> take_fits xxh3 type_str T f m" "loop_pre xxh3 type_str T st P U a c j ns N"
  shows "\<exists>st'. take_subnodes xxh3 type_str f st a j (length ns) = Some st'
    \<and> take_post xxh3 type_str T st P U (\<Union>m\<in>{m. Some m \<in> set ns}. subtrees m) st'
    \<and> patched (heap st) (heap st') (insert a U) None 0 0
    \<and> (\<forall>c y. hcells (heap st') a = Some c \<longrightarrow> Some y \<in> set (hn_subs c) \<longrightarrow> y \<in> stored st')"
  using assms
proof (induction ns arbitrary: st P U c j)
  case Nil
  note L = loop_preD [OF Nil.prems(2)]
  have "U = {}" using L(6) by (simp add: owns_Nil)
  moreover have "take_post xxh3 type_str T st P {} {} st" by (rule take_postI) (use L(1) in auto)
  ultimately show ?case using L(4,5,7) by (auto simp: patched_refl)
next
  case (Cons s ns)
  obtain m where s: "s = Some m" using loop_preD(9) [OF Cons.prems(2)] by (cases s) auto
  note pre = Cons.prems(2) [unfolded s]
  note L = loop_preD [OF pre]
  obtain b0 as S1 S2 where o: "drop j (hn_subs c) = Some b0 # as" "hn_subs c ! j = Some b0" "U = S1 \<union> S2" "S1 \<inter> S2 = {}"
    "owns (heap st) a as ns S2" "take_pre xxh3 type_str T st P S1 (Some a) b0 j m" by (rule loop_head [OF pre])
  have "take_fits xxh3 type_str T f m" using Cons.prems(1) s by simp
  from take_fitsD [OF this o(6)] obtain st1 b where t: "chunk_store_take_node xxh3 type_str f st b0 = Some st1"
    "take_post xxh3 type_str T st P S1 (subtrees m) st1" "b \<in> stored st1" "dag (heap st1) b m"
    "patched (heap st) (heap st1) S1 (Some a) j b" .
  obtain c1 where "loop_pre xxh3 type_str T st1 (P - S1) S2 a c1 (Suc j) ns N"
    by (rule loop_next [OF pre o(1,3,4,5) t(2,3,5)])
  with Cons.IH [of st1 "P - S1" S2 c1 "Suc j"] Cons.prems(1) obtain st2 where r:
    "take_subnodes xxh3 type_str f st1 a (Suc j) (length ns) = Some st2"
    "take_post xxh3 type_str T st1 (P - S1) S2 (\<Union>m\<in>{m. Some m \<in> set ns}. subtrees m) st2"
    "patched (heap st1) (heap st2) (insert a S2) None 0 0"
    "\<forall>c y. hcells (heap st2) a = Some c \<longrightarrow> Some y \<in> set (hn_subs c) \<longrightarrow> y \<in> stored st2"
    by auto
  have "take_post xxh3 type_str T st P (S1 \<union> S2) (subtrees m \<union> (\<Union>m\<in>{m. Some m \<in> set ns}. subtrees m)) st2"
    by (rule take_post_trans [OF t(2) r(2) o(4) _ L(1,3) r(3)]) (use L(8) o(3) in simp)
  moreover have "(\<Union>m\<in>{m. Some m \<in> set (s # ns)}. subtrees m) = subtrees m \<union> (\<Union>m\<in>{m. Some m \<in> set ns}. subtrees m)"
    by (auto simp: s)
  moreover have "take_subnodes xxh3 type_str f st a j (length (s # ns)) = Some st2"
    using L(4) o(2) t(1) r(1) by simp
  ultimately show ?case using r(4) patched_trans [OF t(5) r(3)] o(3) by auto
qed

text \<open>A new node: it is stored, then its subnodes are taken.\<close>

lemma take_new:
  assumes pre: "take_pre xxh3 type_str T st P S p a i n" and n: "n = Node k r v ns re nt" and cls: "chunk_class xxh3 T"
    and c: "hcells (heap st) a = Some c" "owns (heap st) a (hn_subs c) ns (S - {a})" "a \<in> S"
    and new: "map_get (seen_chunks st) (node_key xxh3 n) = None"
    and sub: "\<And>m. Some m \<in> set ns \<Longrightarrow> take_fits xxh3 type_str T f m"
    and st1: "st1 = store_append type_str (st\<lparr>seen_chunks := map_put (seen_chunks st) (node_key xxh3 n) a\<rparr>) (hn_id c) a"
  shows "\<exists>st'. take_subnodes xxh3 type_str f st1 a 0 (length (hn_subs c)) = Some st'
    \<and> take_post xxh3 type_str T st P S (subtrees n) st' \<and> a \<in> stored st' \<and> dag (heap st') a n
    \<and> patched (heap st) (heap st') S p i a"
proof -
  note pre' = pre [unfolded take_pre_def]
  have inv: "chunk_inv xxh3 type_str T st P" using pre' by blast
  have S: "S \<subseteq> P" and nT: "n \<in> T" and small: "hbrk (heap st) < 2 ^ 31" using pre' by auto
  have dagn: "dag (heap st) a n" using pre' own_dag by blast
  have disj: "x \<notin> P" if "x \<in> stored st" for x using chunk_invD(4) [OF inv] that by blast
  have add: "chunk_inv xxh3 type_str T st1 (P - {a})" "heap st1 = heap st" "stored st1 = insert a (stored st)"
    using chunk_inv_add [OF inv _ c(1) dagn nT new small st1] c(3) S by auto
  have nin: "None \<notin> set ns" "\<And>m. Some m \<in> set ns \<Longrightarrow> m \<in> T"
    using cls nT unfolding chunk_class_def n by auto
  have "loop_pre xxh3 type_str T st1 (P - {a}) (S - {a}) a c 0 ns (height n)" unfolding loop_pre_def
  proof (intro conjI allI impI)
    show "pend st1 (P - {a}) {a} (height n)"
      using pre' unfolding pend_def add(2,3) by (metis DiffD1 empty_iff insertE singletonI)
    show "\<exists>k. dag (heap st1) a k \<and> height k = height n" using dagn add(2) by auto
  next
    fix x d k y
    assume x: "hcells (heap st1) x = Some d" "x \<notin> S - {a}" "k < length (hn_subs d)" "hn_subs d ! k = Some y" "y \<in> S - {a}"
    have "x = a"
    proof (rule ccontr)
      assume "x \<noteq> a"
      then have "p = Some x \<and> k = i" using pre' x unfolding refs_only_def add(2) by blast
      then have "hn_subs d ! k = Some a" using pre' x(1) unfolding slot_def add(2) by auto
      then show False using x(4,5) by simp
    qed
    then show "x = a" "0 \<le> k" by simp_all
  qed (use add small c nin S owns_length [OF c(2)] height_less [of _ ns k r v re nt] in \<open>auto simp: n\<close>)
  from take_subnodes_spec [OF sub this] obtain st2 where r:
    "take_subnodes xxh3 type_str f st1 a 0 (length ns) = Some st2"
    "take_post xxh3 type_str T st1 (P - {a}) (S - {a}) (\<Union>m\<in>{m. Some m \<in> set ns}. subtrees m) st2"
    "patched (heap st1) (heap st2) (insert a (S - {a})) None 0 0"
    "\<forall>c y. hcells (heap st2) a = Some c \<longrightarrow> Some y \<in> set (hn_subs c) \<longrightarrow> y \<in> stored st2" by auto
  note R = take_postD [OF r(2)]
  have PS: "P - {a} - (S - {a}) = P - S" using c(3) by auto
  have dag2: "dag (heap st2) a n" using R(7) [of a] dagn add(2) by simp
  have a2: "a \<in> stored st2" using R(3) add(3) by blast
  have "take_post xxh3 type_str T st P S (subtrees n) st2"
  proof (rule take_postI)
    show "chunk_inv xxh3 type_str T st2 (P - S)" using R(1) PS by simp
  next
    fix x d y assume "x \<in> S" "hcells (heap st2) x = Some d" "Some y \<in> set (hn_subs d)"
    then show "y \<in> stored st2" using r(4) R(6) [of x d y] by (cases "x = a") auto
  next
    fix m assume "m \<in> subtrees n"
    then show "\<exists>x\<in>stored st2. dag (heap st2) x m" using dag2 a2 R(8) by (auto simp: n subtrees_Node)
  next
    fix x assume x: "x \<in> stored st2" "x \<notin> stored st"
    show "\<exists>m\<in>subtrees n. dag (heap st2) x m"
    proof (cases "x = a")
      case False
      then show ?thesis using R(9) [OF x(1)] x(2) add(3) by (auto simp: n subtrees_Node)
    qed (use dag2 subtrees_self in blast)
  qed (use R(2-5,7) add c(3) in auto)
  moreover have "patched (heap st) (heap st2) S p i a" unfolding patched_def
  proof (intro allI impI)
    fix x assume x: "x \<notin> S"
    have eq: "(if p = Some x then (hn_subs d)[i := Some a] else hn_subs d) = hn_subs d" if "hcells (heap st) x = Some d" for d
      using pre' that unfolding slot_def by (auto simp: list_update_same_conv)
    have "rel_option (\<lambda>c c'. same_head c c' \<and> hn_subs c' = hn_subs c) (hcells (heap st) x) (hcells (heap st2) x)"
      using r(3) x c(3) unfolding patched_def add(2) by auto
    then show "rel_option (\<lambda>c c'. same_head c c' \<and> hn_subs c' = (if p = Some x then (hn_subs c)[i := Some a] else hn_subs c))
      (hcells (heap st) x) (hcells (heap st2) x)"
      using eq by (cases "hcells (heap st) x"; cases "hcells (heap st2) x") auto
  qed
  ultimately show ?thesis using r(1) owns_length [OF c(2)] dag2 a2 by auto
qed

lemma take_node_fits:
  assumes cls: "chunk_class xxh3 T"
  shows "height n \<le> f \<Longrightarrow> take_fits xxh3 type_str T f n"
proof (induction n arbitrary: f rule: node_induct)
  case (Node k r v ns re nt)
  let ?n = "Node k r v ns re nt"
  obtain g where f: "f = Suc g" using Node.prems by (cases f) auto
  have sub: "take_fits xxh3 type_str T g m" if "Some m \<in> set ns" for m
    using Node.IH [OF that] Node.prems height_le_iff that unfolding f by blast
  show ?case unfolding take_fits_def
  proof (intro allI impI)
    fix st P S p a i assume pre: "take_pre xxh3 type_str T st P S p a i ?n"
    note pre' = pre [unfolded take_pre_def]
    have nT: "?n \<in> T" and o: "own (heap st) p a ?n S" and inv: "chunk_inv xxh3 type_str T st P" using pre' by auto
    obtain c where c: "hcells (heap st) a = Some c" "hn_parent c = p" "a \<in> S" "owns (heap st) a (hn_subs c) ns (S - {a})"
      using o unfolding own_iff by blast
    have hash: "hash_node xxh3 (Suc g) (heap st) a = Some (node_key xxh3 ?n)"
      by (rule hash_node_dag [OF own_dag [OF o]]) (use cls nT Node.prems f in \<open>auto simp: chunk_class_def\<close>)
    show "\<exists>st'. chunk_store_take_node xxh3 type_str f st a = Some st' \<and> take_post xxh3 type_str T st P S (subtrees ?n) st'
        \<and> (\<exists>b\<in>stored st'. dag (heap st') b ?n \<and> patched (heap st) (heap st') S p i b)"
    proof (cases "map_get (seen_chunks st) (node_key xxh3 ?n)")
      case None
      show ?thesis using take_new [OF pre refl cls c(1,4,3) None sub refl] c(1) hash None by (auto simp: f Let_def)
    next
      case (Some b)
      obtain m where m: "b \<in> stored st" "m \<in> T" "dag (heap st) b m" "node_key xxh3 ?n = node_key xxh3 m"
        using chunk_invD(10) [OF inv Some] by blast
      have "erase ?n = erase m" using cls nT m(2,4) unfolding chunk_class_def by blast
      then have dagb: "dag (heap st) b ?n" using dag_cong m(3) by blast
      obtain h where h: "(case p of None \<Rightarrow> Some (heap st) | Some q \<Rightarrow> heap_replace_subnode (heap st) q a b) = Some h"
        "hbrk h = hbrk (heap st)" "own h None a ?n S" "patched (heap st) h S p i b"
        "\<And>x. x \<in> P \<Longrightarrow> x \<notin> S \<Longrightarrow> hcells h x = hcells (heap st) x"
        using redirect_parent [OF pre m(1) dagb c(1,2)] by blast
      have free: "heap_node_free (Suc g) h a = Some (heap_minus h S)"
        by (rule heap_node_free_own [OF h(3)]) (use Node.prems f in simp)
      have "chunk_store_take_node xxh3 type_str f st a = Some (st\<lparr>heap := heap_minus h S\<rparr>)"
        using c(1,2) hash Some h(1) free by (simp add: f del: heap_node_free.simps)
      moreover have "b \<in> stored (st\<lparr>heap := heap_minus h S\<rparr>)" using m(1) by (simp add: stored_def)
      ultimately show ?thesis using take_seen [OF pre m(1) dagb h(2,4,3,5) refl] by blast
    qed
  qed
qed

section \<open>The operations\<close>

text \<open>What the store holds: the trees of its nodes, up to the size fields.\<close>

definition store_trees :: "chunks \<Rightarrow> node set" where
  "store_trees st = {erase m |m. \<exists>a\<in>stored st. dag (heap st) a m}"

lemma dag_frame:
  assumes "\<And>x. x \<in> dom (hcells h) \<Longrightarrow> hcells h' x = hcells h x"
  shows "dag h a n \<Longrightarrow> dag h' a n"
proof (induction n arbitrary: a rule: node_induct)
  case (Node i r v ns re nt)
  obtain c where c: "hcells h a = Some c" "hn_id c = i" "hn_rule c = r" "hn_val c = v"
    "list_all2 (rel_option (dag h)) (hn_subs c) ns" by (rule dagE [OF Node.prems])
  have "list_all2 (rel_option (dag h')) (hn_subs c) ns"
  proof (rule list_all2_patch [OF c(5) refl])
    fix j assume j: "j < length (hn_subs c)" "rel_option (dag h) (hn_subs c ! j) (ns ! j)"
    have jn: "ns ! j \<in> set ns" using j(1) list_all2_lengthD [OF c(5)] by simp
    show "rel_option (dag h') (hn_subs c ! j) (ns ! j)"
    proof (cases "ns ! j")
      case (Some m)
      then show ?thesis using j(2) Node.IH [of m] jn by (auto simp: option_rel_Some2)
    qed (use j(2) in simp)
  qed
  then show ?case using c assms [of a] by (auto simp: dag_iff)
qed

lemma chunk_inv_clone:
  assumes inv: "chunk_inv xxh3 type_str T st {}"
    and h: "hbrk (heap st) \<le> hbrk h" "\<forall>x<hbrk (heap st). hcells h x = hcells (heap st) x"
      "\<forall>x\<ge>hbrk h. hcells h x = hcells (heap st) x" "{hbrk (heap st)..<hbrk h} \<subseteq> dom (hcells h)"
  shows "chunk_inv xxh3 type_str T (st\<lparr>heap := h\<rparr>) {hbrk (heap st)..<hbrk h}"
proof -
  note I = chunk_invD [OF inv]
  have st: "stored (st\<lparr>heap := h\<rparr>) = stored st" by (simp add: stored_def)
  have low: "x < hbrk (heap st)" if "x \<in> stored st" for x using I(5) that by auto
  have dag: "dag h x m" if "dag (heap st) x m" for x m
    by (rule dag_frame [OF _ that]) (use I(3) low h(2) in auto)
  have dom: "dom (hcells h) = stored st \<union> {hbrk (heap st)..<hbrk h}"
  proof -
    have "x \<in> dom (hcells h) \<longleftrightarrow> x \<in> stored st \<union> {hbrk (heap st)..<hbrk h}" for x
    proof -
      consider "x < hbrk (heap st)" | "hbrk (heap st) \<le> x" "x < hbrk h" | "hbrk h \<le> x" "hbrk (heap st) \<le> x"
        using h(1) by linarith
      then show ?thesis
      proof cases
        case 1
        then show ?thesis using h(2) I(3) by (auto simp: dom_def)
      next
        case 3
        then have "x \<notin> stored st" using low [of x] by auto
        then show ?thesis using 3 h(3) I(3) by (auto simp: dom_def)
      qed (use h(4) in auto)
    qed
    then show ?thesis by blast
  qed
  have lists: "distinct l \<and> (\<forall>x\<in>set l. \<exists>c. hcells h x = Some c \<and> type_str (hn_id c) = k)"
    if l: "map_get (chunk_store st) k = Some l" for k l
  proof -
    have "hcells h x = hcells (heap st) x" if "x \<in> set l" for x
      using h(2) low [of x] that l by (auto simp: stored_def)
    then show ?thesis using I(8) [OF l] by auto
  qed
  have "\<exists>n\<in>T. dag h a n \<and> map_get (seen_chunks st) (node_key xxh3 n) = Some a" if "a \<in> stored st" for a
    using I(9) [OF that] dag by blast
  moreover have "a \<in> stored st \<and> (\<exists>n\<in>T. dag h a n \<and> k = node_key xxh3 n)" if "map_get (seen_chunks st) k = Some a" for k a
    using I(10) [OF that] dag by blast
  ultimately show ?thesis unfolding chunk_inv_def st using I(1,2,6,7) h(1) dom lists low
    by (intro conjI allI impI ballI) (auto dest: low)
qed

lemma add_tree_spec:
  assumes cls: "chunk_class xxh3 T" and inv: "chunk_inv xxh3 type_str T st {}" and n: "root t = Some n" "n \<in> T"
    and small: "hbrk (heap st) + node_count n < 2 ^ 31"
  shows "\<exists>st'. chunk_store_add_tree xxh3 type_str st (Some t) = Some st' \<and> chunk_inv xxh3 type_str T st' {}
    \<and> hbrk (heap st') = hbrk (heap st) + node_count n \<and> store_trees st' = store_trees st \<union> erase ` subtrees n"
proof -
  obtain a h where cl: "heap_clone (heap st) n = (a, h)" by (cases "heap_clone (heap st) n")
  let ?S = "{hbrk (heap st)..<hbrk h}"
  define st1 where "st1 = st\<lparr>heap := h\<rparr>"
  have wf: "wf_node n" using cls n(2) by (auto simp: chunk_class_def)
  note C = heap_clone_own [OF wf cl]
  have o: "own h None a n ?S" using C by blast
  have "?S \<subseteq> dom (hcells h)" using own_alive [OF o] by auto
  then have inv1: "chunk_inv xxh3 type_str T st1 ?S" unfolding st1_def using C by (intro chunk_inv_clone [OF inv]) auto
  note I = chunk_invD [OF inv] and I1 = chunk_invD [OF inv1]
  have heap1: "heap st1 = h" and stored1: "stored st1 = stored st" by (simp_all add: st1_def stored_def)
  have low: "y < hbrk (heap st)" if "y \<in> dom (hcells (heap st))" for y using I(3,5) that by auto
  have old: "y \<notin> ?S" if x: "x \<notin> ?S" "hcells h x = Some c" "Some y \<in> set (hn_subs c)" for x c y
  proof -
    have "x \<in> stored st" using I1(3) x(1,2) heap1 stored1 by blast
    then obtain m where m: "dag (heap st) x m" using I(9) by blast
    then obtain k r v ns re nt where mm: "m = Node k r v ns re nt" by (cases m)
    obtain c0 where c0: "hcells (heap st) x = Some c0" "list_all2 (rel_option (dag (heap st))) (hn_subs c0) ns"
      using dagE [OF m [unfolded mm]] by metis
    have "x < hbrk (heap st)" using low [of x] c0(1) by blast
    then have "c0 = c" using C c0(1) x(2) by auto
    then obtain j where j: "j < length (hn_subs c0)" "hn_subs c0 ! j = Some y" using x(3) by (auto simp: in_set_conv_nth)
    then obtain m' where "dag (heap st) y m'" using list_all2_nthD [OF c0(2) j(1)] by (auto simp: option_rel_Some1)
    then have "y \<in> dom (hcells (heap st))" by (cases m') (auto simp: dag_iff)
    then show ?thesis using low [of y] by simp
  qed
  have "take_pre xxh3 type_str T st1 ?S ?S None a 0 n"
    unfolding take_pre_def slot_def refs_only_def pend_def heap1
  proof (intro conjI allI impI)
    fix x c j y assume "hcells h x = Some c" "x \<notin> ?S" "j < length (hn_subs c)" "hn_subs c ! j = Some y" "y \<in> ?S"
    then show "None = Some x" "j = 0" using old [of x c y] nth_mem [of j "hn_subs c"] by auto
  next
    fix x c y assume "x \<in> stored st1" "hcells h x = Some c" "Some y \<in> set (hn_subs c)" "y \<in> ?S"
    then show "\<exists>k. dag h x k \<and> height n < height k" using old [of x c y] I1(4) by blast
  qed (use inv1 C o n(2) small in auto)
  from take_fitsD [OF take_node_fits [OF cls height_le_count] this] obtain st2 where t:
    "chunk_store_take_node xxh3 type_str (node_count n) st1 a = Some st2"
    "take_post xxh3 type_str T st1 ?S ?S (subtrees n) st2" by metis
  note Q = take_postD [OF t(2)]
  have keep: "dag (heap st2) x m" if "x \<in> stored st" "dag (heap st) x m" for x m
  proof -
    have "dag h x m" by (rule dag_frame [OF _ that(2)]) (use C low in auto)
    moreover have "x \<notin> ?S" using I1(4) that(1) stored1 by blast
    ultimately show ?thesis using Q(7) [of x m] heap1 by blast
  qed
  have "store_trees st2 = store_trees st \<union> erase ` subtrees n"
  proof (intro equalityI subsetI)
    fix e assume "e \<in> store_trees st2"
    then obtain m x where m: "e = erase m" "x \<in> stored st2" "dag (heap st2) x m" by (auto simp: store_trees_def)
    show "e \<in> store_trees st \<union> erase ` subtrees n"
    proof (cases "x \<in> stored st")
      case True
      then obtain m' where m': "dag (heap st) x m'" using I(9) by blast
      then have "e = erase m'" using dag_unique [OF keep [OF True m'] m(3)] m(1) by simp
      then show ?thesis using True m' by (auto simp: store_trees_def)
    next
      case False
      then obtain m' where "m' \<in> subtrees n" "dag (heap st2) x m'" using Q(9) m(2) stored1 by blast
      then show ?thesis using dag_unique [OF m(3)] m(1) by blast
    qed
  next
    fix e assume "e \<in> store_trees st \<union> erase ` subtrees n"
    then show "e \<in> store_trees st2"
    proof
      assume "e \<in> store_trees st"
      then obtain m x where "e = erase m" "x \<in> stored st" "dag (heap st) x m" by (auto simp: store_trees_def)
      then have "dag (heap st2) x m" "x \<in> stored st2" using keep Q(3) stored1 by auto
      then show ?thesis using \<open>e = erase m\<close> unfolding store_trees_def by blast
    qed (use Q(8) in \<open>auto simp: store_trees_def\<close>)
  qed
  then show ?thesis using t(1) Q(1,2) C heap1 n(1) cl by (auto simp: chunk_store_add_tree_def st1_def)
qed

text \<open>Each tree is kept once.\<close>

lemma stored_unique:
  assumes "chunk_inv xxh3 type_str T st P" "a \<in> stored st" "b \<in> stored st" "dag (heap st) a n" "dag (heap st) b n"
  shows "a = b"
proof -
  obtain m m' where m: "dag (heap st) a m" "map_get (seen_chunks st) (node_key xxh3 m) = Some a"
      "dag (heap st) b m'" "map_get (seen_chunks st) (node_key xxh3 m') = Some b"
    using chunk_invD(9) [OF assms(1)] assms(2,3) by meson
  have "erase m = erase m'" using dag_unique [OF m(1) assms(4)] dag_unique [OF m(3) assms(5)] by simp
  then have "node_key xxh3 m = node_key xxh3 m'" by (rule node_key_cong)
  then show ?thesis using m(2,4) by simp
qed

lemma map_get_init: "map_get map_init k = None"
  using map_get_abs [OF map_init_ok(1), of k] by (simp add: map_init_ok(2))

lemma map_init_nnodes: "nnodes map_init = 0"
  by (simp add: map_init_def)

lemma chunk_init_inv: "chunk_inv xxh3 type_str T (chunk_store_init \<lparr>hcells = Map.empty, hbrk = 0\<rparr>) {}"
proof -
  have "stored (chunk_store_init \<lparr>hcells = Map.empty, hbrk = 0\<rparr>) = {}"
    by (simp add: stored_def chunk_store_init_def map_get_init)
  then show ?thesis unfolding chunk_inv_def by (simp add: chunk_store_init_def map_get_init map_init_ok(1) map_init_nnodes)
qed

text \<open>Clearing the store.\<close>

lemma free_only_self_all_spec:
  "distinct l \<Longrightarrow> set l \<subseteq> dom (hcells h) \<Longrightarrow> free_only_self_all h l = Some (heap_minus h (set l))"
proof (induction l arbitrary: h)
  case (Cons a l)
  then have "set l \<subseteq> dom (hcells (heap_minus h {a}))" by auto
  then show ?case using Cons by (auto simp: heap_free_minus dom_def)
qed simp

lemma clear_lists_spec:
  assumes "distinct ks" "\<And>k. k \<in> set ks \<Longrightarrow> \<exists>l. map_get m k = Some l \<and> distinct l \<and> set l \<subseteq> dom (hcells h)"
    "\<And>j k l l'. map_get m j = Some l \<Longrightarrow> map_get m k = Some l' \<Longrightarrow> j \<noteq> k \<Longrightarrow> set l \<inter> set l' = {}"
  shows "clear_lists m h ks = Some (heap_minus h (\<Union>k\<in>set ks. case map_get m k of None \<Rightarrow> {} | Some l \<Rightarrow> set l))"
  using assms(1,2)
proof (induction ks arbitrary: h)
  case (Cons k ks)
  obtain l where l: "map_get m k = Some l" "distinct l" "set l \<subseteq> dom (hcells h)" using Cons.prems(2) by (meson list.set_intros(1))
  have "clear_lists m (heap_minus h (set l)) ks =
    Some (heap_minus (heap_minus h (set l)) (\<Union>k\<in>set ks. case map_get m k of None \<Rightarrow> {} | Some l \<Rightarrow> set l))"
  proof (rule Cons.IH)
    fix k' assume k': "k' \<in> set ks"
    then obtain l' where l': "map_get m k' = Some l'" "distinct l'" "set l' \<subseteq> dom (hcells h)"
      using Cons.prems(2) by (meson list.set_intros(2))
    have "set l \<inter> set l' = {}" using assms(3) [OF l(1) l'(1)] Cons.prems(1) k' by auto
    then show "\<exists>l'. map_get m k' = Some l' \<and> distinct l' \<and> set l' \<subseteq> dom (hcells (heap_minus h (set l)))"
      using l' by (intro exI [of _ l']) (auto simp: dom_def)
  qed (use Cons.prems in simp)
  then show ?case using l free_only_self_all_spec [OF l(2,3)] by simp
qed simp

lemma map_keys_dom:
  assumes "map_ok m"
  obtains ks where "map_keys m = Some ks" "distinct ks" "\<And>k. k \<in> set ks \<longleftrightarrow> map_get m k \<noteq> None"
proof (rule that)
  show "map_keys m = Some (map mn_key (map_entries m))" by (rule map_keys_entries [OF assms])
  show "distinct (map mn_key (map_entries m))" using assms by (simp add: map_ok_alt)
  show "k \<in> set (map mn_key (map_entries m)) \<longleftrightarrow> map_get m k \<noteq> None" for k
    using map_abs_None [of m k] map_get_abs [OF assms, of k] by simp
qed

lemma chunk_store_clear_spec:
  assumes "chunk_inv xxh3 type_str T st {}"
  shows "\<exists>st'. chunk_store_clear st = Some st' \<and> dom (hcells (heap st')) = {} \<and> chunk_inv xxh3 type_str T' st' {}"
proof -
  note I = chunk_invD [OF assms]
  obtain ks where ks: "map_keys (chunk_store st) = Some ks" "distinct ks" "\<And>k. k \<in> set ks \<longleftrightarrow> map_get (chunk_store st) k \<noteq> None"
    using map_keys_dom [OF I(2)] by blast
  let ?U = "\<Union>k\<in>set ks. case map_get (chunk_store st) k of None \<Rightarrow> {} | Some l \<Rightarrow> set l"
  have U: "?U = stored st" using ks(3) by (force simp: stored_def split: option.splits)
  have "clear_lists (chunk_store st) (heap st) ks = Some (heap_minus (heap st) ?U)"
  proof (rule clear_lists_spec [OF ks(2)])
    fix k assume "k \<in> set ks"
    then obtain l where "map_get (chunk_store st) k = Some l" using ks(3) by blast
    then show "\<exists>l. map_get (chunk_store st) k = Some l \<and> distinct l \<and> set l \<subseteq> dom (hcells (heap st))"
      using I(8) by blast
  next
    fix j k l l' assume l: "map_get (chunk_store st) j = Some l" "map_get (chunk_store st) k = Some l'" "j \<noteq> k"
    show "set l \<inter> set l' = {}" using I(8) [OF l(1)] I(8) [OF l(2)] l(3) by auto (metis option.inject)
  qed
  then have clear: "clear_lists (chunk_store st) (heap st) ks = Some (heap_minus (heap st) (stored st))" using U by simp
  let ?st = "\<lparr>heap = heap_minus (heap st) (stored st), chunk_store = map_init, seen_chunks = map_init\<rparr>"
  have "chunk_store_clear st = Some ?st" using ks(1) clear by (simp add: chunk_store_clear_def map_deinit_def map_init_def)
  moreover have empty: "dom (hcells (heap ?st)) = {}" using I(3) by (auto simp: dom_def)
  moreover have "chunk_inv xxh3 type_str T' ?st {}"
  proof -
    have "stored ?st = {}" by (simp add: stored_def map_get_init)
    then show ?thesis unfolding chunk_inv_def using empty by (simp add: map_get_init map_init_ok(1) map_init_nnodes)
  qed
  ultimately show ?thesis by blast
qed

text \<open>Reading an alternative.\<close>

lemma alternative_spec:
  assumes inv: "chunk_inv xxh3 type_str T st {}"
    and m: "fst (chunk_store_get_alternative_node type_str rb st n s) = Some m"
  shows "\<exists>m'\<in>T. erase m = erase m' \<and> type_str (node_id m) = type_str (node_id n) \<and> erase m \<in> store_trees st"
proof -
  note I = chunk_invD [OF inv]
  obtain l w s' where l: "map_get (chunk_store st) (type_str (node_id n)) = Some l" "rb s (of_nat (length l)) = (w, s')"
    "nat (sint w) < length l" "heap_read (hbrk (heap st)) (heap st) (l ! nat (sint w)) = Some m"
    using m by (auto simp: chunk_store_get_alternative_node_def Let_def split: option.splits prod.splits if_splits)
  let ?a = "l ! nat (sint w)"
  have a: "?a \<in> set l" using l(3) by simp
  then have as: "?a \<in> stored st" using l(1) by (auto simp: stored_def)
  obtain c where c: "hcells (heap st) ?a = Some c" "type_str (hn_id c) = type_str (node_id n)" using I(8) [OF l(1)] a by blast
  obtain m' where m': "m' \<in> T" "dag (heap st) ?a m'" using I(9) [OF as] by blast
  have "height m' \<le> hbrk (heap st)" by (rule dag_height_bound [OF m'(2)]) (use I(3,5) in auto)
  from heap_read_dag [OF m'(2) this] have e: "erase m = erase m'" using l(4) by auto
  have "hn_id c = node_id m'" using m'(2) c(1) by (cases m') (auto simp: dag_iff)
  moreover have "node_id (erase m) = node_id m" "node_id (erase m') = node_id m'" by (cases m; simp; cases m'; simp)+
  ultimately have "type_str (node_id m) = type_str (node_id n)" using c(2) e by metis
  then show ?thesis using m' e as by (auto simp: store_trees_def intro!: bexI [of _ m'])
qed

section \<open>The hash stream\<close>

lemma uint64_to_hex_loop_eq:
  "uint64_to_hex_loop k num dest = map (\<lambda>j. hex_digit (drop_bit (4 * j) num AND 15)) (rev [0..<k]) @ dest"
proof (induction k arbitrary: num dest)
  case (Suc k)
  have "[0..<Suc k] = 0 # map Suc [0..<k]" by (simp add: map_Suc_upt upt_conv_Cons)
  then show ?case unfolding uint64_to_hex_loop.simps Suc.IH by (simp add: rev_map add.commute)
qed simp

lemma hex_digits: "map (hex_digit \<circ> of_nat) [0..<16] = [48, 49, 50, 51, 52, 53, 54, 55, 56, 57, 65, 66, 67, 68, 69, 70]"
  by code_simp

lemma hex_digit_inj:
  assumes "d < 16" "e < 16" "hex_digit d = hex_digit e"
  shows "d = e"
proof -
  have *: "unat x < 16" "x = of_nat (unat x)" if "x < 16" for x :: u64 using that by (simp_all add: word_less_nat_alt)
  have "distinct (map (hex_digit \<circ> of_nat) [0..<16])" unfolding hex_digits by simp
  then have inj: "inj_on (hex_digit \<circ> of_nat) {0..<16}" by (simp add: distinct_map)
  have "(hex_digit \<circ> of_nat) (unat d) = (hex_digit \<circ> of_nat) (unat e)" using assms(3) by simp
  then have "unat d = unat e" by (rule inj_onD [OF inj]) (use * [OF assms(1)] * [OF assms(2)] in simp_all)
  then show ?thesis by (simp add: word_unat_eq_iff)
qed

lemma hex_digit_nonzero:
  assumes "d < 16"
  shows "hex_digit d \<noteq> 0"
proof -
  have "unat d < 16" "d = of_nat (unat d)" using assms by (simp_all add: word_less_nat_alt)
  then have "hex_digit d \<in> set (map (hex_digit \<circ> of_nat) [0..<16])" by (auto intro: image_eqI [of _ _ "unat d"])
  then show ?thesis unfolding hex_digits by auto
qed

lemma nibble_less: "w AND 15 < (16 :: u64)"
proof -
  have "w AND 15 = take_bit 4 w" by (simp add: take_bit_eq_mask mask_eq_exp_minus_1)
  moreover have "unat (take_bit 4 w) < 16" using take_bit_nat_less_exp [of 4 "unat w"] by (simp add: unsigned_take_bit_eq)
  ultimately show ?thesis by (simp add: word_less_nat_alt)
qed

lemma uint64_to_hex_spec:
  "length (uint64_to_hex num) = 16" "0 \<notin> set (uint64_to_hex num)" "uint64_to_hex num = uint64_to_hex num' \<longleftrightarrow> num = num'"
proof -
  show "length (uint64_to_hex num) = 16" by (simp add: uint64_to_hex_def uint64_to_hex_loop_eq)
  show "0 \<notin> set (uint64_to_hex num)"
    using hex_digit_nonzero [OF nibble_less, symmetric] by (auto simp: uint64_to_hex_def uint64_to_hex_loop_eq)
  have "num = num'" if "uint64_to_hex num = uint64_to_hex num'"
  proof (rule bit_eqI)
    fix n assume n: "possible_bit TYPE(u64) n"
    then have n64: "n < 64" by simp
    then have "n div 4 \<in> set (rev [0..<16])" by auto
    then have "hex_digit (drop_bit (4 * (n div 4)) num AND 15) = hex_digit (drop_bit (4 * (n div 4)) num' AND 15)"
      using that unfolding uint64_to_hex_def uint64_to_hex_loop_eq by (metis (mono_tags, lifting) append_Nil2 map_eq_conv)
    then have eq: "drop_bit (4 * (n div 4)) num AND 15 = drop_bit (4 * (n div 4)) num' AND 15"
      by (intro hex_digit_inj nibble_less)
    have "bit (15 :: u64) (n mod 4)"
    proof -
      have "n mod 4 = 0 \<or> n mod 4 = 1 \<or> n mod 4 = 2 \<or> n mod 4 = 3" by linarith
      then show ?thesis by auto
    qed
    moreover have "4 * (n div 4) + n mod 4 = n" by simp
    ultimately show "bit num n \<longleftrightarrow> bit num' n"
      using arg_cong [OF eq, of "\<lambda>w. bit w (n mod 4)"] by (simp add: bit_and_iff bit_drop_bit_eq)
  qed
  then show "uint64_to_hex num = uint64_to_hex num' \<longleftrightarrow> num = num'" by blast
qed

text \<open>The stream of a derivation tree cannot be confused with that of another one.\<close>

lemma le32_append_inj: "le32 a @ xs = le32 b @ ys \<longleftrightarrow> a = b \<and> xs = ys"
proof
  assume eq: "le32 a @ xs = le32 b @ ys"
  then have "a = b" by (metis rd32_le32)
  then show "a = b \<and> xs = ys" using eq by simp
qed simp

lemma node_bytes_prefix:
  assumes "conforms g n" "conforms g m" "fits32 n" "fits32 m" "node_bytes n @ xs = node_bytes m @ ys"
  shows "erase n = erase m \<and> xs = ys"
  using assms
proof (induction n arbitrary: m xs ys rule: node_induct)
  case (Node i r v ns re nt)
  let ?b = "\<lambda>s. case s of None \<Rightarrow> [] | Some n \<Rightarrow> node_bytes n"
  obtain i' r' v' ns' re' nt' where m: "m = Node i' r' v' ns' re' nt'" by (cases m)
  have eq: "i = i'" "r = r'" "(of_nat (length v) :: u32) = of_nat (length v')"
      "v @ concat (map ?b ns) @ xs = v' @ concat (map ?b ns') @ ys"
    using Node.prems(5) by (simp_all add: m le32_append_inj)
  have "length v = length v'"
    using arg_cong [OF eq(3), of unat] Node.prems(3,4) by (simp add: m)
  then have v: "v = v'" and rest: "concat (map ?b ns) @ xs = concat (map ?b ns') @ ys" using eq(4) by auto
  have len: "length ns = length ns'" using Node.prems(1,2) eq(1,2)
    by (cases "i = 0") (auto simp: m dest!: list_all2_lengthD)
  have full: "None \<notin> set ns" "None \<notin> set ns'" using Node.prems(1,2) by (auto simp: m split: if_splits)
  have "map (map_option erase) as = map (map_option erase) bs \<and> xs = ys"
    if "length as = length bs" "set as \<subseteq> set ns" "set bs \<subseteq> set ns'" "concat (map ?b as) @ xs = concat (map ?b bs) @ ys" for as bs
    using that
  proof (induction as bs rule: list_induct2)
    case (Cons a as b bs)
    obtain n1 m1 where ab: "a = Some n1" "b = Some m1" using Cons.prems(1,2) full by (cases a; cases b) auto
    have n1: "Some n1 \<in> set ns" "Some m1 \<in> set ns'" using Cons.prems ab by auto
    have "erase n1 = erase m1 \<and> concat (map ?b as) @ xs = concat (map ?b bs) @ ys"
      by (rule Node.IH [OF n1(1)])
        (use Node.prems n1 Cons.prems(3) conforms_subnode in \<open>auto simp: m ab\<close>)
    then show ?case using Cons ab by auto
  qed simp
  from this [OF len] rest have "map (map_option erase) ns = map (map_option erase) ns' \<and> xs = ys" by simp
  then show ?case using eq v by (simp add: m)
qed

section \<open>Splicing from the store\<close>

text \<open>A store of derivation trees; \<^verbatim>\<open>node_type_str\<close> tells the node types apart.\<close>

definition grammar_store :: "(u8 list \<Rightarrow> u64) \<Rightarrow> (u32 \<Rightarrow> key) \<Rightarrow> grammar \<Rightarrow> chunks \<Rightarrow> bool" where
  "grammar_store xxh3 type_str g st \<longleftrightarrow> inj_on type_str (insert 0 (set (g_keys g)))
     \<and> (\<exists>T. (\<forall>n\<in>T. conforms g n) \<and> chunk_inv xxh3 type_str T st {})"

lemma conforms_id: "conforms g n \<Longrightarrow> node_id n \<in> insert 0 (set (g_keys g))"
  by (cases n) (auto split: if_splits)

lemma conforms_cong: "erase n = erase m \<Longrightarrow> conforms g n \<longleftrightarrow> conforms g m"
  by (metis conforms_erase)

interpretation chunk_splicer: splicer "conforms g" "\<lambda>k. k \<in> set (g_keys g)"
  "wf_grammar g \<and> (\<exists>rank. graded g rank r)" "gen_func g r (draw random_next64)" "draw random_next64"
  "grammar_store xxh3 type_str g" "chunk_store_get_alternative_node type_str (draw random_next64)" for g r xxh3 type_str
proof unfold_locales
  fix c n s m
  assume c: "grammar_store xxh3 type_str g c" and n: "conforms g n"
    and m: "fst (chunk_store_get_alternative_node type_str (draw random_next64) c n s) = Some m"
  obtain T where T: "\<forall>n\<in>T. conforms g n" "chunk_inv xxh3 type_str T c {}" and inj: "inj_on type_str (insert 0 (set (g_keys g)))"
    using c unfolding grammar_store_def by blast
  obtain m' where m': "m' \<in> T" "erase m = erase m'" "type_str (node_id m) = type_str (node_id n)"
    using alternative_spec [OF T(2) m] by blast
  have cm: "conforms g m" using T(1) m'(1) conforms_cong [OF m'(2)] by blast
  then show "conforms g m \<and> node_id m = node_id n"
    using inj_onD [OF inj m'(3) conforms_id [OF cm] conforms_id [OF n]] by blast
qed

section \<open>Properties\<close>

text \<open>
  C5: the chunk store refines a set of trees.  For trees on which the digest has no collisions, adding
  a tree to a well-formed store returns (no freed or missing node is accessed), keeps the invariant,
  and adds exactly the subtrees of the tree to what the store holds, where every tree is held by one
  node only; the shared nodes of older trees keep their values.  Clearing the store frees every node
  exactly once and leaves the empty store.
\<close>
theorem chunk_store_refines_set:
  assumes "chunk_class xxh3 T" "chunk_inv xxh3 type_str T st {}" "root t = Some n" "n \<in> T"
    and "hbrk (heap st) + node_count n < 2 ^ 31"
  shows "\<exists>st'. chunk_store_add_tree xxh3 type_str st (Some t) = Some st' \<and> chunk_inv xxh3 type_str T st' {}
    \<and> store_trees st' = store_trees st \<union> erase ` subtrees n
    \<and> (\<forall>a b m. a \<in> stored st' \<longrightarrow> b \<in> stored st' \<longrightarrow> dag (heap st') a m \<longrightarrow> dag (heap st') b m \<longrightarrow> a = b)
    \<and> (\<exists>st''. chunk_store_clear st' = Some st'' \<and> dom (hcells (heap st'')) = {} \<and> store_trees st'' = {})"
proof -
  obtain st' where st': "chunk_store_add_tree xxh3 type_str st (Some t) = Some st'" "chunk_inv xxh3 type_str T st' {}"
    "store_trees st' = store_trees st \<union> erase ` subtrees n" using add_tree_spec [OF assms] by blast
  obtain st'' where st'': "chunk_store_clear st' = Some st''" "dom (hcells (heap st'')) = {}" "chunk_inv xxh3 type_str {} st'' {}"
    using chunk_store_clear_spec [OF st'(2)] by blast
  have "stored st'' = {}" using chunk_invD(3) [OF st''(3)] st''(2) by simp
  then have "store_trees st'' = {}" by (simp add: store_trees_def)
  then show ?thesis using st' st''(1,2) stored_unique [OF st'(2)] by blast
qed

definition pair_leaf :: node where
  "pair_leaf = Node 0 0 [97] [] 0 0"

definition pair_node :: node where
  "pair_node = Node 1 0 [] [Some pair_leaf, Some pair_leaf] 0 1"

lemma pair_class: "chunk_class (\<lambda>bs. of_nat (length bs)) {pair_node, pair_leaf}"
proof -
  have "node_key (\<lambda>bs. of_nat (length bs)) pair_node \<noteq> node_key (\<lambda>bs. of_nat (length bs)) pair_leaf"
    by (simp add: node_key_def uint64_to_hex_spec(3) pair_node_def pair_leaf_def)
  then show ?thesis by (simp add: chunk_class_def) (simp add: pair_node_def pair_leaf_def)
qed

theorem chunk_store_refines_set_witness:
  "\<exists>st'. chunk_store_add_tree (\<lambda>bs. of_nat (length bs)) (\<lambda>i. [ucast i]) (chunk_store_init \<lparr>hcells = Map.empty, hbrk = 0\<rparr>)
      (Some (tree_create\<lparr>root := Some pair_node\<rparr>)) = Some st'
    \<and> store_trees st' = {erase pair_node, erase pair_leaf}"
proof -
  have "root (tree_create\<lparr>root := Some pair_node\<rparr>) = Some pair_node" by simp
  moreover have "hbrk (heap (chunk_store_init \<lparr>hcells = Map.empty, hbrk = 0\<rparr>)) + node_count pair_node < 2 ^ 31"
    by (simp add: chunk_store_init_def pair_node_def pair_leaf_def)
  moreover have "store_trees (chunk_store_init \<lparr>hcells = Map.empty, hbrk = 0\<rparr>) = {}"
    by (simp add: store_trees_def stored_def chunk_store_init_def map_get_init)
  moreover have "subtrees pair_node = {pair_node, pair_leaf}"
    by (auto simp: pair_node_def pair_leaf_def subtrees_Node)
  ultimately show ?thesis
    using chunk_store_refines_set [OF pair_class chunk_init_inv, of "tree_create\<lparr>root := Some pair_node\<rparr>" pair_node "\<lambda>i. [ucast i]"]
    by auto
qed

text \<open>
  C12: the hash key of a chunk.  The key is a string of 16 non-zero characters and tells digests apart;
  and the bytes passed to the digest tell derivation trees apart, although the number of subnodes is
  not among them: two derivation trees with the same bytes are equal up to the size fields.
\<close>
theorem hash_key_injective:
  assumes "conforms g n" "conforms g m" "fits32 n" "fits32 m"
    and "dag h a n" "dag h' b m" "height n \<le> f" "height m \<le> f"
  shows "length (uint64_to_hex d) = 16 \<and> 0 \<notin> set (uint64_to_hex d) \<and> (uint64_to_hex d = uint64_to_hex e \<longleftrightarrow> d = e)
    \<and> node_update_hash f h a [] \<noteq> None
    \<and> (node_update_hash f h a [] = node_update_hash f h' b [] \<longleftrightarrow> node_equal n m)"
proof -
  have "erase n = erase m" if "node_bytes n = node_bytes m"
    using node_bytes_prefix [OF assms(1-4), of "[]" "[]"] that by simp
  then have "node_bytes n = node_bytes m \<longleftrightarrow> node_equal n m"
    by (auto simp: node_equal_erase) (metis node_bytes_erase)
  moreover have "node_update_hash f h a [] = Some (node_bytes n)" "node_update_hash f h' b [] = Some (node_bytes m)"
    using node_update_hash_dag [OF assms(5) _ assms(7)] node_update_hash_dag [OF assms(6) _ assms(8)]
      conforms_wf [OF assms(1)] conforms_wf [OF assms(2)] by simp_all
  ultimately show ?thesis using uint64_to_hex_spec by simp
qed

theorem hash_key_injective_witness:
  "\<exists>h a. dag h a (test_tree 1) \<and> node_update_hash (height (test_tree 1)) h a [] \<noteq> None \<and> uint64_to_hex 255 \<noteq> uint64_to_hex 3"
proof -
  have c: "conforms test_grammar (test_tree 1)" "fits32 (test_tree 1)"
    using test_tree_ok [of 1] by (simp_all add: readable_def)
  obtain a h where "heap_clone \<lparr>hcells = Map.empty, hbrk = 0\<rparr> (test_tree 1) = (a, h)" by (metis surj_pair)
  then have "dag h a (test_tree 1)" using heap_clone_own own_dag conforms_wf [OF c(1)] by metis
  with hash_key_injective [OF c(1) c(1) c(2) c(2) this this order_refl order_refl, of 255 3] show ?thesis by auto
qed

text \<open>
  C6: \<^verbatim>\<open>splicing_mutation\<close> with a store of derivation trees stays in the language: on a derivation tree
  with up-to-date sizes it returns the tree unchanged, or with one non-terminal subtree exchanged for
  a subtree of the same type that the store holds; the result is a derivation tree of the same key,
  whose text the grammar derives.
\<close>
theorem splicing_mutation_in_language:
  assumes "grammar_store xxh3 type_str g st" "root t = Some n" "conforms g n" "sized n" "node_id n \<noteq> 0"
    and "non_term_size n < 2 ^ 32"
  shows "\<exists>t' s' n'. splicing_mutation (draw random_next64) (chunk_store_get_alternative_node type_str (draw random_next64) st) (Some t) s
      = Inr (Some t', s') \<and> root t' = Some n' \<and> conforms g n'
    \<and> (n' = n \<or> (\<exists>p old new. subtree n p = Some old \<and> node_id old \<noteq> 0 \<and> node_id new = node_id old
          \<and> erase new \<in> store_trees st \<and> n' = replace_at n p new))
    \<and> derives g (NonTerm (node_id n)) (node_to_buf [] n')"
proof -
  obtain t' s' n' where m: "splicing_mutation (draw random_next64) (chunk_store_get_alternative_node type_str (draw random_next64) st) (Some t) s
      = Inr (Some t', s')" "root t' = Some n'" "conforms g n'" "node_id n' = node_id n"
    "n' = n \<or> (\<exists>p old new s1 s2. subtree n p = Some old \<and> node_id old \<noteq> 0
       \<and> chunk_store_get_alternative_node type_str (draw random_next64) st old s1 = (Some new, s2) \<and> n' = replace_at n p new)"
    using chunk_splicer.splicing_mutation_spec [OF assms, of s] by blast
  have new: "node_id new = node_id old \<and> erase new \<in> store_trees st"
    if "subtree n p = Some old" "chunk_store_get_alternative_node type_str (draw random_next64) st old s1 = (Some new, s2)" "node_id old \<noteq> 0"
    for p old new s1 s2
  proof -
    have alt: "fst (chunk_store_get_alternative_node type_str (draw random_next64) st old s1) = Some new" using that(2) by simp
    obtain T where "chunk_inv xxh3 type_str T st {}" using assms(1) unfolding grammar_store_def by blast
    from alternative_spec [OF this alt] show ?thesis
      using chunk_splicer.alt_conf [OF assms(1) conforms_subtree [OF assms(3) that(1)] that(3) alt] by blast
  qed
  have "derives g (NonTerm (node_id n)) (node_to_buf [] n')" using conforms_derives [OF m(3)] m(4) assms(5) by simp
  moreover have "n' = n \<or> (\<exists>p old new. subtree n p = Some old \<and> node_id old \<noteq> 0 \<and> node_id new = node_id old
          \<and> erase new \<in> store_trees st \<and> n' = replace_at n p new)" using m(5) new by blast
  ultimately show ?thesis using m(1-3) by blast
qed

theorem splicing_mutation_in_language_witness:
  "\<exists>t' s' n'. splicing_mutation (draw random_next64) (chunk_store_get_alternative_node (\<lambda>i. [ucast i]) (draw random_next64)
        (chunk_store_init \<lparr>hcells = Map.empty, hbrk = 0\<rparr>)) (Some test_root) demo_rng
      = Inr (Some t', s') \<and> root t' = Some n' \<and> conforms test_grammar n'"
proof -
  have "inj_on (\<lambda>i. [ucast i :: u8]) (insert 0 (set (g_keys test_grammar)))" by (simp add: test_grammar_def inj_on_def)
  then have "grammar_store (\<lambda>_. 0) (\<lambda>i. [ucast i]) test_grammar (chunk_store_init \<lparr>hcells = Map.empty, hbrk = 0\<rparr>)"
    unfolding grammar_store_def using chunk_init_inv [of _ _ "{}"] by blast
  moreover have "node_id (node_get_size (test_tree 1)) \<noteq> 0" "non_term_size (node_get_size (test_tree 1)) < 2 ^ 32"
    unfolding test_root_ok by simp_all
  ultimately show ?thesis using splicing_mutation_in_language [OF _ test_root_ok(1-3), of _ _ _ demo_rng] by blast
qed

end
