(* ===== verification/GM_Files.thy ===== *)
theory GM_Files
  imports Fuzz_Prelude
begin

text \<open>
  The string and directory helpers of \<^verbatim>\<open>Grammar-Mutator/src/utils.c\<close>: \<open>strrstr\<close>, \<open>create_directory\<close> and
  \<open>remove_directory\<close>, with the C library functions \<^verbatim>\<open>strrchr\<close> and \<^verbatim>\<open>strstr\<close> that the mutator calls on file
  names.  A pointer into a string is an index.  A directory tree is a value of \<open>entry\<close>, with no symbolic
  links to directories in it and with a path that exists; which system calls succeed is given by the
  record \<open>perms\<close>, in which \<open>stat_ok\<close> also stands for the allocation of the name before the \<^verbatim>\<open>stat\<close>.
\<close>

section \<open>Strings\<close>

definition prefix_at :: "string \<Rightarrow> string \<Rightarrow> nat \<Rightarrow> bool" where
  "prefix_at h n i \<longleftrightarrow> take (length n) (drop i h) = n"

fun strrstr_loop :: "string \<Rightarrow> string \<Rightarrow> nat \<Rightarrow> nat option" where
  "strrstr_loop h n 0 = None"
| "strrstr_loop h n (Suc s) = (if prefix_at h n (Suc s) then Some (Suc s) else strrstr_loop h n s)"

definition strrstr :: "string option \<Rightarrow> string option \<Rightarrow> nat option" where
  "strrstr haystack needle =
     (case (haystack, needle) of
        (Some h, Some n) \<Rightarrow>
          if length n = 0 \<or> length h = 0 \<or> length h < length n then None
          else strrstr_loop h n (length h - length n)
      | _ \<Rightarrow> None)"

text \<open>The C library: the first occurrence of a string and the last one of a character.\<close>

fun strstr_from :: "nat \<Rightarrow> string \<Rightarrow> string \<Rightarrow> nat option" where
  "strstr_from k [] n = (if n = [] then Some k else None)"
| "strstr_from k (c # h) n = (if prefix_at (c # h) n 0 then Some k else strstr_from (Suc k) h n)"

fun strrchr_from :: "nat \<Rightarrow> string \<Rightarrow> char \<Rightarrow> nat option" where
  "strrchr_from k [] c = None"
| "strrchr_from k (d # h) c =
     (case strrchr_from (Suc k) h c of Some i \<Rightarrow> Some i | None \<Rightarrow> if d = c then Some k else None)"

section \<open>Directories\<close>

text \<open>\<open>kind path\<close> is the answer of \<^verbatim>\<open>stat\<close>: nothing there, a directory, or something else.\<close>

definition create_directory ::
  "(string \<Rightarrow> bool) \<Rightarrow> (string \<Rightarrow> bool option) \<Rightarrow> string \<Rightarrow> bool \<times> (string \<Rightarrow> bool option)" where
  "create_directory mkdir_ok kind path =
     (case kind path of
        None \<Rightarrow> if \<not> mkdir_ok path then (False, kind) else (True, kind(path \<mapsto> True))
      | Some True \<Rightarrow> (True, kind)
      | Some False \<Rightarrow> (False, kind))"

datatype entry = Reg | Dir "(string \<times> entry) list"

record perms =
  opendir_ok :: "string list \<Rightarrow> bool"
  stat_ok :: "string list \<Rightarrow> bool"
  unlink_ok :: "string list \<Rightarrow> bool"
  rmdir_ok :: "string list \<Rightarrow> bool"

definition keep_entry :: "string \<Rightarrow> entry option \<Rightarrow> (string \<times> entry) list \<Rightarrow> (string \<times> entry) list" where
  "keep_entry nm e es = (case e of None \<Rightarrow> es | Some d \<Rightarrow> (nm, d) # es)"

text \<open>
  The result of the recursive call is a \<^verbatim>\<open>bool\<close> that is stored in the \<^verbatim>\<open>int\<close> \<^verbatim>\<open>r2\<close>.  The second component
  is what is left of the entry.
\<close>

fun remove_directory :: "perms \<Rightarrow> string list \<Rightarrow> entry \<Rightarrow> bool \<times> entry option"
  and remove_entries :: "perms \<Rightarrow> string list \<Rightarrow> (string \<times> entry) list \<Rightarrow> int \<times> (string \<times> entry) list" where
  "remove_directory P path Reg = (True, Some Reg)"
| "remove_directory P path (Dir es) =
     (if \<not> opendir_ok P path then (True, Some (Dir es))
      else (case remove_entries P path es of (r, es') \<Rightarrow>
        if r = 0 then (if es' = [] \<and> rmdir_ok P path then (False, None) else (True, Some (Dir es')))
        else (True, Some (Dir es'))))"
| "remove_entries P path [] = (0, [])"
| "remove_entries P path ((nm, e) # es) =
     (let buf = path @ [nm];
          (r2, e') =
            (if \<not> stat_ok P buf then (- 1, Some e)
             else (case e of
                     Dir _ \<Rightarrow> (case remove_directory P buf e of (b, e') \<Rightarrow> (if b then 1 else 0, e'))
                   | Reg \<Rightarrow> if unlink_ok P buf then (0, None) else (- 1, Some e)))
      in if r2 \<noteq> 0 then (r2, keep_entry nm e' es)
         else (case remove_entries P path es of (r, es') \<Rightarrow> (r, keep_entry nm e' es')))"

section \<open>Lemmas\<close>

lemma strrstr_loop_Some:
  "strrstr_loop h n s = Some i \<longleftrightarrow> 0 < i \<and> i \<le> s \<and> prefix_at h n i \<and> (\<forall>j. i < j \<longrightarrow> j \<le> s \<longrightarrow> \<not> prefix_at h n j)"
proof (induction s)
  case (Suc s)
  show ?case
  proof (cases "prefix_at h n (Suc s)")
    case False
    then show ?thesis using Suc by (auto simp: le_Suc_eq)
  next
    case True
    have "\<not> (\<forall>j. i < j \<longrightarrow> j \<le> Suc s \<longrightarrow> \<not> prefix_at h n j)" if "i \<le> s"
      using that True by (metis le_imp_less_Suc order_refl)
    then show ?thesis using True by (cases "i \<le> s") (auto simp: le_Suc_eq simp del: not_all neq0_conv)
  qed
qed auto

lemma prefix_at_in: "prefix_at h n i \<Longrightarrow> n \<noteq> [] \<Longrightarrow> i + length n \<le> length h"
proof -
  assume p: "prefix_at h n i" and n: "n \<noteq> []"
  have "length (take (length n) (drop i h)) = length n" using p by (simp add: prefix_at_def)
  then have "length n \<le> length h - i" by simp
  moreover have "0 < length n" using n by simp
  ultimately show ?thesis by linarith
qed

lemma remove_directory_result:
  "fst (remove_directory P path e) \<longleftrightarrow> snd (remove_directory P path e) \<noteq> None"
proof (cases e)
  case (Dir es)
  then show ?thesis by (cases "remove_entries P path es") simp
qed simp

definition permitted :: "perms \<Rightarrow> bool" where
  "permitted P \<longleftrightarrow> (\<forall>p. opendir_ok P p \<and> stat_ok P p \<and> unlink_ok P p \<and> rmdir_ok P p)"

lemma remove_directory_all: "permitted P \<Longrightarrow> e = Dir ds \<Longrightarrow> remove_directory P path e = (False, None)"
  and remove_entries_all: "permitted P \<Longrightarrow> remove_entries P path es = (0, [])"
proof (induction P path e and P path es arbitrary: ds rule: remove_directory_remove_entries.induct)
  case (4 P path nm e es)
  have perm: "stat_ok P (path @ [nm])" "unlink_ok P (path @ [nm])" using 4(3) by (simp_all add: permitted_def)
  show ?case
  proof (cases e)
    case Reg
    then have "remove_entries P path es = (0, [])" using 4(2) [OF refl refl, of 0 None] 4(3) perm by simp
    then show ?thesis using perm Reg by (simp add: keep_entry_def)
  next
    case (Dir ds)
    then have e: "remove_directory P (path @ [nm]) e = (False, None)" using 4(1) [OF refl _ Dir 4(3) Dir] perm by simp
    then have "remove_entries P path es = (0, [])" using 4(2) [OF refl refl, of 0 None] 4(3) perm Dir by simp
    then show ?thesis using Dir perm e by (simp add: keep_entry_def)
  qed
qed (auto simp: permitted_def)

lemma strrstr_iff:
  "(strrstr (Some h) (Some n) = Some i \<longleftrightarrow>
      n \<noteq> [] \<and> 0 < i \<and> prefix_at h n i \<and> (\<forall>j. i < j \<longrightarrow> \<not> prefix_at h n j))
    \<and> (strrstr (Some h) (Some n) = None \<longleftrightarrow> n = [] \<or> (\<forall>j. 0 < j \<longrightarrow> \<not> prefix_at h n j))
    \<and> strrstr (Some h) (Some h) = None"
proof -
  have Some: "strrstr (Some h) (Some n) = Some i \<longleftrightarrow>
      n \<noteq> [] \<and> 0 < i \<and> prefix_at h n i \<and> (\<forall>j. i < j \<longrightarrow> \<not> prefix_at h n j)" for n i
  proof (cases "n = [] \<or> length h = 0 \<or> length h < length n")
    case True
    then show ?thesis using prefix_at_in [of h n] by (fastforce simp: strrstr_def)
  next
    case False
    then have "strrstr (Some h) (Some n) = strrstr_loop h n (length h - length n)" by (auto simp: strrstr_def)
    moreover have "prefix_at h n j \<Longrightarrow> j \<le> length h - length n" for j using prefix_at_in [of h n j] False by auto
    ultimately show ?thesis using False by (auto simp: strrstr_loop_Some)
  qed
  have None: "strrstr (Some h) (Some n) = None \<longleftrightarrow> n = [] \<or> (\<forall>j. 0 < j \<longrightarrow> \<not> prefix_at h n j)"
  proof
    assume none: "strrstr (Some h) (Some n) = None"
    show "n = [] \<or> (\<forall>j. 0 < j \<longrightarrow> \<not> prefix_at h n j)"
    proof (rule ccontr)
      assume "\<not> (n = [] \<or> (\<forall>j. 0 < j \<longrightarrow> \<not> prefix_at h n j))"
      then obtain j where j: "n \<noteq> []" "0 < j" "prefix_at h n j" by blast
      let ?P = "\<lambda>j. 0 < j \<and> prefix_at h n j"
      have bound: "\<And>k. ?P k \<Longrightarrow> k \<le> length h" using prefix_at_in [of h n] j(1) by (meson add_leD1)
      obtain M where M: "?P M" "\<And>k. ?P k \<Longrightarrow> k \<le> M"
        using GreatestI_nat [of ?P j "length h", OF conjI [OF j(2,3)] bound] Greatest_le_nat [of ?P _ "length h", OF _ bound] by blast
      then have "\<forall>k. M < k \<longrightarrow> \<not> prefix_at h n k" by (metis leD less_trans)
      then have "strrstr (Some h) (Some n) = Some M" using Some [of n M] j(1) M(1) by blast
      then show False using none by simp
    qed
  next
    assume none: "n = [] \<or> (\<forall>j. 0 < j \<longrightarrow> \<not> prefix_at h n j)"
    then show "strrstr (Some h) (Some n) = None" using Some [of n] by (cases "strrstr (Some h) (Some n)") auto
  qed
  have "strrstr (Some h) (Some h) = None" by (simp add: strrstr_def)
  then show ?thesis using Some None by blast
qed

section \<open>Properties\<close>

text \<open>
  C13: \<^verbatim>\<open>strrstr\<close> finds the last occurrence of a non-empty needle at a position after the first character
  of the haystack: its result is the greatest such position, and NULL exactly when there is none.  An
  occurrence at position 0 is never reported.
\<close>
theorem strrstr_last_occurrence:
  "(strrstr (Some h) (Some n) = Some i \<longleftrightarrow> n \<noteq> [] \<and> 0 < i \<and> prefix_at h n i \<and> {j. prefix_at h n j} \<subseteq> {..i})
    \<and> (strrstr (Some h) (Some n) = None \<longleftrightarrow> n = [] \<or> {j. prefix_at h n j} \<subseteq> {0})
    \<and> strrstr (Some h) (Some h) = None"
proof -
  have "{j. prefix_at h n j} \<subseteq> {..i} \<longleftrightarrow> (\<forall>j. i < j \<longrightarrow> \<not> prefix_at h n j)" by (auto simp: not_le dest: leI)
  moreover have "{j. prefix_at h n j} \<subseteq> {0} \<longleftrightarrow> (\<forall>j. 0 < j \<longrightarrow> \<not> prefix_at h n j)" by auto
  ultimately show ?thesis using strrstr_iff [of h n i] by simp
qed

text \<open>
  C14: the result of \<^verbatim>\<open>remove_directory\<close> is \<^verbatim>\<open>true\<close> exactly when something is left of the entry, so it reports
  failure and not success; and when the system calls succeed it removes a directory with everything
  below it and returns \<^verbatim>\<open>false\<close>.
\<close>
theorem remove_directory_reports_failure:
  "(fst (remove_directory P path e) \<longleftrightarrow> snd (remove_directory P path e) \<noteq> None)
    \<and> (permitted P \<longrightarrow> remove_directory P path (Dir ds) = (False, None))"
  using remove_directory_result [of P path e] remove_directory_all [OF _ refl, of P path ds] by simp

theorem remove_directory_reports_failure_witness:
  "remove_directory \<lparr>opendir_ok = \<lambda>_. True, stat_ok = \<lambda>_. True, unlink_ok = \<lambda>_. True, rmdir_ok = \<lambda>_. True\<rparr> [''d'']
     (Dir [(''a'', Reg), (''b'', Dir [(''c'', Reg)])]) = (False, None)"
proof -
  let ?P = "\<lparr>opendir_ok = \<lambda>_. True, stat_ok = \<lambda>_. True, unlink_ok = \<lambda>_. True, rmdir_ok = \<lambda>_. True\<rparr>"
  have "permitted ?P" by (simp add: permitted_def)
  then show ?thesis
    using remove_directory_reports_failure [of ?P "[''d'']" Reg "[(''a'', Reg), (''b'', Dir [(''c'', Reg)])]"] by blast
qed

end
