(* ===== verification/GM_Mutator.thy ===== *)
theory GM_Mutator
  imports GM_Store GM_Files GM_Buffers
begin

text \<open>
  The custom mutator that AFL++ calls (\<^verbatim>\<open>Grammar-Mutator/src/grammar_mutator.c\<close>): the state
  \<open>my_mutator\<close> (\<^verbatim>\<open>my_mutator_t\<close>) and the callbacks \<^verbatim>\<open>afl_custom_init\<close>, \<^verbatim>\<open>queue_get\<close>, \<^verbatim>\<open>init_trim\<close>, \<^verbatim>\<open>trim\<close>,
  \<^verbatim>\<open>post_trim\<close>, \<^verbatim>\<open>fuzz_count\<close>, \<^verbatim>\<open>fuzz\<close>, \<^verbatim>\<open>queue_new_entry\<close> and \<^verbatim>\<open>deinit\<close>, composed from the components below.

  \<open>world\<close> is what the callbacks share outside that structure: the random state, the chunk store, the
  file system and the step counts from the environment.  \<open>mut_env\<close> holds what does not change: the
  grammar tables, the digest, the node names, the ANTLR parser and whether the C library's allocation
  and \<^verbatim>\<open>mkdir\<close> succeed.  A wrong memory access or \<^verbatim>\<open>exit\<close> of the source is a \<open>fault\<close>; \<open>Loop_Limit\<close> is the
  answer of a loop whose fuel is used up.  Freeing a tree is dropping the value.
\<close>

section \<open>State\<close>

datatype fault = Fault mut_error | Store_Fault | Read_Fault deser_error | Loop_Limit

fun and_then :: "'e + 'a \<Rightarrow> ('a \<Rightarrow> 'e + 'b) \<Rightarrow> 'e + 'b" where
  "and_then (Inl e) f = Inl e"
| "and_then (Inr x) f = f x"

record my_mutator =
  tree_out_dir_exist :: bool
  filename_cur :: string
  tree_cur :: "tree option"
  mutated_tree :: "tree option"
  trimmed_tree :: "tree option"
  cur_trimming_stage :: nat
  trim_was_effective :: bool
  cur_subtree_trimming_step :: nat
  finished_subtree_trimming_nodes :: nat
  total_subtree_trimming_steps :: nat
  cur_recursive_trimming_step :: nat
  finished_recursive_trimming_edges :: nat
  total_recursive_trimming_steps :: nat
  cur_fuzzing_stage :: nat
  cur_fuzzing_step :: nat
  total_rules_mutation_steps :: nat
  total_random_mutation_steps :: nat
  total_random_recursive_mutation_steps :: nat
  total_splicing_mutation_steps :: nat
  cur_rules_mutation_node :: "path option"
  cur_rules_mutation_rule_id :: nat
  fuzz_buf :: grow_buf
  tree_fn_cur :: string
  new_tree_fn :: string

record mut_env =
  e_grammar :: grammar
  e_rank :: nat
  e_max_tree_len :: u64
  e_xxh3 :: "u8 list \<Rightarrow> u64"
  e_type_str :: "u32 \<Rightarrow> key"
  e_parse :: "u8 list \<Rightarrow> tree option"
  e_alloc :: bool
  e_pad :: "nat \<Rightarrow> u8"
  e_mkdir :: "string \<Rightarrow> bool"

record world =
  rng_state :: "u64 rng option"
  store :: chunks
  fs :: filesys
  dir_kind :: "string \<Rightarrow> bool option"
  default_random_mutation_steps :: nat
  default_random_recursive_mutation_steps :: nat
  default_splicing_mutation_steps :: nat

abbreviation rb64 :: "u64 rng option source" where
  "rb64 \<equiv> draw random_next64"

abbreviation env_gen :: "mut_env \<Rightarrow> u64 rng option gen_table" where
  "env_gen e \<equiv> gen_func (e_grammar e) (e_rank e) rb64"

section \<open>Configuration\<close>

text \<open>\<^verbatim>\<open>strtol\<close> to base 10: blanks, a sign, digits; the result is clamped to \<^verbatim>\<open>long\<close>.\<close>

definition is_blank :: "char \<Rightarrow> bool" where
  "is_blank c \<longleftrightarrow> of_char c = (32 :: nat) \<or> 9 \<le> (of_char c :: nat) \<and> of_char c \<le> (13 :: nat)"

fun strtol_digits :: "int \<Rightarrow> string \<Rightarrow> int" where
  "strtol_digits acc [] = acc"
| "strtol_digits acc (c # cs) =
     (if 48 \<le> (of_char c :: nat) \<and> of_char c \<le> (57 :: nat) then strtol_digits (10 * acc + (of_char c - 48)) cs else acc)"

definition strtol :: "string \<Rightarrow> int" where
  "strtol s =
     (let s = dropWhile is_blank s;
          v = (case s of
                 CHR ''-'' # s \<Rightarrow> - strtol_digits 0 s
               | CHR ''+'' # s \<Rightarrow> strtol_digits 0 s
               | _ \<Rightarrow> strtol_digits 0 s)
      in max (- (2 ^ 63)) (min (2 ^ 63 - 1) v))"

definition env_config :: "(string \<Rightarrow> string option) \<Rightarrow> string \<Rightarrow> nat \<Rightarrow> nat" where
  "env_config getenv var def =
     (case getenv var of None \<Rightarrow> def | Some ptr \<Rightarrow> if ptr = [] then def else nat (strtol ptr mod 2 ^ 64))"

definition load_env_configs :: "(string \<Rightarrow> string option) \<Rightarrow> world \<Rightarrow> world" where
  "load_env_configs getenv w =
     w\<lparr>default_random_mutation_steps :=
          env_config getenv ''RANDOM_MUTATION_STEPS'' (default_random_mutation_steps w),
       default_random_recursive_mutation_steps :=
          env_config getenv ''RANDOM_RECURSIVE_MUTATION_STEPS'' (default_random_recursive_mutation_steps w),
       default_splicing_mutation_steps :=
          env_config getenv ''SPLICING_MUTATION_STEPS'' (default_splicing_mutation_steps w)\<rparr>"

definition mutator0 :: my_mutator where
  "mutator0 =
     \<lparr>tree_out_dir_exist = False, filename_cur = [], tree_cur = None, mutated_tree = None, trimmed_tree = None,
      cur_trimming_stage = 0, trim_was_effective = False, cur_subtree_trimming_step = 0,
      finished_subtree_trimming_nodes = 0, total_subtree_trimming_steps = 0, cur_recursive_trimming_step = 0,
      finished_recursive_trimming_edges = 0, total_recursive_trimming_steps = 0, cur_fuzzing_stage = 0,
      cur_fuzzing_step = 0, total_rules_mutation_steps = 0, total_random_mutation_steps = 0,
      total_random_recursive_mutation_steps = 0, total_splicing_mutation_steps = 0,
      cur_rules_mutation_node = None, cur_rules_mutation_rule_id = 0,
      fuzz_buf = \<lparr>gb_buf = None, gb_size = 0\<rparr>, tree_fn_cur = [], new_tree_fn = []\<rparr>"

text \<open>\<open>xxh64\<close> is the hash that spreads the seed; \<open>None\<close> is the failed \<^verbatim>\<open>calloc\<close>.\<close>

definition afl_custom_init ::
  "(u8 list \<Rightarrow> u64 \<Rightarrow> u64) \<Rightarrow> bool \<Rightarrow> (string \<Rightarrow> string option) \<Rightarrow> u32 \<Rightarrow> world \<Rightarrow> my_mutator option \<times> world" where
  "afl_custom_init xxh64 calloc_ok getenv seed w =
     (let w = w\<lparr>rng_state := Some (random_set_seed xxh64 (ucast seed))\<rparr>;
          w = load_env_configs getenv w;
          w = w\<lparr>store := chunk_store_init (heap (store w))\<rparr>
      in if \<not> calloc_ok then (None, w) else (Some mutator0, w))"

text \<open>All trees and the structure are freed; what is left to see is the cleared store.\<close>

definition afl_custom_deinit :: "my_mutator \<Rightarrow> world \<Rightarrow> fault + world" where
  "afl_custom_deinit data w =
     (case chunk_store_clear (store w) of None \<Rightarrow> Inl Store_Fault | Some st \<Rightarrow> Inr (w\<lparr>store := st\<rparr>))"

section \<open>The queue\<close>

definition path_max :: nat where
  "path_max = 4096"

definition snprintf_path :: "string \<Rightarrow> string" where
  "snprintf_path s = take (path_max - 2) s"

text \<open>
  The name of the tree file for a test case: \<open>None\<close> for a name without directories, an empty name when
  the last directory is neither \<^verbatim>\<open>queue\<close> nor \<^verbatim>\<open>_resume\<close>, otherwise the tree directory and the file.
\<close>

definition tree_file_name :: "string \<Rightarrow> (string \<times> string) option option" where
  "tree_file_name fn =
     (case strrchr_from 0 fn CHR ''/'' of
        None \<Rightarrow> None
      | Some slash \<Rightarrow>
          (let basename = drop slash fn;
               use_name = (case strstr_from 0 basename '',orig:'' of
                             Some i \<Rightarrow> drop (i + 6) basename | None \<Rightarrow> drop 1 basename);
               dir = take slash fn
           in case strrchr_from 0 dir CHR ''/'' of
                None \<Rightarrow> None
              | Some l \<Rightarrow>
                  if drop l dir \<noteq> ''/queue'' \<and> drop l dir \<noteq> ''/_resume'' then Some None
                  else (let out_dir = take l dir @ ''/trees''
                        in Some (Some (out_dir, snprintf_path (out_dir @ ''/'' @ use_name))))))"

definition add_to_store :: "mut_env \<Rightarrow> tree option \<Rightarrow> world \<Rightarrow> fault + world" where
  "add_to_store e t w =
     (case chunk_store_add_tree (e_xxh3 e) (e_type_str e) (store w) t of
        None \<Rightarrow> Inl Store_Fault | Some st \<Rightarrow> Inr (w\<lparr>store := st\<rparr>))"

text \<open>The sizes of a tree, with the dereference of a NULL root.\<close>

definition sized_tree :: "tree \<Rightarrow> fault + tree" where
  "sized_tree t = (case tree_get_size t of None \<Rightarrow> Inl (Fault Null_Deref) | Some (_, t) \<Rightarrow> Inr t)"

text \<open>
  A cached tree file, or NULL when there is none or it is too short.  A tree with a terminal node
  that has a count but no array is only computed the size of and then cloned for the chunk store, and
  \<^verbatim>\<open>node_clone\<close> reads that array.
\<close>

definition cached_tree :: "world \<Rightarrow> string \<Rightarrow> fault + tree option" where
  "cached_tree w fn =
     (if fn = [] then Inr None
      else (case read_tree_from_file (fs w) fn of
              None \<Rightarrow> Inr None
            | Some (Inl Too_Short) \<Rightarrow> Inr None
            | Some (Inl err) \<Rightarrow> Inl (Read_Fault err)
            | Some (Inr r) \<Rightarrow> (case tree_of r of None \<Rightarrow> Inl (Read_Fault Null_Subnodes) | Some t \<Rightarrow> Inr (Some t))))"

definition load_queue_entry :: "mut_env \<Rightarrow> my_mutator \<Rightarrow> world \<Rightarrow> string \<Rightarrow> fault + bool \<times> my_mutator \<times> world" where
  "load_queue_entry e data w fn =
     and_then (cached_tree w (tree_fn_cur data)) (\<lambda>c.
       (case c of
          Some t \<Rightarrow>
            and_then (sized_tree t) (\<lambda>t.
            and_then (add_to_store e (Some t) w) (\<lambda>w. Inr (True, data\<lparr>tree_cur := Some t\<rparr>, w)))
        | None \<Rightarrow>
            (case load_tree_from_test_case (e_parse e) (fs w) fn of
               None \<Rightarrow> Inr (False, data\<lparr>tree_cur := None\<rparr>, w)
             | Some t \<Rightarrow>
                 and_then (sized_tree t) (\<lambda>t.
                   (case (if tree_fn_cur data \<noteq> [] then write_tree_to_file (fs w) t (tree_fn_cur data) else (fs w, t)) of
                      (fs', t) \<Rightarrow>
                        and_then (add_to_store e (Some t) (w\<lparr>fs := fs'\<rparr>)) (\<lambda>w.
                          Inr (True, data\<lparr>tree_cur := Some t\<rparr>, w)))))))"

definition afl_custom_queue_get :: "mut_env \<Rightarrow> my_mutator \<Rightarrow> world \<Rightarrow> string \<Rightarrow> fault + bool \<times> my_mutator \<times> world" where
  "afl_custom_queue_get e data w filename =
     (let data = data\<lparr>filename_cur := filename, tree_cur := None\<rparr>
      in case tree_file_name filename of
           None \<Rightarrow> Inr (False, data, w)
         | Some None \<Rightarrow> load_queue_entry e (data\<lparr>tree_fn_cur := []\<rparr>) w filename
         | Some (Some (out_dir, fn)) \<Rightarrow>
             (let data = data\<lparr>tree_fn_cur := fn\<rparr>
              in if \<not> tree_out_dir_exist data then
                   (case create_directory (e_mkdir e) (dir_kind w) out_dir of
                      (ok, kind) \<Rightarrow>
                        if \<not> ok then Inr (False, data, w\<lparr>dir_kind := kind\<rparr>)
                        else load_queue_entry e data (w\<lparr>dir_kind := kind\<rparr>) filename)
                 else load_queue_entry e data w filename))"

section \<open>Trimming\<close>

definition size_sub :: "nat \<Rightarrow> nat \<Rightarrow> nat" where
  "size_sub a b = (if b \<le> a then a - b else 2 ^ 64 + a - b)"

definition afl_custom_init_trim :: "my_mutator \<Rightarrow> fault + int \<times> my_mutator" where
  "afl_custom_init_trim data =
     (case tree_cur data of
        None \<Rightarrow> Inr (0, data)
      | Some t \<Rightarrow>
          (let t = tree_get_non_terminal_nodes t;
               t = tree_get_recursion_edges t
           in case root t of
                None \<Rightarrow> Inl (Fault Null_Deref)
              | Some n \<Rightarrow>
                  (let data = data\<lparr>tree_cur := Some t, cur_trimming_stage := 0, trim_was_effective := False,
                         cur_subtree_trimming_step := 0, finished_subtree_trimming_nodes := 0,
                         total_subtree_trimming_steps := non_term_size n,
                         cur_recursive_trimming_step := 0, finished_recursive_trimming_edges := 0,
                         total_recursive_trimming_steps := recursion_edge_size n\<rparr>
                   in Inr (sint (of_nat (non_term_size n + recursion_edge_size n) :: u32), data))))"

text \<open>Copying a tree's text to the reused buffer; no result when the buffer cannot grow.\<close>

definition emit :: "mut_env \<Rightarrow> my_mutator \<Rightarrow> u8 list \<Rightarrow> u8 list option \<times> my_mutator" where
  "emit e data bs =
     (case maybe_grow (e_alloc e) (e_pad e) (fuzz_buf data) (of_nat (length bs)) of
        (None, b) \<Rightarrow> (None, data\<lparr>fuzz_buf := b\<rparr>)
      | (Some blk, b) \<Rightarrow> (Some bs, data\<lparr>fuzz_buf := b\<lparr>gb_buf := Some (bs @ drop (length bs) blk)\<rparr>\<rparr>))"

definition trim_candidate :: "mut_env \<Rightarrow> my_mutator \<Rightarrow> tree \<Rightarrow> world \<Rightarrow> fault + tree \<times> tree \<times> world" where
  "trim_candidate e data t w =
     (if cur_trimming_stage data = 0 then
        (case non_terminal_node_list t of
           Some (p # ps) \<Rightarrow>
             (case subtree_trimming (env_gen e) t p (rng_state w) of
                Inl err \<Rightarrow> Inl (Fault err)
              | Inr (t', s) \<Rightarrow> Inr (t\<lparr>non_terminal_node_list := Some ps\<rparr>, t', w\<lparr>rng_state := s\<rparr>))
         | _ \<Rightarrow> Inl (Fault Null_Deref))
      else
        (case recursion_edge_list t of
           Some (edge # es) \<Rightarrow> Inr (t\<lparr>recursion_edge_list := Some es\<rparr>, recursive_trimming t (Some edge), w)
         | _ \<Rightarrow> Inl (Fault Null_Deref)))"

definition afl_custom_trim :: "mut_env \<Rightarrow> my_mutator \<Rightarrow> world \<Rightarrow> fault + u8 list option \<times> my_mutator \<times> world" where
  "afl_custom_trim e data w =
     (if cur_trimming_stage data > 1 then Inr (None, data, w)
      else (case tree_cur data of
              None \<Rightarrow> Inl (Fault Null_Deref)
            | Some t \<Rightarrow>
                and_then (trim_candidate e data t w) (\<lambda>(t, trimmed, w).
                and_then (sized_tree (tree_to_buf trimmed)) (\<lambda>trimmed.
                  (let data = data\<lparr>tree_cur := Some t, trimmed_tree := Some trimmed\<rparr>
                   in case emit e data (data_buf trimmed) of (out, data) \<Rightarrow> Inr (out, data, w))))))"

text \<open>The swap after a successful trim: the two lists of the new tree without what was tried.\<close>

definition accept_trim :: "my_mutator \<Rightarrow> tree \<Rightarrow> fault + my_mutator" where
  "accept_trim data t =
     (let t = tree_get_non_terminal_nodes t;
          nodes = (case non_terminal_node_list t of None \<Rightarrow> [] | Some l \<Rightarrow> l);
          nodes = drop (finished_subtree_trimming_nodes data) nodes;
          t = tree_get_recursion_edges t;
          edges = (case recursion_edge_list t of None \<Rightarrow> [] | Some l \<Rightarrow> l);
          edges = drop (finished_recursive_trimming_edges data) edges
      in and_then
           (case nodes of
              [] \<Rightarrow> Inr ([], finished_subtree_trimming_nodes data)
            | p # nodes \<Rightarrow>
                (case Option.bind (root t) (\<lambda>n. subtree n p) of
                   None \<Rightarrow> Inl (Fault Null_Deref)
                 | Some m \<Rightarrow> Inr (drop (non_term_size m) nodes, finished_subtree_trimming_nodes data + 1 + non_term_size m)))
           (\<lambda>(nodes, finished).
              Inr (data\<lparr>trim_was_effective := True,
                     tree_cur := Some (t\<lparr>non_terminal_node_list := Some nodes, recursion_edge_list := Some edges\<rparr>),
                     finished_subtree_trimming_nodes := finished,
                     cur_subtree_trimming_step := size_sub (total_subtree_trimming_steps data) (length nodes),
                     cur_recursive_trimming_step := size_sub (total_recursive_trimming_steps data) (length edges)\<rparr>)))"

definition reject_trim :: "my_mutator \<Rightarrow> my_mutator" where
  "reject_trim data =
     (let data = (if cur_trimming_stage data = 0
                  then data\<lparr>cur_subtree_trimming_step := cur_subtree_trimming_step data + 1,
                         finished_subtree_trimming_nodes := finished_subtree_trimming_nodes data + 1\<rparr>
                  else data)
      in if cur_trimming_stage data = 1
         then data\<lparr>cur_recursive_trimming_step := cur_recursive_trimming_step data + 1,
                finished_recursive_trimming_edges := finished_recursive_trimming_edges data + 1\<rparr>
         else data)"

definition next_trim_stage :: "my_mutator \<Rightarrow> my_mutator" where
  "next_trim_stage data =
     (let data = (if cur_trimming_stage data = 0 \<and> cur_subtree_trimming_step data \<ge> total_subtree_trimming_steps data
                  then data\<lparr>cur_trimming_stage := 1\<rparr> else data)
      in if cur_trimming_stage data = 1 \<and> cur_recursive_trimming_step data \<ge> total_recursive_trimming_steps data
         then data\<lparr>cur_trimming_stage := 2\<rparr> else data)"

definition save_trimmed :: "mut_env \<Rightarrow> my_mutator \<Rightarrow> world \<Rightarrow> fault + my_mutator \<times> world" where
  "save_trimmed e data w =
     (if trim_was_effective data \<and> cur_trimming_stage data > 1 then
        (case tree_cur data of
           None \<Rightarrow> Inl (Fault Null_Deref)
         | Some t \<Rightarrow>
             (case write_tree_to_file (fs w) t (tree_fn_cur data) of (fs', t) \<Rightarrow>
                and_then (add_to_store e (Some t) (w\<lparr>fs := fs'\<rparr>)) (\<lambda>w. Inr (data\<lparr>tree_cur := Some t\<rparr>, w))))
      else Inr (data, w))"

definition afl_custom_post_trim :: "mut_env \<Rightarrow> my_mutator \<Rightarrow> world \<Rightarrow> bool \<Rightarrow> fault + int \<times> my_mutator \<times> world" where
  "afl_custom_post_trim e data w success =
     and_then
       (if success then
          (case trimmed_tree data of None \<Rightarrow> Inl (Fault Null_Deref) | Some t \<Rightarrow> accept_trim data t)
        else Inr (reject_trim data))
       (\<lambda>data.
          (let data = next_trim_stage (data\<lparr>trimmed_tree := None\<rparr>)
           in and_then (save_trimmed e data w) (\<lambda>(data, w).
                Inr (sint (of_nat (cur_subtree_trimming_step data + cur_recursive_trimming_step data) :: u32), data, w))))"

section \<open>Fuzzing\<close>

text \<open>
  The loop that finds the next pair of node and rule: from \<open>(p, rule)\<close> on, with the nodes \<open>nodes\<close> still
  in the list, it stops at a rule the node does not have.
\<close>

definition rule_of :: "tree \<Rightarrow> path \<Rightarrow> nat" where
  "rule_of t p = (case Option.bind (root t) (\<lambda>n. subtree n p) of None \<Rightarrow> 0 | Some m \<Rightarrow> unat (rule_id m))"

function next_rule :: "(u32 \<Rightarrow> nat) \<Rightarrow> tree \<Rightarrow> path list \<Rightarrow> path \<Rightarrow> nat \<Rightarrow> fault + path \<times> nat \<times> path list" where
  "next_rule num_rules t nodes p rule =
     (case Option.bind (root t) (\<lambda>n. subtree n p) of
        None \<Rightarrow> Inl (Fault Null_Deref)
      | Some m \<Rightarrow>
          if rule \<ge> num_rules (node_id m) then
            (case nodes of
               [] \<Rightarrow> Inl (Fault Null_Deref)
             | q # nodes \<Rightarrow> if rule_of t q \<noteq> 0 then Inr (q, 0, nodes) else next_rule num_rules t nodes q 1)
          else if rule \<noteq> unat (rule_id m) then Inr (p, rule, nodes)
          else next_rule num_rules t nodes p (rule + 1))"
  by pat_completeness auto

termination
  by (relation "measures [\<lambda>(_, _, nodes, _, _). length nodes, \<lambda>(_, t, _, p, rule). if rule \<le> rule_of t p then 1 else 0]")
    (auto simp: rule_of_def)

declare next_rule.simps [simp del]

definition set_rule :: "my_mutator \<Rightarrow> tree \<Rightarrow> path \<times> nat \<times> path list \<Rightarrow> my_mutator" where
  "set_rule data t r =
     (case r of (p, rule, nodes) \<Rightarrow>
        data\<lparr>cur_rules_mutation_node := Some p, cur_rules_mutation_rule_id := rule,
          tree_cur := Some (t\<lparr>non_terminal_node_list := Some nodes\<rparr>)\<rparr>)"

definition afl_custom_fuzz_count :: "mut_env \<Rightarrow> my_mutator \<Rightarrow> world \<Rightarrow> fault + u32 \<times> my_mutator" where
  "afl_custom_fuzz_count e data w =
     (case tree_cur data of
        None \<Rightarrow> Inr (0, data)
      | Some t \<Rightarrow>
          (let t = tree_get_non_terminal_nodes t;
               t = tree_get_recursion_edges t;
               num_rules = node_num_rules (e_grammar e);
               data = data\<lparr>tree_cur := Some t, cur_fuzzing_stage := 0, cur_fuzzing_step := 0,
                 total_rules_mutation_steps := rules_mutation_count num_rules (Some t),
                 total_random_mutation_steps := default_random_mutation_steps w,
                 total_random_recursive_mutation_steps :=
                   (if recursion_edge_list t \<noteq> Some [] then default_random_recursive_mutation_steps w else 0),
                 total_splicing_mutation_steps := default_splicing_mutation_steps w\<rparr>
           in and_then
                (if total_rules_mutation_steps data > 0 then
                   (case non_terminal_node_list t of
                      Some (p # nodes) \<Rightarrow> and_then (next_rule num_rules t nodes p 0) (\<lambda>r. Inr (set_rule data t r))
                    | _ \<Rightarrow> Inl (Fault Null_Deref))
                 else Inr (data\<lparr>cur_fuzzing_stage := 1, cur_fuzzing_step := 0\<rparr>))
                (\<lambda>data. Inr (of_nat (total_rules_mutation_steps data + total_random_mutation_steps data
                   + total_random_recursive_mutation_steps data + total_splicing_mutation_steps data), data))))"

definition RRM_GROWTH :: nat where
  "RRM_GROWTH = 10"

text \<open>The loop of stage 2: mutate until the text has not grown by more than \<open>2 ^ RRM_GROWTH\<close> bytes.\<close>

fun rrm_loop :: "nat \<Rightarrow> tree \<Rightarrow> u64 rng option \<Rightarrow> fault + tree option \<times> u64 rng option" where
  "rrm_loop 0 t s = Inl Loop_Limit"
| "rrm_loop (Suc fuel) t s =
     (case rb64 s (of_nat (RRM_GROWTH + 1)) of (k, s) \<Rightarrow>
        (case random_recursive_mutation rb64 (Some t) (ucast k) s of
           Inl err \<Rightarrow> Inl (Fault err)
         | Inr (None, s) \<Rightarrow> Inl (Fault Null_Deref)
         | Inr (Some rrm_tree, s) \<Rightarrow>
             (let rrm_tree = tree_to_buf rrm_tree
              in if length (data_buf rrm_tree) > 2 ^ RRM_GROWTH + length (data_buf t)
                 then rrm_loop fuel t s else Inr (Some rrm_tree, s))))"

text \<open>
  The mutation of the current stage; \<open>None\<close> is the NULL result and the invalid stage.  In stage 0 the
  current node points into \<^verbatim>\<open>tree_cur\<close>; without that tree it is NULL or dangling.
\<close>

definition stage_mutation ::
  "nat \<Rightarrow> mut_env \<Rightarrow> my_mutator \<Rightarrow> tree \<Rightarrow> world \<Rightarrow> fault + tree option \<times> world" where
  "stage_mutation fuel e data t w =
     (let lift = (\<lambda>r. case r of Inl err \<Rightarrow> Inl (Fault err) | Inr (t, s) \<Rightarrow> Inr (t, w\<lparr>rng_state := s\<rparr>))
      in if cur_fuzzing_stage data = 0 then
           (if tree_cur data = None \<and> cur_rules_mutation_node data \<noteq> None then Inl (Fault Null_Deref)
            else lift (rules_mutation (node_num_rules (e_grammar e)) (env_gen e) (e_max_tree_len e) (Some t)
                   (cur_rules_mutation_node data) (of_nat (cur_rules_mutation_rule_id data)) (rng_state w)))
         else if cur_fuzzing_stage data = 1 then
           lift (random_mutation rb64 (env_gen e) (e_max_tree_len e) (Some t) (rng_state w))
         else if cur_fuzzing_stage data = 2 then
           and_then (rrm_loop fuel (tree_to_buf t) (rng_state w)) (\<lambda>(t, s). Inr (t, w\<lparr>rng_state := s\<rparr>))
         else if cur_fuzzing_stage data = 3 then
           lift (splicing_mutation rb64 (chunk_store_get_alternative_node (e_type_str e) rb64 (store w)) (Some t) (rng_state w))
         else Inr (None, w))"

definition rules_step :: "mut_env \<Rightarrow> my_mutator \<Rightarrow> fault + my_mutator" where
  "rules_step e data =
     (if cur_fuzzing_step data \<ge> total_rules_mutation_steps data
      then Inr (data\<lparr>cur_fuzzing_stage := 1, cur_fuzzing_step := 0\<rparr>)
      else (case (tree_cur data, cur_rules_mutation_node data) of
              (Some t, Some p) \<Rightarrow>
                (case non_terminal_node_list t of
                   None \<Rightarrow> Inl (Fault Null_Deref)
                 | Some nodes \<Rightarrow>
                     and_then (next_rule (node_num_rules (e_grammar e)) t nodes p (cur_rules_mutation_rule_id data + 1))
                       (\<lambda>r. Inr (set_rule data t r)))
            | _ \<Rightarrow> Inl (Fault Null_Deref)))"

definition stage_done :: "nat \<Rightarrow> (my_mutator \<Rightarrow> nat) \<Rightarrow> my_mutator \<Rightarrow> my_mutator" where
  "stage_done k total_steps data =
     (if cur_fuzzing_stage data = k \<and> cur_fuzzing_step data \<ge> total_steps data
      then data\<lparr>cur_fuzzing_stage := k + 1, cur_fuzzing_step := 0\<rparr> else data)"

definition update_status :: "mut_env \<Rightarrow> my_mutator \<Rightarrow> fault + my_mutator" where
  "update_status e data =
     (let data = data\<lparr>cur_fuzzing_step := cur_fuzzing_step data + 1\<rparr>
      in and_then (if cur_fuzzing_stage data = 0 then rules_step e data else Inr data) (\<lambda>data.
           Inr (stage_done 3 total_splicing_mutation_steps
                 (stage_done 2 total_random_recursive_mutation_steps
                   (stage_done 1 total_random_mutation_steps data)))))"

text \<open>
  The result is the text that is passed to the target, cut at \<open>max_size\<close>; \<open>None\<close> when the mutation
  gave nothing or the buffer could not grow.
\<close>

definition afl_custom_fuzz ::
  "nat \<Rightarrow> mut_env \<Rightarrow> my_mutator \<Rightarrow> world \<Rightarrow> nat \<Rightarrow> fault + u8 list option \<times> my_mutator \<times> world" where
  "afl_custom_fuzz fuel e data w max_size =
     (let data = data\<lparr>mutated_tree := None\<rparr>
      in and_then
           (case tree_cur data of
              Some t \<Rightarrow> Inr (t, w)
            | None \<Rightarrow>
                (case gen_init (e_grammar e) (e_rank e) rb64 500 (rng_state w) of (t, s) \<Rightarrow>
                   and_then (sized_tree (tree_get_non_terminal_nodes t)) (\<lambda>t. Inr (t, w\<lparr>rng_state := s\<rparr>))))
           (\<lambda>(t, w). and_then (stage_mutation fuel e data t w) (\<lambda>(r, w).
              (case r of
                 None \<Rightarrow> Inr (None, data, w)
               | Some t \<Rightarrow>
                   and_then (update_status e data) (\<lambda>data.
                   and_then (sized_tree (tree_to_buf t)) (\<lambda>t.
                     (let data = data\<lparr>mutated_tree := Some t\<rparr>;
                          mutated_size = (if length (data_buf t) \<le> max_size then length (data_buf t) else max_size)
                      in case emit e data (take mutated_size (data_buf t)) of (out, data) \<Rightarrow> Inr (out, data, w))))))))"

definition afl_custom_queue_new_entry ::
  "mut_env \<Rightarrow> my_mutator \<Rightarrow> world \<Rightarrow> string \<Rightarrow> string option \<Rightarrow> fault + my_mutator \<times> world" where
  "afl_custom_queue_new_entry e data w filename_new_queue filename_orig_queue =
     (case (filename_orig_queue, mutated_tree data) of
        (Some _, Some t) \<Rightarrow>
          (let name = snprintf_path filename_new_queue;
               data = data\<lparr>new_tree_fn := name\<rparr>
           in case strrstr (Some name) (Some ''/queue/'') of
                None \<Rightarrow> Inr (data, w)
              | Some found \<Rightarrow>
                  (let name = take found name @ ''/trees'' @ drop (found + 6) name
                   in case write_tree_to_file (fs w) t name of (fs', t) \<Rightarrow>
                        and_then (add_to_store e (Some t) (w\<lparr>fs := fs'\<rparr>)) (\<lambda>w.
                          Inr (data\<lparr>new_tree_fn := name, mutated_tree := None\<rparr>, w))))
      | _ \<Rightarrow> and_then (afl_custom_queue_get e data w filename_new_queue) (\<lambda>(_, data, w). Inr (data, w)))"

end
