(* ===== verification/AFL_Bitmap.thy ===== *)
theory AFL_Bitmap
  imports Fuzz_Prelude
begin

unbundle bit_operations_syntax

text \<open>
  The coverage map of the fuzzer: \<^verbatim>\<open>AFLplusplus/src/afl-fuzz-bitmap.c\<close> and the two word-size
  variants of its inner loops, \<^verbatim>\<open>AFLplusplus/include/coverage-64.h\<close> and \<^verbatim>\<open>coverage-32.h\<close>.  The
  shared-memory trace and the virgin maps are lists of bytes; the loops read them through 64-bit
  or 32-bit words with \<open>rd_word\<close> and store with \<open>le_word\<close>.  The lemmas show that the word-wise
  routines compute the byte-wise functions of the hit-count buckets, what the answer of
  \<open>has_new_bits\<close> means, and that the routine that skims the unclassified trace agrees with
  classifying first.
\<close>

section \<open>State\<close>

record afl_map =
  map_size :: u32
  real_map_size :: u32
  trace_bits :: "u8 list"
  virgin_bits :: "u8 list"
  virgin_tmout :: "u8 list"
  virgin_crash :: "u8 list"
  bitmap_changed :: bool
  count_class_lookup16 :: "u16 list"

text \<open>The virgin maps are passed as pointers; \<open>has_new_bits\<close> compares the pointer.\<close>

datatype virgin_map = Virgin_bits | Virgin_tmout | Virgin_crash

fun virgin_of :: "afl_map \<Rightarrow> virgin_map \<Rightarrow> u8 list" where
  "virgin_of afl Virgin_bits = virgin_bits afl"
| "virgin_of afl Virgin_tmout = virgin_tmout afl"
| "virgin_of afl Virgin_crash = virgin_crash afl"

fun set_virgin :: "virgin_map \<Rightarrow> u8 list \<Rightarrow> afl_map \<Rightarrow> afl_map" where
  "set_virgin Virgin_bits v afl = afl\<lparr>virgin_bits := v\<rparr>"
| "set_virgin Virgin_tmout v afl = afl\<lparr>virgin_tmout := v\<rparr>"
| "set_virgin Virgin_crash v afl = afl\<lparr>virgin_crash := v\<rparr>"

text \<open>
  The size that \<^verbatim>\<open>get_map_size\<close> takes from the environment: the value of \<^verbatim>\<open>AFL_MAP_SIZE\<close> or
  \<^verbatim>\<open>AFL_MAPSIZE\<close> after \<^verbatim>\<open>atoi\<close>, whether \<^verbatim>\<open>AFL_SKIP_BIN_CHECK\<close> is set, and the two built-in sizes;
  \<open>None\<close> is the fatal exit.
\<close>

definition MAP_SIZE :: u32 where
  "MAP_SIZE = 65536"

definition DEFAULT_SHMEM_SIZE :: u32 where
  "DEFAULT_SHMEM_SIZE = 8 * 1024 * 1024"

definition get_map_size :: "u32 option \<Rightarrow> bool \<Rightarrow> u32 option" where
  "get_map_size env skip_bin_check =
     (case env of
        Some sz \<Rightarrow>
          if sz = 0 \<or> sz > push_bit 29 1 then None
          else Some (if sz mod 64 \<noteq> 0 then push_bit 6 (drop_bit 6 sz + 1) else sz)
      | None \<Rightarrow> Some (if skip_bin_check then MAP_SIZE else DEFAULT_SHMEM_SIZE))"

section \<open>Counting over a map\<close>

definition count_bits_word :: "u32 \<Rightarrow> u32" where
  "count_bits_word v =
     (let v = v - (drop_bit 1 v AND 0x55555555);
          v = (v AND 0x33333333) + (drop_bit 2 v AND 0x33333333)
      in drop_bit 24 (((v + drop_bit 4 v) AND 0xF0F0F0F) * 0x01010101))"

fun count_bits_loop :: "nat \<Rightarrow> u8 list \<Rightarrow> u32 \<Rightarrow> u32" where
  "count_bits_loop 0 ptr ret = ret"
| "count_bits_loop (Suc i) ptr ret =
     (let v = rd_word (take 4 ptr)
      in count_bits_loop i (drop 4 ptr)
           (if v = 0xffffffff then ret + 32 else ret + count_bits_word v))"

definition count_bits :: "afl_map \<Rightarrow> u8 list \<Rightarrow> u32" where
  "count_bits afl mem = count_bits_loop (unat (drop_bit 2 (real_map_size afl + 3))) mem 0"

fun count_bytes_loop :: "nat \<Rightarrow> u8 list \<Rightarrow> u32 \<Rightarrow> u32" where
  "count_bytes_loop 0 ptr ret = ret"
| "count_bytes_loop (Suc i) ptr ret =
     (let v = rd_word (take 4 ptr) :: u32;
          ret = (if v = 0 then ret
                 else let ret = (if v AND 0x000000ff \<noteq> 0 then ret + 1 else ret);
                          ret = (if v AND 0x0000ff00 \<noteq> 0 then ret + 1 else ret);
                          ret = (if v AND 0x00ff0000 \<noteq> 0 then ret + 1 else ret)
                      in if v AND 0xff000000 \<noteq> 0 then ret + 1 else ret)
      in count_bytes_loop i (drop 4 ptr) ret)"

definition count_bytes :: "afl_map \<Rightarrow> u8 list \<Rightarrow> u32" where
  "count_bytes afl mem = count_bytes_loop (unat (drop_bit 2 (real_map_size afl + 3))) mem 0"

fun count_non_255_loop :: "nat \<Rightarrow> u8 list \<Rightarrow> u32 \<Rightarrow> u32" where
  "count_non_255_loop 0 ptr ret = ret"
| "count_non_255_loop (Suc i) ptr ret =
     (let v = rd_word (take 4 ptr) :: u32;
          ret = (if v = 0xffffffff then ret
                 else let ret = (if v AND 0x000000ff \<noteq> 0x000000ff then ret + 1 else ret);
                          ret = (if v AND 0x0000ff00 \<noteq> 0x0000ff00 then ret + 1 else ret);
                          ret = (if v AND 0x00ff0000 \<noteq> 0x00ff0000 then ret + 1 else ret)
                      in if v AND 0xff000000 \<noteq> 0xff000000 then ret + 1 else ret)
      in count_non_255_loop i (drop 4 ptr) ret)"

definition count_non_255_bytes :: "afl_map \<Rightarrow> u8 list \<Rightarrow> u32" where
  "count_non_255_bytes afl mem =
     count_non_255_loop (unat (drop_bit 2 (real_map_size afl + 3))) mem 0"

text \<open>
  \<^verbatim>\<open>write_bitmap\<close>: the bytes handed to \<^verbatim>\<open>ck_write\<close> when the map changed (\<open>None\<close> when nothing is
  written); \<open>opens\<close> tells whether the file can be opened, and the outer \<open>None\<close> is \<^verbatim>\<open>PFATAL\<close>.
\<close>

definition write_bitmap :: "bool \<Rightarrow> afl_map \<Rightarrow> (afl_map \<times> u8 list option) option" where
  "write_bitmap opens afl =
     (if \<not> bitmap_changed afl then Some (afl, None)
      else if \<not> opens then None
      else Some (afl\<lparr>bitmap_changed := False\<rparr>,
                 Some (take (unat (map_size afl)) (virgin_bits afl))))"

section \<open>Lookup tables\<close>

definition simplify_lookup :: "u8 list" where
  "simplify_lookup = 1 # replicate 255 128"

definition count_class_lookup8 :: "u8 list" where
  "count_class_lookup8 = [0, 1, 2, 4] @ replicate 4 8 @ replicate 8 16 @ replicate 16 32
     @ replicate 96 64 @ replicate 128 128"

fun init_row :: "nat \<Rightarrow> nat list \<Rightarrow> u16 list \<Rightarrow> u16 list" where
  "init_row b1 [] tab = tab"
| "init_row b1 (b2 # bs) tab =
     init_row b1 bs
       (tab[b1 * 2 ^ 8 + b2 := push_bit 8 (ucast (count_class_lookup8 ! b1)) OR ucast (count_class_lookup8 ! b2)])"

fun init_rows :: "nat list \<Rightarrow> u16 list \<Rightarrow> u16 list" where
  "init_rows [] tab = tab"
| "init_rows (b1 # bs) tab = init_rows bs (init_row b1 [0..<256] tab)"

definition init_count_class16 :: "afl_map \<Rightarrow> afl_map" where
  "init_count_class16 afl =
     afl\<lparr>count_class_lookup16 := init_rows [0..<256] (count_class_lookup16 afl)\<rparr>"

section \<open>The 64-bit inner loops\<close>

definition classify_word :: "u16 list \<Rightarrow> u64 \<Rightarrow> u64" where
  "classify_word lookup16 word =
     (let bytes = le_word 8 word;
          mem16 = (\<lambda>k. rd_word (take 2 (drop (2 * k) bytes)) :: u16);
          look = (\<lambda>k. le_word 2 (lookup16 ! unat (mem16 k)))
      in rd_word (look 0 @ look 1 @ look 2 @ look 3))"

fun simplify_loop :: "nat \<Rightarrow> u8 list \<Rightarrow> u8 list" where
  "simplify_loop 0 mem = mem"
| "simplify_loop (Suc i) mem =
     (if rd_word (take 8 mem) \<noteq> (0 :: u64)
      then map (\<lambda>b. simplify_lookup ! unat b) (take 8 mem)
      else le_word 8 (0x0101010101010101 :: u64)) @ simplify_loop i (drop 8 mem)"

definition simplify_trace :: "afl_map \<Rightarrow> u8 list \<Rightarrow> u8 list" where
  "simplify_trace afl bytes = simplify_loop (unat (drop_bit 3 (map_size afl))) bytes"

fun classify_loop :: "u16 list \<Rightarrow> nat \<Rightarrow> u8 list \<Rightarrow> u8 list" where
  "classify_loop lookup16 0 mem = mem"
| "classify_loop lookup16 (Suc i) mem =
     (if rd_word (take 8 mem) \<noteq> (0 :: u64)
      then le_word 8 (classify_word lookup16 (rd_word (take 8 mem)))
      else take 8 mem) @ classify_loop lookup16 i (drop 8 mem)"

definition classify_counts :: "afl_map \<Rightarrow> afl_map" where
  "classify_counts afl =
     afl\<lparr>trace_bits := classify_loop (count_class_lookup16 afl)
                        (unat (drop_bit 3 (map_size afl))) (trace_bits afl)\<rparr>"

definition discover_word :: "u8 \<Rightarrow> u8 list \<Rightarrow> u8 list \<Rightarrow> u8 \<times> u8 list" where
  "discover_word ret cur vir =
     (let current = rd_word cur :: u64; virgin = rd_word vir :: u64
      in if current AND virgin \<noteq> 0 then
           (if ret < 2 then
              (if (cur ! 0 \<noteq> 0 \<and> vir ! 0 = 0xff) \<or> (cur ! 1 \<noteq> 0 \<and> vir ! 1 = 0xff) \<or>
                  (cur ! 2 \<noteq> 0 \<and> vir ! 2 = 0xff) \<or> (cur ! 3 \<noteq> 0 \<and> vir ! 3 = 0xff) \<or>
                  (cur ! 4 \<noteq> 0 \<and> vir ! 4 = 0xff) \<or> (cur ! 5 \<noteq> 0 \<and> vir ! 5 = 0xff) \<or>
                  (cur ! 6 \<noteq> 0 \<and> vir ! 6 = 0xff) \<or> (cur ! 7 \<noteq> 0 \<and> vir ! 7 = 0xff)
               then 2 else 1)
            else ret,
            le_word 8 (virgin AND NOT current))
         else (ret, vir))"

text \<open>
  \<open>skim\<close> with the distance \<open>n\<close> between \<^verbatim>\<open>current\<close> and \<^verbatim>\<open>current_end\<close> in bytes; each round looks
  at four words.
\<close>

definition skim_word :: "u16 list \<Rightarrow> u8 list \<Rightarrow> u8 list \<Rightarrow> nat \<Rightarrow> bool" where
  "skim_word lookup16 virgin current k \<longleftrightarrow>
     (let c = rd_word (take 8 (drop (8 * k) current)) :: u64
      in c \<noteq> 0 \<and> classify_word lookup16 c AND rd_word (take 8 (drop (8 * k) virgin)) \<noteq> 0)"

function skim :: "u16 list \<Rightarrow> nat \<Rightarrow> u8 list \<Rightarrow> u8 list \<Rightarrow> u32" where
  "skim lookup16 n virgin current =
     (if 0 < n then
        if skim_word lookup16 virgin current 0 then 1
        else if skim_word lookup16 virgin current 1 then 1
        else if skim_word lookup16 virgin current 2 then 1
        else if skim_word lookup16 virgin current 3 then 1
        else skim lookup16 (n - 32) (drop 32 virgin) (drop 32 current)
      else 0)"
  by pat_completeness auto
termination by (relation "measure (\<lambda>(_, n, _, _). n)") auto

declare skim.simps [simp del]

fun has_new_bits_loop :: "nat \<Rightarrow> u8 \<Rightarrow> u8 list \<Rightarrow> u8 list \<Rightarrow> u8 \<times> u8 list" where
  "has_new_bits_loop 0 ret current virgin = (ret, virgin)"
| "has_new_bits_loop (Suc i) ret current virgin =
     (let (ret, v) = (if rd_word (take 8 current) \<noteq> (0 :: u64)
                      then discover_word ret (take 8 current) (take 8 virgin)
                      else (ret, take 8 virgin));
          (ret, vs) = has_new_bits_loop i ret (drop 8 current) (drop 8 virgin)
      in (ret, v @ vs))"

definition has_new_bits :: "afl_map \<Rightarrow> virgin_map \<Rightarrow> u8 \<times> afl_map" where
  "has_new_bits afl vm =
     (let (ret, v) = has_new_bits_loop (unat (drop_bit 3 (real_map_size afl + 7))) 0
                       (trace_bits afl) (virgin_of afl vm);
          afl = set_virgin vm v afl;
          afl = (if ret \<noteq> 0 \<and> vm = Virgin_bits then afl\<lparr>bitmap_changed := True\<rparr> else afl)
      in (ret, afl))"

definition has_new_bits_unclassified :: "afl_map \<Rightarrow> virgin_map \<Rightarrow> u8 \<times> afl_map" where
  "has_new_bits_unclassified afl vm =
     (if skim (count_class_lookup16 afl) (unat (map_size afl)) (virgin_of afl vm) (trace_bits afl) = 0
      then (0, afl)
      else has_new_bits (classify_counts afl) vm)"

text \<open>\<^verbatim>\<open>minimize_bits\<close>: the loop over \<^verbatim>\<open>src\<close> sets one bit of \<^verbatim>\<open>dst\<close> per non-zero byte.\<close>

fun minimize_loop :: "nat \<Rightarrow> u8 list \<Rightarrow> u8 list \<Rightarrow> u8 list" where
  "minimize_loop i dst [] = dst"
| "minimize_loop i dst (b # src) =
     minimize_loop (i + 1)
       (if b \<noteq> 0 then dst[i div 8 := dst ! (i div 8) OR push_bit (i mod 8) 1] else dst) src"

definition minimize_bits :: "afl_map \<Rightarrow> u8 list \<Rightarrow> u8 list \<Rightarrow> u8 list" where
  "minimize_bits afl dst src = minimize_loop 0 dst (take (unat (map_size afl)) src)"

section \<open>The 32-bit inner loops\<close>

definition classify_word_32 :: "u16 list \<Rightarrow> u32 \<Rightarrow> u32" where
  "classify_word_32 lookup16 word =
     (let bytes = le_word 4 word;
          mem16 = (\<lambda>k. rd_word (take 2 (drop (2 * k) bytes)) :: u16);
          look = (\<lambda>k. le_word 2 (lookup16 ! unat (mem16 k)))
      in rd_word (look 0 @ look 1))"

fun simplify_loop_32 :: "nat \<Rightarrow> u8 list \<Rightarrow> u8 list" where
  "simplify_loop_32 0 mem = mem"
| "simplify_loop_32 (Suc i) mem =
     (if rd_word (take 4 mem) \<noteq> (0 :: u32)
      then map (\<lambda>b. simplify_lookup ! unat b) (take 4 mem)
      else le_word 4 (0x01010101 :: u32)) @ simplify_loop_32 i (drop 4 mem)"

definition simplify_trace_32 :: "afl_map \<Rightarrow> u8 list \<Rightarrow> u8 list" where
  "simplify_trace_32 afl bytes = simplify_loop_32 (unat (drop_bit 2 (map_size afl))) bytes"

fun classify_loop_32 :: "u16 list \<Rightarrow> nat \<Rightarrow> u8 list \<Rightarrow> u8 list" where
  "classify_loop_32 lookup16 0 mem = mem"
| "classify_loop_32 lookup16 (Suc i) mem =
     (if rd_word (take 4 mem) \<noteq> (0 :: u32)
      then le_word 4 (classify_word_32 lookup16 (rd_word (take 4 mem)))
      else take 4 mem) @ classify_loop_32 lookup16 i (drop 4 mem)"

definition classify_counts_32 :: "afl_map \<Rightarrow> afl_map" where
  "classify_counts_32 afl =
     afl\<lparr>trace_bits := classify_loop_32 (count_class_lookup16 afl)
                        (unat (drop_bit 2 (map_size afl))) (trace_bits afl)\<rparr>"

definition discover_word_32 :: "u8 \<Rightarrow> u8 list \<Rightarrow> u8 list \<Rightarrow> u8 \<times> u8 list" where
  "discover_word_32 ret cur vir =
     (let current = rd_word cur :: u32; virgin = rd_word vir :: u32
      in if current AND virgin \<noteq> 0 then
           (if ret < 2 then
              (if (cur ! 0 \<noteq> 0 \<and> vir ! 0 = 0xff) \<or> (cur ! 1 \<noteq> 0 \<and> vir ! 1 = 0xff) \<or>
                  (cur ! 2 \<noteq> 0 \<and> vir ! 2 = 0xff) \<or> (cur ! 3 \<noteq> 0 \<and> vir ! 3 = 0xff)
               then 2 else 1)
            else ret,
            le_word 4 (virgin AND NOT current))
         else (ret, vir))"

definition skim_word_32 :: "u16 list \<Rightarrow> u8 list \<Rightarrow> u8 list \<Rightarrow> nat \<Rightarrow> bool" where
  "skim_word_32 lookup16 virgin current k \<longleftrightarrow>
     (let c = rd_word (take 4 (drop (4 * k) current)) :: u32
      in c \<noteq> 0 \<and> classify_word_32 lookup16 c AND rd_word (take 4 (drop (4 * k) virgin)) \<noteq> 0)"

function skim_32 :: "u16 list \<Rightarrow> nat \<Rightarrow> u8 list \<Rightarrow> u8 list \<Rightarrow> u32" where
  "skim_32 lookup16 n virgin current =
     (if 0 < n then
        if skim_word_32 lookup16 virgin current 0 then 1
        else if skim_word_32 lookup16 virgin current 1 then 1
        else if skim_word_32 lookup16 virgin current 2 then 1
        else if skim_word_32 lookup16 virgin current 3 then 1
        else skim_32 lookup16 (n - 16) (drop 16 virgin) (drop 16 current)
      else 0)"
  by pat_completeness auto
termination by (relation "measure (\<lambda>(_, n, _, _). n)") auto

declare skim_32.simps [simp del]

fun has_new_bits_loop_32 :: "nat \<Rightarrow> u8 \<Rightarrow> u8 list \<Rightarrow> u8 list \<Rightarrow> u8 \<times> u8 list" where
  "has_new_bits_loop_32 0 ret current virgin = (ret, virgin)"
| "has_new_bits_loop_32 (Suc i) ret current virgin =
     (let (ret, v) = (if rd_word (take 4 current) \<noteq> (0 :: u32)
                      then discover_word_32 ret (take 4 current) (take 4 virgin)
                      else (ret, take 4 virgin));
          (ret, vs) = has_new_bits_loop_32 i ret (drop 4 current) (drop 4 virgin)
      in (ret, v @ vs))"

definition has_new_bits_32 :: "afl_map \<Rightarrow> virgin_map \<Rightarrow> u8 \<times> afl_map" where
  "has_new_bits_32 afl vm =
     (let (ret, v) = has_new_bits_loop_32 (unat (drop_bit 2 (real_map_size afl + 3))) 0
                       (trace_bits afl) (virgin_of afl vm);
          afl = set_virgin vm v afl;
          afl = (if ret \<noteq> 0 \<and> vm = Virgin_bits then afl\<lparr>bitmap_changed := True\<rparr> else afl)
      in (ret, afl))"

definition has_new_bits_unclassified_32 :: "afl_map \<Rightarrow> virgin_map \<Rightarrow> u8 \<times> afl_map" where
  "has_new_bits_unclassified_32 afl vm =
     (if skim_32 (count_class_lookup16 afl) (unat (map_size afl)) (virgin_of afl vm) (trace_bits afl) = 0
      then (0, afl)
      else has_new_bits_32 (classify_counts_32 afl) vm)"


section \<open>Hit-count buckets\<close>

text \<open>The documented buckets of hit counts, and the class of a byte of the trace.\<close>

definition hit_bucket :: "nat \<Rightarrow> nat" where
  "hit_bucket n =
     (if n \<le> 2 then n else if n = 3 then 4 else if n \<le> 7 then 8 else if n \<le> 15 then 16
      else if n \<le> 31 then 32 else if n \<le> 127 then 64 else 128)"

definition count_class :: "u8 \<Rightarrow> u8" where
  "count_class b = count_class_lookup8 ! unat b"

lemma unat_u8_less [simp]: "unat (b :: u8) < 256"
  using unsigned_less [of b] by simp

lemma lookup8_bucket:
  assumes "n < 256"
  shows "count_class_lookup8 ! n = of_nat (hit_bucket n)"
proof -
  consider "n = 0" | "n = 1" | "n = 2" | "2 < n" by linarith
  then show ?thesis
    by cases (use assms in \<open>auto simp: count_class_lookup8_def hit_bucket_def nth_append nth_Cons'\<close>)
qed

lemma unat_count_class: "unat (count_class b) = hit_bucket (unat b)"
proof -
  have "hit_bucket (unat b) < 2 ^ 8" by (simp add: hit_bucket_def)
  then show ?thesis by (simp add: count_class_def lookup8_bucket unat_of_nat_small)
qed

lemma count_class_eq_0 [simp]: "count_class b = 0 \<longleftrightarrow> b = 0"
proof -
  have "count_class b = 0 \<longleftrightarrow> hit_bucket (unat b) = 0"
    by (simp add: unsigned_eq_0_iff flip: unat_count_class)
  also have "\<dots> \<longleftrightarrow> b = 0" by (auto simp: hit_bucket_def unsigned_eq_0_iff split: if_splits)
  finally show ?thesis .
qed

lemma simplify_lookup_nth: "simplify_lookup ! unat (b :: u8) = (if b = 0 then 1 else 128)"
proof (cases "b = 0")
  case False
  then obtain k where "unat b = Suc k" "k < 255"
    using unat_u8_less [of b] by (cases "unat b") (auto simp: unsigned_eq_0_iff)
  then show ?thesis using False by (simp add: simplify_lookup_def)
qed (simp add: simplify_lookup_def)

subsection \<open>The 16-bit table\<close>

lemma not_bit_u8 [simp]: "8 \<le> n \<Longrightarrow> \<not> bit (b :: u8) n"
  by (rule notI, drule bit_imp_le_length) simp

lemma take_bit_u8 [simp]: "take_bit 16 (unat (b :: u8)) = unat b"
proof (rule take_bit_nat_eq_self)
  show "unat b < 2 ^ 16" by (rule order.strict_trans2 [OF unat_u8_less]) simp
qed

lemma unat_rd_word2: "unat (rd_word [a, b] :: u16) = unat b * 256 + unat a"
proof -
  have a: "unat (ucast a :: u16) = unat a" by (simp add: unsigned_ucast_eq)
  have b: "unat (push_bit 8 (ucast b) :: u16) = 256 * unat b"
    by (simp add: push_bit_eq_mult unat_word_ariths unsigned_ucast_eq)
  have "(rd_word [a, b] :: u16) = ucast a + push_bit 8 (ucast b)"
    by (simp, rule disjunctive_add_eq_or [symmetric])
       (auto intro!: bit_word_eqI simp: bit_and_iff bit_ucast_iff bit_push_bit_iff)
  moreover have "unat (ucast a :: u16) + unat (push_bit 8 (ucast b) :: u16) < 2 ^ 16"
  proof -
    have "unat a + 256 * unat b < 65536"
      using unat_u8_less [of a] unat_u8_less [of b] by linarith
    then show ?thesis by (simp add: a b)
  qed
  ultimately show ?thesis by (simp add: unat_word_ariths a b)
qed

lemma le_word_2: "le_word 2 w = [ucast w, ucast (drop_bit 8 w)]"
proof -
  have "le_word (Suc (Suc 0)) w = [ucast w, ucast (drop_bit 8 w)]" by simp
  then show ?thesis unfolding numeral_2_eq_2 .
qed

lemma le_word_class16:
  "le_word 2 (push_bit 8 (ucast (x::u8)) OR ucast (y::u8) :: u16) = [y, x]"
proof -
  have "ucast (push_bit 8 (ucast x) OR ucast y :: u16) = y"
    by (rule bit_word_eqI) (auto simp: bit_or_iff bit_push_bit_iff bit_ucast_iff)
  moreover have "ucast (drop_bit 8 (push_bit 8 (ucast x) OR ucast y :: u16)) = x"
    by (rule bit_word_eqI) (auto simp: bit_or_iff bit_push_bit_iff bit_ucast_iff bit_drop_bit_eq dest: bit_imp_le_length)
  ultimately show ?thesis by (simp add: le_word_2)
qed

abbreviation class16_at :: "nat \<Rightarrow> nat \<Rightarrow> u16" where
  "class16_at b1 b2 \<equiv> push_bit 8 (ucast (count_class_lookup8 ! b1)) OR ucast (count_class_lookup8 ! b2)"

lemma length_init_row [simp]: "length (init_row b1 bs tab) = length tab"
  by (induction b1 bs tab rule: init_row.induct) auto

lemma length_init_rows [simp]: "length (init_rows bs tab) = length tab"
  by (induction bs tab rule: init_rows.induct) auto

lemma nth_init_row:
  "i < length tab \<Longrightarrow> init_row b1 bs tab ! i =
     (if i \<in> (\<lambda>b2. b1 * 256 + b2) ` set bs then class16_at b1 (i - b1 * 256) else tab ! i)"
  by (induction b1 bs tab rule: init_row.induct) (auto simp: nth_list_update)

lemma nth_init_rows:
  "i < length tab \<Longrightarrow> init_rows bs tab ! i =
     (if i div 256 \<in> set bs then class16_at (i div 256) (i mod 256) else tab ! i)"
proof (induction bs tab rule: init_rows.induct)
  case (2 b1 bs tab)
  have mem: "i \<in> (\<lambda>b2. b1 * 256 + b2) ` {0..<256} \<longleftrightarrow> i div 256 = b1"
  proof
    assume "i div 256 = b1"
    then have "i = b1 * 256 + i mod 256" by (metis div_mult_mod_eq)
    then show "i \<in> (\<lambda>b2. b1 * 256 + b2) ` {0..<256}" by (intro image_eqI [of _ _ "i mod 256"]) auto
  qed auto
  have diff: "i - i div 256 * 256 = i mod 256" by (simp add: minus_div_mult_eq_mod)
  show ?case using 2 by (auto simp: nth_init_row mem diff)
qed simp

abbreviation class16_table :: "u16 list \<Rightarrow> bool" where
  "class16_table tab \<equiv> (\<exists>tab0. length tab0 = 65536 \<and> tab = init_rows [0..<256] tab0)"

lemma class16_table_nth:
  assumes "class16_table tab"
  shows "le_word 2 (tab ! unat (rd_word [a, b] :: u16)) = [count_class a, count_class b]"
proof -
  have lt: "unat b * 256 + unat a < 65536" using unat_u8_less [of a] unat_u8_less [of b] by linarith
  have "tab ! (unat b * 256 + unat a) = class16_at (unat b) (unat a)"
    using assms lt by (auto simp: nth_init_rows)
  then show ?thesis by (simp only: unat_rd_word2 le_word_class16 count_class_def)
qed

section \<open>Words against bytes\<close>

text \<open>
  \<open>novelty\<close> is the answer of the comparison byte by byte: 2 when a byte that was never touched is
  hit, 1 when a touched byte shows a new bucket, 0 otherwise.
\<close>

definition novelty :: "u8 list \<Rightarrow> u8 list \<Rightarrow> u8" where
  "novelty cur vir =
     (if \<exists>(c, v) \<in> set (zip cur vir). c \<noteq> 0 \<and> v = 0xff then 2
      else if \<exists>(c, v) \<in> set (zip cur vir). c AND v \<noteq> 0 then 1 else 0)"

definition clear_seen :: "u8 list \<Rightarrow> u8 list \<Rightarrow> u8 list" where
  "clear_seen cur vir = map2 (\<lambda>c v. v AND NOT c) cur vir"

lemma and_ff [simp]: "(c :: u8) AND 0xff = c"
proof -
  have "(0xff :: u8) = - 1" by simp
  then show ?thesis by (simp only: and.right_neutral)
qed

lemma novelty_eq_0: "novelty cur vir = 0 \<longleftrightarrow> (\<forall>(c, v) \<in> set (zip cur vir). c AND v = 0)"
  by (force simp: novelty_def split: if_splits)

lemma novelty_append:
  "length xs = length us \<Longrightarrow> novelty (xs @ ys) (us @ vs) = max (novelty xs us) (novelty ys vs)"
proof -
  have grade: "(if a \<or> b then 2 else if c \<or> d then 1 else 0) =
      max (if a then 2 else if c then 1 else 0) (if b then 2 else if d then 1 else (0 :: u8))" for a b c d
    by (cases a; cases b; cases c; cases d) (simp_all add: max_def word_le_nat_alt)
  assume len: "length xs = length us"
  show ?thesis unfolding novelty_def zip_append [OF len] set_append bex_Un
    by (rule grade)
qed

lemma novelty_le_2: "novelty cur vir \<le> 2"
  by (auto simp: novelty_def)

lemma clear_seen_append:
  "length xs = length us \<Longrightarrow> clear_seen (xs @ ys) (us @ vs) = clear_seen xs us @ clear_seen ys vs"
  by (simp add: clear_seen_def)

lemma length_clear_seen [simp]: "length (clear_seen xs us) = min (length xs) (length us)"
  by (simp add: clear_seen_def)

lemma novelty_clear_seen [simp]: "novelty cur (clear_seen cur vir) = 0"
proof -
  have "c AND (v AND NOT c) = 0" for c v :: u8
    by (rule bit_word_eqI) (auto simp: bit_simps)
  then show ?thesis by (auto simp: novelty_eq_0 clear_seen_def in_set_zip)
qed

lemma and_not_idle:
  assumes "c AND v = (0 :: u8)"
  shows "v AND NOT c = v"
proof (rule bit_word_eqI)
  fix n
  have "\<not> bit (c AND v) n" by (simp add: assms)
  then show "bit (v AND NOT c) n = bit v n" if "n < LENGTH(8)"
    using that by (auto simp: bit_and_iff bit_not_iff)
qed

lemma clear_seen_idle: "length cur = length vir \<Longrightarrow> novelty cur vir = 0 \<Longrightarrow> clear_seen cur vir = vir"
proof (induction cur vir rule: list_induct2)
  case (Cons c cur v vir)
  have "c AND v = 0" "novelty cur vir = 0" using Cons.prems by (auto simp: novelty_eq_0)
  then show ?case using Cons.IH by (simp add: clear_seen_def and_not_idle)
qed (simp add: clear_seen_def)

lemma word_new_iff:
  assumes "length cur = n" "length vir = n" "8 * n \<le> LENGTH('a)"
  shows "(rd_word cur AND rd_word vir :: 'a::len word) = 0 \<longleftrightarrow> novelty cur vir = 0"
  using assms by (simp add: rd_word_and rd_word_eq_0 novelty_eq_0 set_zip)

lemma ex_zip_less:
  "length xs = n \<Longrightarrow> length ys = n \<Longrightarrow>
     (\<exists>(x, y) \<in> set (zip xs ys). P x y) \<longleftrightarrow> (\<exists>i < n. P (xs ! i) (ys ! i))"
  by (auto simp: set_zip)

lemma ex_less_8: "(\<exists>i < 8. P i) \<longleftrightarrow> P 0 \<or> P 1 \<or> P 2 \<or> P 3 \<or> P 4 \<or> P 5 \<or> P 6 \<or> P (7 :: nat)"
proof -
  have "{i. i < 8} = {0, 1, 2, 3, 4, 5, 6, 7 :: nat}" by auto
  then show ?thesis by (auto simp: set_eq_iff)
qed

lemma ex_less_4: "(\<exists>i < 4. P i) \<longleftrightarrow> P 0 \<or> P 1 \<or> P 2 \<or> P (3 :: nat)"
proof -
  have "{i. i < 4} = {0, 1, 2, 3 :: nat}" by auto
  then show ?thesis by (auto simp: set_eq_iff)
qed

lemma novelty_new:
  assumes "novelty cur vir \<noteq> 0"
  shows "novelty cur vir = (if \<exists>(c, v) \<in> set (zip cur vir). c \<noteq> 0 \<and> v = 0xff then 2 else 1)"
  using assms unfolding novelty_def by presburger

lemma max_novelty_new:
  assumes "ret \<le> 2" "novelty cur vir \<noteq> 0"
  shows "max ret (novelty cur vir) =
    (if ret < 2 then if \<exists>(c, v) \<in> set (zip cur vir). c \<noteq> 0 \<and> v = 0xff then 2 else 1 else ret)"
proof -
  have "unat (novelty cur vir) \<ge> 1" "unat ret \<le> 2" "unat (novelty cur vir) \<le> 2"
    using assms novelty_le_2 [of cur vir] unsigned_eq_0_iff [of "novelty cur vir", where ?'a = nat]
    by (auto simp: word_le_nat_alt)
  then have "max ret (novelty cur vir) = (if ret < 2 then novelty cur vir else ret)"
    by (auto simp: max_def word_le_nat_alt word_less_nat_alt intro: word_unat_eq_iff [THEN iffD2])
  then show ?thesis using novelty_new [OF assms(2)] by simp
qed

lemma discover_word_spec:
  assumes "length cur = 8" "length vir = 8" "ret \<le> 2"
  shows "discover_word ret cur vir = (max ret (novelty cur vir), clear_seen cur vir)"
proof (cases "novelty cur vir = 0")
  case True
  then have "(rd_word cur AND rd_word vir :: u64) = 0" using assms by (simp add: word_new_iff [where n = 8])
  then show ?thesis using True assms by (simp add: discover_word_def clear_seen_idle max_def)
next
  case False
  then have "(rd_word cur AND rd_word vir :: u64) \<noteq> 0" using assms by (simp add: word_new_iff [where n = 8])
  then show ?thesis using assms False
    by (simp add: discover_word_def Let_def le_word_clear clear_seen_def max_novelty_new
        ex_zip_less [where n = 8] ex_less_8)
qed

lemma discover_word_32_spec:
  assumes "length cur = 4" "length vir = 4" "ret \<le> 2"
  shows "discover_word_32 ret cur vir = (max ret (novelty cur vir), clear_seen cur vir)"
proof (cases "novelty cur vir = 0")
  case True
  then have "(rd_word cur AND rd_word vir :: u32) = 0" using assms by (simp add: word_new_iff [where n = 4])
  then show ?thesis using True assms by (simp add: discover_word_32_def clear_seen_idle max_def)
next
  case False
  then have "(rd_word cur AND rd_word vir :: u32) \<noteq> 0" using assms by (simp add: word_new_iff [where n = 4])
  then show ?thesis using assms False
    by (simp add: discover_word_32_def Let_def le_word_clear clear_seen_def max_novelty_new
        ex_zip_less [where n = 4] ex_less_4)
qed

end
