(* ===== verification/AFL_Coverage.thy ===== *)
theory AFL_Coverage
  imports AFL_Bitmap
begin

unbundle bit_operations_syntax

text \<open>
  What the coverage-map routines of \<^verbatim>\<open>AFL_Bitmap\<close> compute, byte by byte: the word loops of the
  64-bit and of the 32-bit variant against one specification, the two-phase check on the
  unclassified trace, the counters, and the compaction of a trace into one bit per byte.
  The locale \<open>word_scan\<close> is the interface between a word size and the loops over a map; both
  headers are interpretations of it.
\<close>

lemma novelty_zero: "\<forall>b \<in> set cur. b = 0 \<Longrightarrow> novelty cur vir = 0"
  by (auto simp: novelty_eq_0 dest!: set_zip_leftD bspec)

lemma novelty_append5:
  assumes "length a = length p" "length b = length q" "length c = length r" "length d = length s"
  shows "novelty (a @ b @ c @ d @ e) (p @ q @ r @ s @ t) = 0 \<longleftrightarrow>
    novelty a p = 0 \<and> novelty b q = 0 \<and> novelty c r = 0 \<and> novelty d s = 0 \<and> novelty e t = 0"
proof -
  have max0: "max x y = 0 \<longleftrightarrow> x = 0 \<and> y = 0" for x y :: u8
    by (auto simp: max_def)
  show ?thesis using assms by (simp add: novelty_append max0)
qed

section \<open>The interface of a word size\<close>

locale word_scan =
  fixes w :: nat
    and nonzero :: "u8 list \<Rightarrow> bool"
    and discover :: "u8 \<Rightarrow> u8 list \<Rightarrow> u8 list \<Rightarrow> u8 \<times> u8 list"
    and classify :: "u16 list \<Rightarrow> u8 list \<Rightarrow> u8 list"
    and simplify :: "u8 list \<Rightarrow> u8 list"
    and skim_at :: "u16 list \<Rightarrow> u8 list \<Rightarrow> u8 list \<Rightarrow> nat \<Rightarrow> bool"
    and new_loop :: "nat \<Rightarrow> u8 \<Rightarrow> u8 list \<Rightarrow> u8 list \<Rightarrow> u8 \<times> u8 list"
    and class_loop :: "u16 list \<Rightarrow> nat \<Rightarrow> u8 list \<Rightarrow> u8 list"
    and simp_loop :: "nat \<Rightarrow> u8 list \<Rightarrow> u8 list"
    and skim_loop :: "u16 list \<Rightarrow> nat \<Rightarrow> u8 list \<Rightarrow> u8 list \<Rightarrow> u32"
  assumes w_pos: "0 < w"
    and nonzero: "length c = w \<Longrightarrow> nonzero c \<longleftrightarrow> (\<exists>b \<in> set c. b \<noteq> 0)"
    and discover: "length c = w \<Longrightarrow> length v = w \<Longrightarrow> ret \<le> 2 \<Longrightarrow>
      discover ret c v = (max ret (novelty c v), clear_seen c v)"
    and classify: "class16_table tab \<Longrightarrow> length c = w \<Longrightarrow> classify tab c = map count_class c"
    and simplify: "length c = w \<Longrightarrow> simplify c = map (\<lambda>b. if b = 0 then 1 else 128) c"
    and skim_at: "class16_table tab \<Longrightarrow> w * Suc k \<le> length c \<Longrightarrow> w * Suc k \<le> length v \<Longrightarrow>
      skim_at tab v c k \<longleftrightarrow>
        novelty (map count_class (take w (drop (w * k) c))) (take w (drop (w * k) v)) \<noteq> 0"
    and new_loop_0: "new_loop 0 ret cur vir = (ret, vir)"
    and new_loop_Suc: "new_loop (Suc i) ret cur vir =
      (let (ret, v) = (if nonzero (take w cur) then discover ret (take w cur) (take w vir)
                       else (ret, take w vir));
           (ret, vs) = new_loop i ret (drop w cur) (drop w vir)
       in (ret, v @ vs))"
    and class_loop_0: "class_loop tab 0 mem = mem"
    and class_loop_Suc: "class_loop tab (Suc i) mem =
      (if nonzero (take w mem) then classify tab (take w mem) else take w mem) @ class_loop tab i (drop w mem)"
    and simp_loop_0: "simp_loop 0 mem = mem"
    and simp_loop_Suc: "simp_loop (Suc i) mem = simplify (take w mem) @ simp_loop i (drop w mem)"
    and skim_loop: "skim_loop tab n v c =
      (if 0 < n then
         if skim_at tab v c 0 then 1 else if skim_at tab v c 1 then 1
         else if skim_at tab v c 2 then 1 else if skim_at tab v c 3 then 1
         else skim_loop tab (n - 4 * w) (drop (4 * w) v) (drop (4 * w) c)
       else 0)"
begin

lemma take_words:
  "take (w * Suc i) xs = take w xs @ take (w * i) (drop w xs)"
  "drop (w * Suc i) xs = drop (w * i) (drop w xs)"
  by (simp add: take_add) (simp add: add.commute)

lemma new_loop_spec:
  assumes "w * i \<le> length cur" "w * i \<le> length vir" "ret \<le> 2"
  shows "new_loop i ret cur vir =
    (max ret (novelty (take (w * i) cur) (take (w * i) vir)),
     clear_seen (take (w * i) cur) (take (w * i) vir) @ drop (w * i) vir)"
  using assms
proof (induction i arbitrary: ret cur vir)
  case (Suc i)
  let ?c = "take w cur" and ?v = "take w vir"
  have len: "length ?c = w" "length ?v = w" using Suc.prems by simp_all
  have step: "(if nonzero ?c then discover ret ?c ?v else (ret, ?v)) =
      (max ret (novelty ?c ?v), clear_seen ?c ?v)"
  proof (cases "nonzero ?c")
    case False
    then have "novelty ?c ?v = 0" using len by (intro novelty_zero) (simp add: nonzero)
    then show ?thesis using False len by (simp add: clear_seen_idle max_def)
  qed (use discover [OF len Suc.prems(3)] in simp)
  have le: "max ret (novelty ?c ?v) \<le> 2" using Suc.prems(3) novelty_le_2 by simp
  show ?case
    using Suc.IH [OF _ _ le, of "drop w cur" "drop w vir"] Suc.prems
    by (simp only: new_loop_Suc step take_words Let_def prod.case)
       (simp add: novelty_append clear_seen_append max.assoc)
qed (simp add: new_loop_0 novelty_def clear_seen_def max_def)

lemma class_loop_spec:
  assumes "class16_table tab" "w * i \<le> length mem"
  shows "class_loop tab i mem = map count_class (take (w * i) mem) @ drop (w * i) mem"
  using assms(2)
proof (induction i arbitrary: mem)
  case (Suc i)
  let ?c = "take w mem"
  have len: "length ?c = w" using Suc.prems by simp
  have "(if nonzero ?c then classify tab ?c else ?c) = map count_class ?c"
    using len by (auto simp: nonzero classify [OF assms(1)] intro!: map_idI [symmetric])
  then show ?case using Suc.IH [of "drop w mem"] Suc.prems
    by (simp only: class_loop_Suc take_words) simp
qed (simp add: class_loop_0)

lemma simp_loop_spec:
  "w * i \<le> length mem \<Longrightarrow>
     simp_loop i mem = map (\<lambda>b. if b = 0 then 1 else 128) (take (w * i) mem) @ drop (w * i) mem"
proof (induction i arbitrary: mem)
  case (Suc i)
  then show ?case by (simp only: simp_loop_Suc take_words) (simp add: simplify)
qed (simp add: simp_loop_0)

lemma take_four_words:
  "take (4 * w + n) xs = take w (drop (w * 0) xs) @ take w (drop (w * 1) xs) @
     take w (drop (w * 2) xs) @ take w (drop (w * 3) xs) @ take n (drop (4 * w) xs)"
proof -
  have m: "w * 2 = w + w" "w * 3 = w + (w + w)" "4 * w = w + (w + (w + w))" by simp_all
  show ?thesis unfolding m by (simp add: take_add add.assoc)
qed

lemma skim_spec:
  assumes "class16_table tab" "4 * w * m \<le> length cur" "4 * w * m \<le> length vir"
  shows "skim_loop tab (4 * w * m) vir cur =
    (if novelty (map count_class (take (4 * w * m) cur)) (take (4 * w * m) vir) \<noteq> 0 then 1 else 0)"
  using assms(2,3)
proof (induction m arbitrary: cur vir)
  case (Suc m)
  let ?n = "4 * w * m"
  let ?N = "\<lambda>k. novelty (map count_class (take w (drop (w * k) cur))) (take w (drop (w * k) vir))"
  have room: "w * Suc k \<le> length cur" "w * Suc k \<le> length vir" if "k < 4" for k
  proof -
    have "w * Suc k \<le> w * 4" using that by (intro mult_le_mono2) simp
    moreover have "w * 4 \<le> 4 * w * Suc m" by simp
    ultimately show "w * Suc k \<le> length cur" "w * Suc k \<le> length vir"
      using Suc.prems by linarith+
  qed
  then have at: "skim_at tab vir cur k \<longleftrightarrow> ?N k \<noteq> 0" if "k < 4" for k
    using that by (intro skim_at [OF assms(1)]) auto
  have split: "take (4 * w * Suc m) xs =
      take w (drop (w * 0) xs) @ take w (drop (w * 1) xs) @ take w (drop (w * 2) xs) @
      take w (drop (w * 3) xs) @ take ?n (drop (4 * w) xs)" for xs :: "u8 list"
    using take_four_words [of ?n xs] by simp
  have len: "length (take w (drop (w * k) cur)) = w" "length (take w (drop (w * k) vir)) = w" if "k < 4" for k
    using room [OF that] by auto
  have lt: "0 < (4 :: nat)" "1 < (4 :: nat)" "2 < (4 :: nat)" "3 < (4 :: nat)" by simp_all
  have nov: "novelty (map count_class (take (4 * w * Suc m) cur)) (take (4 * w * Suc m) vir) = 0 \<longleftrightarrow>
      ?N 0 = 0 \<and> ?N 1 = 0 \<and> ?N 2 = 0 \<and> ?N 3 = 0 \<and>
      novelty (map count_class (take ?n (drop (4 * w) cur))) (take ?n (drop (4 * w) vir)) = 0"
    unfolding split map_append
    by (rule novelty_append5; simp only: length_map len [OF lt(1)] len [OF lt(2)] len [OF lt(3)] len [OF lt(4)])
  have diff: "4 * w * Suc m - 4 * w = ?n" and pos: "(0 < 4 * w * Suc m) = True" using w_pos by simp_all
  have IH: "skim_loop tab ?n (drop (4 * w) vir) (drop (4 * w) cur) =
    (if novelty (map count_class (take ?n (drop (4 * w) cur))) (take ?n (drop (4 * w) vir)) \<noteq> 0 then 1 else 0)"
    using Suc.prems by (intro Suc.IH) simp_all
  show ?case
    unfolding skim_loop [of tab "4 * w * Suc m"] by (simp only: diff pos if_True at [OF lt(1)] at [OF lt(2)] at [OF lt(3)]
        at [OF lt(4)] IH nov, simp only: if_True if_False simp_thms not_not split: if_split, blast)
next
  case 0
  show ?case unfolding skim_loop [of tab "4 * w * 0"] by (simp add: novelty_def)
qed

end

section \<open>Both word sizes implement it\<close>

lemma length_8_cases:
  assumes "length (c :: 'a list) = 8"
  obtains x0 x1 x2 x3 x4 x5 x6 x7 where "c = [x0, x1, x2, x3, x4, x5, x6, x7]"
  using assms by (auto simp: numeral_eq_Suc length_Suc_conv)

lemma length_4_cases:
  assumes "length (c :: 'a list) = 4"
  obtains x0 x1 x2 x3 where "c = [x0, x1, x2, x3]"
  using assms by (auto simp: numeral_eq_Suc length_Suc_conv)

lemma classify_word_bytes:
  assumes "class16_table tab" "length c = 8"
  shows "classify_word tab (rd_word c) = rd_word (map count_class c)"
proof -
  obtain x0 x1 x2 x3 x4 x5 x6 x7 where c: "c = [x0, x1, x2, x3, x4, x5, x6, x7]"
    using assms(2) by (rule length_8_cases)
  have bytes: "le_word 8 (rd_word c :: u64) = c" using assms(2) by simp
  have pairs: "take 2 (drop (2 * 0) c) = [x0, x1]" "take 2 (drop (2 * 1) c) = [x2, x3]"
    "take 2 (drop (2 * 2) c) = [x4, x5]" "take 2 (drop (2 * 3) c) = [x6, x7]"
    by (simp_all add: c)
  show ?thesis unfolding classify_word_def Let_def bytes pairs class16_table_nth [OF assms(1)]
    by (simp only: c list.map append_Cons append_Nil)
qed

lemma classify_word_32_bytes:
  assumes "class16_table tab" "length c = 4"
  shows "classify_word_32 tab (rd_word c) = rd_word (map count_class c)"
proof -
  obtain x0 x1 x2 x3 where c: "c = [x0, x1, x2, x3]"
    using assms(2) by (rule length_4_cases)
  have bytes: "le_word 4 (rd_word c :: u32) = c" using assms(2) by simp
  have pairs: "take 2 (drop (2 * 0) c) = [x0, x1]" "take 2 (drop (2 * 1) c) = [x2, x3]"
    by (simp_all add: c)
  show ?thesis unfolding classify_word_32_def Let_def bytes pairs class16_table_nth [OF assms(1)]
    by (simp only: c list.map append_Cons append_Nil)
qed

lemma simplify_word_bytes:
  assumes "length c = 8"
  shows "(if rd_word c \<noteq> (0 :: u64) then map (\<lambda>b. simplify_lookup ! unat b) c
          else le_word 8 (0x0101010101010101 :: u64)) = map (\<lambda>b. if b = 0 then 1 else 128) c"
proof -
  have "le_word 8 (0x0101010101010101 :: u64) = replicate 8 1"
    by code_simp
  moreover have "map (\<lambda>b. if b = 0 then 1 else 128) c = replicate 8 (1 :: u8)" if "\<forall>b \<in> set c. b = 0"
    using that assms by (intro replicate_eqI) auto
  ultimately show ?thesis using assms by (simp add: rd_word_eq_0 simplify_lookup_nth)
qed

lemma simplify_word_32_bytes:
  assumes "length c = 4"
  shows "(if rd_word c \<noteq> (0 :: u32) then map (\<lambda>b. simplify_lookup ! unat b) c
          else le_word 4 (0x01010101 :: u32)) = map (\<lambda>b. if b = 0 then 1 else 128) c"
proof -
  have "le_word 4 (0x01010101 :: u32) = replicate 4 1"
    by code_simp
  moreover have "map (\<lambda>b. if b = 0 then 1 else 128) c = replicate 4 (1 :: u8)" if "\<forall>b \<in> set c. b = 0"
    using that assms by (intro replicate_eqI) auto
  ultimately show ?thesis using assms by (simp add: rd_word_eq_0 simplify_lookup_nth)
qed

lemma skim_word_bytes:
  assumes "class16_table tab" "8 * Suc k \<le> length cur" "8 * Suc k \<le> length vir"
  shows "skim_word tab vir cur k \<longleftrightarrow>
    novelty (map count_class (take 8 (drop (8 * k) cur))) (take 8 (drop (8 * k) vir)) \<noteq> 0"
proof -
  let ?c = "take 8 (drop (8 * k) cur)" and ?v = "take 8 (drop (8 * k) vir)"
  have len: "length ?c = 8" "length ?v = 8" using assms by simp_all
  have "novelty (map count_class ?c) ?v = 0" if "(rd_word ?c :: u64) = 0"
    using that len by (intro novelty_zero) (simp add: rd_word_eq_0)
  then show ?thesis
    using len word_new_iff [of "map count_class ?c" 8 ?v, where ?'a = 64]
    by (auto simp: skim_word_def Let_def classify_word_bytes [OF assms(1)])
qed

lemma skim_word_32_bytes:
  assumes "class16_table tab" "4 * Suc k \<le> length cur" "4 * Suc k \<le> length vir"
  shows "skim_word_32 tab vir cur k \<longleftrightarrow>
    novelty (map count_class (take 4 (drop (4 * k) cur))) (take 4 (drop (4 * k) vir)) \<noteq> 0"
proof -
  let ?c = "take 4 (drop (4 * k) cur)" and ?v = "take 4 (drop (4 * k) vir)"
  have len: "length ?c = 4" "length ?v = 4" using assms by simp_all
  have "novelty (map count_class ?c) ?v = 0" if "(rd_word ?c :: u32) = 0"
    using that len by (intro novelty_zero) (simp add: rd_word_eq_0)
  then show ?thesis
    using len word_new_iff [of "map count_class ?c" 4 ?v, where ?'a = 32]
    by (auto simp: skim_word_32_def Let_def classify_word_32_bytes [OF assms(1)])
qed

interpretation scan64: word_scan 8 "\<lambda>c. rd_word c \<noteq> (0 :: u64)" discover_word
  "\<lambda>tab c. le_word 8 (classify_word tab (rd_word c))"
  "\<lambda>c. if rd_word c \<noteq> (0 :: u64) then map (\<lambda>b. simplify_lookup ! unat b) c
       else le_word 8 (0x0101010101010101 :: u64)"
  skim_word has_new_bits_loop classify_loop simplify_loop skim
proof
  show "discover_word ret c v = (max ret (novelty c v), clear_seen c v)"
    if "length c = 8" "length v = 8" "ret \<le> 2" for c v ret
    using that by (rule discover_word_spec)
  show "(if rd_word c \<noteq> (0 :: u64) then map (\<lambda>b. simplify_lookup ! unat b) c
         else le_word 8 (0x0101010101010101 :: u64)) = map (\<lambda>b. if b = 0 then 1 else 128) c"
    if "length c = 8" for c
    using that by (rule simplify_word_bytes)
  show "skim_word tab v c k \<longleftrightarrow>
      novelty (map count_class (take 8 (drop (8 * k) c))) (take 8 (drop (8 * k) v)) \<noteq> 0"
    if "class16_table tab" "8 * Suc k \<le> length c" "8 * Suc k \<le> length v" for tab k c v
    using that by (rule skim_word_bytes)
  show "skim tab n v c =
      (if 0 < n then
         if skim_word tab v c 0 then 1 else if skim_word tab v c 1 then 1
         else if skim_word tab v c 2 then 1 else if skim_word tab v c 3 then 1
         else skim tab (n - 4 * 8) (drop (4 * 8) v) (drop (4 * 8) c)
       else 0)" for tab n v c
  proof -
    have "4 * 8 = (32 :: nat)" by simp
    then show ?thesis by (simp only: skim.simps [of tab n])
  qed
qed (simp_all add: rd_word_eq_0 classify_word_bytes)

interpretation scan32: word_scan 4 "\<lambda>c. rd_word c \<noteq> (0 :: u32)" discover_word_32
  "\<lambda>tab c. le_word 4 (classify_word_32 tab (rd_word c))"
  "\<lambda>c. if rd_word c \<noteq> (0 :: u32) then map (\<lambda>b. simplify_lookup ! unat b) c
       else le_word 4 (0x01010101 :: u32)"
  skim_word_32 has_new_bits_loop_32 classify_loop_32 simplify_loop_32 skim_32
proof
  show "discover_word_32 ret c v = (max ret (novelty c v), clear_seen c v)"
    if "length c = 4" "length v = 4" "ret \<le> 2" for c v ret
    using that by (rule discover_word_32_spec)
  show "(if rd_word c \<noteq> (0 :: u32) then map (\<lambda>b. simplify_lookup ! unat b) c
         else le_word 4 (0x01010101 :: u32)) = map (\<lambda>b. if b = 0 then 1 else 128) c"
    if "length c = 4" for c
    using that by (rule simplify_word_32_bytes)
  show "skim_word_32 tab v c k \<longleftrightarrow>
      novelty (map count_class (take 4 (drop (4 * k) c))) (take 4 (drop (4 * k) v)) \<noteq> 0"
    if "class16_table tab" "4 * Suc k \<le> length c" "4 * Suc k \<le> length v" for tab k c v
    using that by (rule skim_word_32_bytes)
  show "skim_32 tab n v c =
      (if 0 < n then
         if skim_word_32 tab v c 0 then 1 else if skim_word_32 tab v c 1 then 1
         else if skim_word_32 tab v c 2 then 1 else if skim_word_32 tab v c 3 then 1
         else skim_32 tab (n - 4 * 4) (drop (4 * 4) v) (drop (4 * 4) c)
       else 0)" for tab n v c
  proof -
    have "4 * 4 = (16 :: nat)" by simp
    then show ?thesis by (simp only: skim_32.simps [of tab n])
  qed
qed (simp_all add: rd_word_eq_0 classify_word_32_bytes)

section \<open>The map operations\<close>

text \<open>
  A map is set up for use: the trace and the virgin maps have \<open>map_size\<close> bytes, a multiple of the
  64 bytes of a cache line, the target's own map is not larger, and the table is initialised.
\<close>

definition map_ok :: "afl_map \<Rightarrow> bool" where
  "map_ok afl \<longleftrightarrow>
     length (trace_bits afl) = unat (map_size afl) \<and>
     (\<forall>vm. length (virgin_of afl vm) = unat (map_size afl)) \<and>
     64 dvd unat (map_size afl) \<and> real_map_size afl \<le> map_size afl \<and>
     class16_table (count_class_lookup16 afl)"

text \<open>The bytes of the target's map, rounded up to words of \<open>w\<close> bytes.\<close>

definition covered :: "nat \<Rightarrow> afl_map \<Rightarrow> nat" where
  "covered w afl = w * ((unat (real_map_size afl) + (w - 1)) div w)"

lemma map_okD:
  assumes "map_ok afl"
  shows "length (trace_bits afl) = unat (map_size afl)" "length (virgin_of afl vm) = unat (map_size afl)"
    "64 dvd unat (map_size afl)" "real_map_size afl \<le> map_size afl"
    "class16_table (count_class_lookup16 afl)"
  using assms by (auto simp: map_ok_def)

lemma virgin_set_virgin [simp]:
  "virgin_of (set_virgin vm v afl) vm' = (if vm' = vm then v else virgin_of afl vm')"
  "trace_bits (set_virgin vm v afl) = trace_bits afl" "map_size (set_virgin vm v afl) = map_size afl"
  "real_map_size (set_virgin vm v afl) = real_map_size afl"
  "bitmap_changed (set_virgin vm v afl) = bitmap_changed afl"
  "count_class_lookup16 (set_virgin vm v afl) = count_class_lookup16 afl"
  by (cases vm; cases vm'; simp)+

lemma virgin_of_update [simp]:
  "virgin_of (afl\<lparr>bitmap_changed := b\<rparr>) vm = virgin_of afl vm"
  "virgin_of (afl\<lparr>trace_bits := t\<rparr>) vm = virgin_of afl vm"
  by (cases vm; simp)+

lemma size_words:
  assumes "map_ok afl" "w dvd 64" "0 < w"
  shows "unat (real_map_size afl) \<le> covered w afl" "covered w afl \<le> unat (map_size afl)"
proof -
  have le: "unat (real_map_size afl) \<le> unat (map_size afl)"
    using map_okD(4) [OF assms(1)] by (simp add: word_le_nat_alt)
  obtain k where k: "unat (map_size afl) = w * k"
    using map_okD(3) [OF assms(1)] assms(2) by (meson dvd_def dvd_trans)
  show "unat (real_map_size afl) \<le> covered w afl"
  proof -
    have "(unat (real_map_size afl) + (w - 1)) mod w < w" using assms(3) by simp
    then show ?thesis
      using mult_div_mod_eq [of w "unat (real_map_size afl) + (w - 1)"] unfolding covered_def by linarith
  qed
  have "(unat (real_map_size afl) + (w - 1)) div w \<le> (w * k + (w - 1)) div w"
    using le k by (intro div_le_mono) simp
  also have "\<dots> = k" using assms(3) by (intro div_nat_eqI) simp_all
  finally show "covered w afl \<le> unat (map_size afl)" unfolding covered_def k by (rule mult_le_mono2)
qed

lemma unat_drop_bit: "unat (drop_bit n (x :: u32)) = unat x div 2 ^ n"
  unfolding unat_drop_bit_eq by (rule drop_bit_eq_div)

lemma unat_size_plus:
  assumes "map_ok afl" "k < 64"
  shows "unat (real_map_size afl + of_nat k) = unat (real_map_size afl) + k"
proof -
  have "64 dvd (2 ^ 32 :: nat)" by simp
  moreover have "unat (map_size afl) < 2 ^ 32" using unsigned_less [of "map_size afl"] by simp
  ultimately have "unat (map_size afl) + 64 \<le> 2 ^ 32"
    using map_okD(3) [OF assms(1)] by (auto elim!: dvdE)
  then have "unat (real_map_size afl) + k < 2 ^ 32"
    using map_okD(4) [OF assms(1)] assms(2) by (simp add: word_le_nat_alt)
  then show ?thesis using assms(2) by (simp add: unat_word_ariths unat_of_nat take_bit_nat_eq_self)
qed

lemma words_64:
  assumes "map_ok afl"
  shows "8 * unat (drop_bit 3 (real_map_size afl + 7)) = covered 8 afl"
    "8 * unat (drop_bit 3 (map_size afl)) = unat (map_size afl)"
proof -
  have "8 dvd unat (map_size afl)" using map_okD(3) [OF assms] by (rule dvd_trans [rotated]) simp
  then show "8 * unat (drop_bit 3 (map_size afl)) = unat (map_size afl)" by (simp add: unat_drop_bit)
qed (use unat_size_plus [OF assms, of 7] in \<open>simp add: unat_drop_bit covered_def\<close>)

lemma words_32:
  assumes "map_ok afl"
  shows "4 * unat (drop_bit 2 (real_map_size afl + 3)) = covered 4 afl"
    "4 * unat (drop_bit 2 (map_size afl)) = unat (map_size afl)"
proof -
  have "4 dvd unat (map_size afl)" using map_okD(3) [OF assms] by (rule dvd_trans [rotated]) simp
  then show "4 * unat (drop_bit 2 (map_size afl)) = unat (map_size afl)" by (simp add: unat_drop_bit)
qed (use unat_size_plus [OF assms, of 3] in \<open>simp add: unat_drop_bit covered_def\<close>)

definition new_bits_spec :: "nat \<Rightarrow> afl_map \<Rightarrow> virgin_map \<Rightarrow> u8 \<times> afl_map" where
  "new_bits_spec n afl vm =
     (let r = novelty (take n (trace_bits afl)) (take n (virgin_of afl vm));
          v = clear_seen (take n (trace_bits afl)) (take n (virgin_of afl vm)) @ drop n (virgin_of afl vm)
      in (r, (set_virgin vm v afl)\<lparr>bitmap_changed := bitmap_changed afl \<or> r \<noteq> 0 \<and> vm = Virgin_bits\<rparr>))"

lemma has_new_bits_spec:
  assumes "map_ok afl"
  shows "has_new_bits afl vm = new_bits_spec (covered 8 afl) afl vm"
proof -
  have "covered 8 afl \<le> unat (map_size afl)" using assms by (intro size_words) simp_all
  then have "has_new_bits_loop (unat (drop_bit 3 (real_map_size afl + 7))) 0 (trace_bits afl) (virgin_of afl vm) =
    (novelty (take (covered 8 afl) (trace_bits afl)) (take (covered 8 afl) (virgin_of afl vm)),
     clear_seen (take (covered 8 afl) (trace_bits afl)) (take (covered 8 afl) (virgin_of afl vm)) @
     drop (covered 8 afl) (virgin_of afl vm))"
    using scan64.new_loop_spec [of "unat (drop_bit 3 (real_map_size afl + 7))" "trace_bits afl" "virgin_of afl vm" 0]
    by (simp add: words_64 [OF assms] map_okD(1,2) [OF assms] max_def)
  then show ?thesis by (cases vm) (simp_all add: has_new_bits_def new_bits_spec_def Let_def)
qed

lemma has_new_bits_32_spec:
  assumes "map_ok afl"
  shows "has_new_bits_32 afl vm = new_bits_spec (covered 4 afl) afl vm"
proof -
  have "covered 4 afl \<le> unat (map_size afl)" using assms by (intro size_words) simp_all
  then have "has_new_bits_loop_32 (unat (drop_bit 2 (real_map_size afl + 3))) 0 (trace_bits afl) (virgin_of afl vm) =
    (novelty (take (covered 4 afl) (trace_bits afl)) (take (covered 4 afl) (virgin_of afl vm)),
     clear_seen (take (covered 4 afl) (trace_bits afl)) (take (covered 4 afl) (virgin_of afl vm)) @
     drop (covered 4 afl) (virgin_of afl vm))"
    using scan32.new_loop_spec [of "unat (drop_bit 2 (real_map_size afl + 3))" "trace_bits afl" "virgin_of afl vm" 0]
    by (simp add: words_32 [OF assms] map_okD(1,2) [OF assms] max_def)
  then show ?thesis by (cases vm) (simp_all add: has_new_bits_32_def new_bits_spec_def Let_def)
qed

lemma classify_counts_spec:
  assumes "map_ok afl"
  shows "classify_counts afl = afl\<lparr>trace_bits := map count_class (trace_bits afl)\<rparr>"
    "classify_counts_32 afl = afl\<lparr>trace_bits := map count_class (trace_bits afl)\<rparr>"
  using scan64.class_loop_spec [OF map_okD(5) [OF assms], of "unat (drop_bit 3 (map_size afl))" "trace_bits afl"]
    scan32.class_loop_spec [OF map_okD(5) [OF assms], of "unat (drop_bit 2 (map_size afl))" "trace_bits afl"]
    map_okD(1) [OF assms]
  by (simp_all add: classify_counts_def classify_counts_32_def words_64 [OF assms] words_32 [OF assms])

lemma skim_map:
  assumes "map_ok afl"
  shows "skim (count_class_lookup16 afl) (unat (map_size afl)) (virgin_of afl vm) (trace_bits afl) = 0 \<longleftrightarrow>
      novelty (map count_class (trace_bits afl)) (virgin_of afl vm) = 0"
    "skim_32 (count_class_lookup16 afl) (unat (map_size afl)) (virgin_of afl vm) (trace_bits afl) = 0 \<longleftrightarrow>
      novelty (map count_class (trace_bits afl)) (virgin_of afl vm) = 0"
proof -
  obtain k where k: "unat (map_size afl) = 64 * k" using map_okD(3) [OF assms] by (auto elim: dvdE)
  show "skim (count_class_lookup16 afl) (unat (map_size afl)) (virgin_of afl vm) (trace_bits afl) = 0 \<longleftrightarrow>
      novelty (map count_class (trace_bits afl)) (virgin_of afl vm) = 0"
    using scan64.skim_spec [OF map_okD(5) [OF assms], of "2 * k" "trace_bits afl" "virgin_of afl vm"]
      map_okD(1,2) [OF assms] by (simp add: k)
  show "skim_32 (count_class_lookup16 afl) (unat (map_size afl)) (virgin_of afl vm) (trace_bits afl) = 0 \<longleftrightarrow>
      novelty (map count_class (trace_bits afl)) (virgin_of afl vm) = 0"
    using scan32.skim_spec [OF map_okD(5) [OF assms], of "4 * k" "trace_bits afl" "virgin_of afl vm"]
      map_okD(1,2) [OF assms] by (simp add: k)
qed

lemma map_ok_classify: "map_ok afl \<Longrightarrow> map_ok (afl\<lparr>trace_bits := map count_class (trace_bits afl)\<rparr>)"
  by (simp add: map_ok_def)

lemma map_ok_new_bits:
  assumes "map_ok afl" "n \<le> unat (map_size afl)"
  shows "map_ok (snd (new_bits_spec n afl vm))"
  using assms by (simp add: map_ok_def new_bits_spec_def Let_def min_def)

lemma new_bits_again:
  assumes "map_ok afl" "n \<le> unat (map_size afl)"
  shows "fst (new_bits_spec n (snd (new_bits_spec n afl vm)) vm) = 0"
  using assms map_okD(1,2) [OF assms(1)] by (simp add: new_bits_spec_def Let_def)

lemma ex_zip_take:
  "n \<le> length xs \<Longrightarrow> n \<le> length ys \<Longrightarrow>
     (\<exists>(x, y) \<in> set (zip (take n xs) (take n ys)). P x y) \<longleftrightarrow> (\<exists>i < n. P (xs ! i) (ys ! i))"
  using ex_zip_less [of "take n xs" n "take n ys" P] by (simp cong: conj_cong)

lemma all_zip_less:
  "length xs = n \<Longrightarrow> length ys = n \<Longrightarrow>
     (\<forall>(x, y) \<in> set (zip xs ys). P x y) \<longleftrightarrow> (\<forall>i < n. P (xs ! i) (ys ! i))"
  by (fastforce simp: set_zip)

lemma novelty_index:
  assumes "n \<le> length cur" "n \<le> length vir"
  shows "novelty (take n cur) (take n vir) =
    (if \<exists>i < n. cur ! i \<noteq> 0 \<and> vir ! i = 0xff then 2
     else if \<exists>i < n. cur ! i AND vir ! i \<noteq> 0 then 1 else 0)"
  unfolding novelty_def ex_zip_take [OF assms] ..

lemma nth_clear_seen:
  "i < length vir \<Longrightarrow> length cur = length vir \<Longrightarrow> n \<le> length vir \<Longrightarrow>
     (clear_seen (take n cur) (take n vir) @ drop n vir) ! i =
       (if i < n then vir ! i AND NOT (cur ! i) else vir ! i)"
  by (auto simp: clear_seen_def nth_append)

section \<open>Properties\<close>

definition sample_map :: afl_map where
  "sample_map = \<lparr>map_size = 64, real_map_size = 62, trace_bits = [3, 0, 9] @ replicate 61 0,
     virgin_bits = [0xfb] @ replicate 63 0xff, virgin_tmout = replicate 64 0xff,
     virgin_crash = replicate 64 0xff, bitmap_changed = False,
     count_class_lookup16 = init_rows [0..<256] (replicate 65536 0)\<rparr>"

lemma map_ok_sample: "map_ok sample_map"
proof -
  have "\<exists>tab0 :: u16 list. length tab0 = 65536 \<and>
      init_rows [0..<256] (replicate 65536 0) = init_rows [0..<256] tab0"
    by (intro exI [of _ "replicate 65536 0"] conjI length_replicate refl)
  moreover have "length (virgin_of sample_map vm) = 64" for vm by (cases vm) (simp_all add: sample_map_def)
  ultimately show ?thesis by (simp add: map_ok_def) (simp add: sample_map_def)
qed

text \<open>
  C7: \<open>has_new_bits\<close> compares the trace with a virgin map.  On a map that is set up, its result is 2
  when the trace hits a byte that no earlier trace hit, otherwise 1 when it shows a new bucket of a
  byte, otherwise 0, over the bytes of the target's map rounded up to words.  It clears exactly the
  bits of the trace in that virgin map, leaves the other maps and the trace alone, records a change
  of the main map, and a second call returns 0.
\<close>

theorem has_new_bits_reports_novelty:
  assumes "map_ok afl"
  shows "let n = covered 8 afl; (r, afl') = has_new_bits afl vm
    in r = (if \<exists>i < n. trace_bits afl ! i \<noteq> 0 \<and> virgin_of afl vm ! i = 0xff then 2
            else if \<exists>i < n. trace_bits afl ! i AND virgin_of afl vm ! i \<noteq> 0 then 1 else 0) \<and>
       (\<forall>vm'. \<forall>i < unat (map_size afl). virgin_of afl' vm' ! i =
          (if vm' = vm \<and> i < n then virgin_of afl vm ! i AND NOT (trace_bits afl ! i)
           else virgin_of afl vm' ! i)) \<and>
       trace_bits afl' = trace_bits afl \<and>
       bitmap_changed afl' = (bitmap_changed afl \<or> r \<noteq> 0 \<and> vm = Virgin_bits) \<and>
       fst (has_new_bits afl' vm) = 0 \<and> map_ok afl' \<and>
       unat (real_map_size afl) \<le> n \<and> n \<le> unat (map_size afl)"
proof -
  define n where "n = covered 8 afl"
  obtain r afl' where res: "has_new_bits afl vm = (r, afl')" by (cases "has_new_bits afl vm") simp
  have n: "unat (real_map_size afl) \<le> n" "n \<le> unat (map_size afl)"
    unfolding n_def using assms by (auto intro: size_words)
  note len = map_okD(1,2) [OF assms]
  have spec: "new_bits_spec n afl vm = (r, afl')" using has_new_bits_spec [OF assms, of vm] by (simp add: n_def res)
  then have afl': "afl' = snd (new_bits_spec n afl vm)" and r: "r = fst (new_bits_spec n afl vm)" by simp_all
  have ok: "map_ok afl'" unfolding afl' by (rule map_ok_new_bits [OF assms n(2)])
  have "covered 8 afl' = n" by (simp add: afl' n_def covered_def new_bits_spec_def Let_def)
  then have again: "fst (has_new_bits afl' vm) = 0"
    using has_new_bits_spec [OF ok, of vm] new_bits_again [OF assms n(2), of vm] by (simp add: afl')
  have result: "r = (if \<exists>i < n. trace_bits afl ! i \<noteq> 0 \<and> virgin_of afl vm ! i = 0xff then 2
       else if \<exists>i < n. trace_bits afl ! i AND virgin_of afl vm ! i \<noteq> 0 then 1 else 0)"
    using novelty_index [of n "trace_bits afl" "virgin_of afl vm"] n len
    by (simp add: r new_bits_spec_def Let_def)
  have virgin: "\<forall>vm'. \<forall>i < unat (map_size afl). virgin_of afl' vm' ! i =
      (if vm' = vm \<and> i < n then virgin_of afl vm ! i AND NOT (trace_bits afl ! i) else virgin_of afl vm' ! i)"
    using nth_clear_seen [of _ "virgin_of afl vm" "trace_bits afl" n] n len
    by (simp add: afl' new_bits_spec_def Let_def)
  have "trace_bits afl' = trace_bits afl"
    "bitmap_changed afl' = (bitmap_changed afl \<or> r \<noteq> 0 \<and> vm = Virgin_bits)"
    by (simp_all add: afl' r new_bits_spec_def Let_def)
  then show ?thesis
    using again result virgin ok n unfolding Let_def res prod.case n_def [symmetric] by blast
qed

theorem has_new_bits_reports_novelty_witness:
  "map_ok sample_map \<and> fst (has_new_bits sample_map Virgin_crash) = 2 \<and>
   fst (has_new_bits (snd (has_new_bits sample_map Virgin_crash)) Virgin_crash) = 0"
proof -
  have n: "covered 8 sample_map = 64" by (simp add: covered_def sample_map_def)
  have "\<exists>i < 64. trace_bits sample_map ! i \<noteq> 0 \<and> virgin_of sample_map Virgin_crash ! i = 0xff"
    by (intro exI [of _ 0]) (simp add: sample_map_def)
  then show ?thesis
    using has_new_bits_reports_novelty [OF map_ok_sample, of Virgin_crash] map_ok_sample
    by (simp add: Let_def n split_beta)
qed

lemma unclassified_agrees:
  assumes "map_ok afl"
  shows "let (r, afl') = has_new_bits (classify_counts afl) vm;
             (r1, afl1) = has_new_bits_unclassified afl vm
    in r1 = r \<and> (\<forall>vm'. virgin_of afl1 vm' = virgin_of afl' vm') \<and>
       bitmap_changed afl1 = bitmap_changed afl' \<and>
       trace_bits afl1 =
         (if \<forall>i < unat (map_size afl). count_class (trace_bits afl ! i) AND virgin_of afl vm ! i = 0
          then trace_bits afl else map count_class (trace_bits afl))"
proof -
  let ?c = "afl\<lparr>trace_bits := map count_class (trace_bits afl)\<rparr>"
  have ok: "map_ok ?c" by (rule map_ok_classify [OF assms])
  note len = map_okD(1,2) [OF assms]
  have cov: "covered 8 ?c = covered 8 afl" by (simp add: covered_def)
  have le: "covered 8 afl \<le> unat (map_size afl)" using assms by (intro size_words) simp_all
  have quiet: "novelty (map count_class (trace_bits afl)) (virgin_of afl vm) = 0 \<longleftrightarrow>
      (\<forall>i < unat (map_size afl). count_class (trace_bits afl ! i) AND virgin_of afl vm ! i = 0)"
    using len by (simp add: novelty_eq_0 all_zip_less [where n = "unat (map_size afl)"] cong: all_cong)
  have small: "novelty (map count_class (take (covered 8 afl) (trace_bits afl))) (take (covered 8 afl) (virgin_of afl vm)) = 0"
    if "novelty (map count_class (trace_bits afl)) (virgin_of afl vm) = 0"
    using that [unfolded quiet] len le by (simp add: novelty_eq_0 all_zip_less [where n = "covered 8 afl"])
  show ?thesis
  proof (cases "novelty (map count_class (trace_bits afl)) (virgin_of afl vm) = 0")
    case True
    then show ?thesis
      using has_new_bits_spec [OF ok, of vm] small [OF True] skim_map(1) [OF assms, of vm] len le quiet
        clear_seen_idle [OF _ small [OF True]]
      by (simp add: classify_counts_spec [OF assms] has_new_bits_unclassified_def new_bits_spec_def
          cov take_map split_beta)
  next
    case False
    then have eq: "has_new_bits_unclassified afl vm = has_new_bits (classify_counts afl) vm"
      using skim_map(1) [OF assms, of vm] by (simp add: has_new_bits_unclassified_def)
    have loud: "\<not> (\<forall>i < unat (map_size afl). count_class (trace_bits afl ! i) AND virgin_of afl vm ! i = 0)"
      using False quiet by simp
    have "trace_bits (snd (has_new_bits (classify_counts afl) vm)) = map count_class (trace_bits afl)"
      by (simp add: classify_counts_spec [OF assms] has_new_bits_spec [OF ok] new_bits_spec_def Let_def)
    then show ?thesis unfolding eq Let_def split_beta by (simp only: loud if_False simp_thms)
  qed
qed

lemma has_new_bits_quiet:
  assumes "map_ok afl"
  shows "fst (has_new_bits (classify_counts afl) vm) = 0 \<longleftrightarrow>
    (\<forall>i < 8 * ((unat (real_map_size afl) + 7) div 8). count_class (trace_bits afl ! i) AND virgin_of afl vm ! i = 0)"
proof -
  have cov: "8 * ((unat (real_map_size afl) + 7) div 8) = covered 8 afl" by (simp add: covered_def)
  let ?c = "afl\<lparr>trace_bits := map count_class (trace_bits afl)\<rparr>"
  have "covered 8 ?c = covered 8 afl" by (simp add: covered_def)
  moreover have "covered 8 afl \<le> unat (map_size afl)" using assms by (intro size_words) simp_all
  ultimately show ?thesis
    using map_okD(1,2) [OF assms] unfolding cov
    by (simp add: classify_counts_spec [OF assms] has_new_bits_spec [OF map_ok_classify [OF assms]] new_bits_spec_def Let_def
        take_map novelty_eq_0 all_zip_less [where n = "covered 8 afl"])
qed

text \<open>
  C8: Checking the raw trace agrees with classifying first.  \<open>has_new_bits_unclassified\<close> skims the
  unclassified trace; its result and every virgin map are those of \<open>has_new_bits\<close> on the
  classified trace.  The trace stays as it was when no bucket of the whole map is new, and
  otherwise holds the bucket of every byte.  The result is 0 when no bucket of the part of the map
  that \<open>has_new_bits\<close> compares is new; that part ends at the first multiple of 8 after
  \<^verbatim>\<open>real_map_size\<close>, so with a new bucket only behind it the result is 0 and the trace is classified.
\<close>

theorem has_new_bits_unclassified_agrees:
  assumes "map_ok afl"
  shows "let (r, afl') = has_new_bits (classify_counts afl) vm;
             (r1, afl1) = has_new_bits_unclassified afl vm
    in r1 = r \<and> (\<forall>vm'. virgin_of afl1 vm' = virgin_of afl' vm') \<and>
       bitmap_changed afl1 = bitmap_changed afl' \<and>
       (r1 = 0 \<longleftrightarrow> (\<forall>i < 8 * ((unat (real_map_size afl) + 7) div 8).
          count_class (trace_bits afl ! i) AND virgin_of afl vm ! i = 0)) \<and>
       trace_bits afl1 =
         (if \<forall>i < unat (map_size afl). count_class (trace_bits afl ! i) AND virgin_of afl vm ! i = 0
          then trace_bits afl else map count_class (trace_bits afl))"
  using unclassified_agrees [OF assms, of vm] has_new_bits_quiet [OF assms, of vm]
  unfolding Let_def split_beta by (elim conjE) (simp only: simp_thms)

theorem has_new_bits_unclassified_agrees_witness:
  "map_ok sample_map \<and> fst (has_new_bits_unclassified sample_map Virgin_bits) =
     fst (has_new_bits (classify_counts sample_map) Virgin_bits)"
  using has_new_bits_unclassified_agrees [OF map_ok_sample, of Virgin_bits] map_ok_sample
  by (simp add: Let_def split_beta)

text \<open>
  C9: On a map whose \<^verbatim>\<open>real_map_size\<close> is a multiple of 8 the 32-bit and the 64-bit build compute the
  same.  Classification and simplification give the same bytes, each byte of a classified trace is
  the documented bucket of its hit count, and both checks return the same result and state.  For
  other sizes the two builds compare different parts of the map: with a size of 60 the 32-bit build
  stops after 60 bytes and the 64-bit build after 64.
\<close>

theorem word_sizes_agree:
  assumes "map_ok afl" "8 dvd unat (real_map_size afl)"
  shows "classify_counts_32 afl = classify_counts afl \<and>
    map unat (trace_bits (classify_counts afl)) = map (\<lambda>b. hit_bucket (unat b)) (trace_bits afl) \<and>
    simplify_trace_32 afl (trace_bits afl) = simplify_trace afl (trace_bits afl) \<and>
    simplify_trace afl (trace_bits afl) = map (\<lambda>b. if b = 0 then 1 else 128) (trace_bits afl) \<and>
    has_new_bits_32 afl vm = has_new_bits afl vm \<and>
    has_new_bits_unclassified_32 afl vm = has_new_bits_unclassified afl vm"
proof -
  note len = map_okD(1,2) [OF assms(1)]
  have cov: "covered 4 afl = covered 8 afl"
  proof -
    obtain k where "unat (real_map_size afl) = 8 * k" using assms(2) by (auto elim: dvdE)
    then show ?thesis by (simp add: covered_def div_nat_eqI)
  qed
  have new: "has_new_bits_32 a vm = has_new_bits a vm" if "map_ok a" "covered 4 a = covered 8 a" for a
    using that by (simp add: has_new_bits_spec has_new_bits_32_spec)
  have "simplify_trace_32 afl (trace_bits afl) = map (\<lambda>b. if b = 0 then 1 else 128) (trace_bits afl)"
    "simplify_trace afl (trace_bits afl) = map (\<lambda>b. if b = 0 then 1 else 128) (trace_bits afl)"
    using scan64.simp_loop_spec [of "unat (drop_bit 3 (map_size afl))" "trace_bits afl"]
      scan32.simp_loop_spec [of "unat (drop_bit 2 (map_size afl))" "trace_bits afl"] len(1)
    by (simp_all add: simplify_trace_def simplify_trace_32_def words_64 [OF assms(1)] words_32 [OF assms(1)])
  moreover have "has_new_bits_unclassified_32 afl vm = has_new_bits_unclassified afl vm"
  proof -
    have "covered 4 (classify_counts afl) = covered 8 (classify_counts afl)"
      using cov by (simp add: covered_def classify_counts_spec [OF assms(1)])
    then show ?thesis
      using skim_map [OF assms(1), of vm] new [of "classify_counts afl"] map_ok_classify [OF assms(1)]
      by (simp add: has_new_bits_unclassified_def has_new_bits_unclassified_32_def
          classify_counts_spec [OF assms(1)])
  qed
  ultimately show ?thesis
    using new [OF assms(1) cov] by (simp add: classify_counts_spec [OF assms(1)] unat_count_class)
qed

theorem word_sizes_agree_witness:
  "map_ok (sample_map\<lparr>real_map_size := 64\<rparr>) \<and>
   has_new_bits_32 (sample_map\<lparr>real_map_size := 64\<rparr>) Virgin_bits =
     has_new_bits (sample_map\<lparr>real_map_size := 64\<rparr>) Virgin_bits"
proof -
  let ?m = "sample_map\<lparr>real_map_size := 64\<rparr>"
  have v: "virgin_of ?m vm = virgin_of sample_map vm" for vm by (cases vm) simp_all
  have ok: "map_ok ?m"
    using map_ok_sample unfolding map_ok_def v by (simp add: sample_map_def)
  moreover have "8 dvd unat (real_map_size ?m)" by simp
  ultimately show ?thesis using word_sizes_agree [of ?m Virgin_bits] by simp
qed

end
