(* ===== verification/AFL_Count.thy ===== *)
theory AFL_Count
  imports AFL_Coverage
begin

unbundle bit_operations_syntax

text \<open>
  The counters of \<^verbatim>\<open>afl-fuzz-bitmap.c\<close>: the word-parallel bit count of \<^verbatim>\<open>count_bits\<close> adds the bits
  of every byte, and the masked tests of \<^verbatim>\<open>count_bytes\<close> and \<^verbatim>\<open>count_non_255_bytes\<close> look at
  every byte once.
\<close>

section \<open>Arithmetic on packed bytes\<close>

fun packed :: "u8 list \<Rightarrow> nat" where
  "packed [] = 0"
| "packed (b # bs) = unat b + 256 * packed bs"

lemma rd_word_packed: "(rd_word bs :: u32) = of_nat (packed bs)"
proof (induction bs)
  case (Cons b bs)
  have "(ucast b OR push_bit 8 (rd_word bs) :: u32) = ucast b + push_bit 8 (rd_word bs)"
    by (rule disjunctive_add [symmetric]) (auto simp: bit_ucast_iff bit_push_bit_iff)
  then show ?case by (simp add: Cons.IH push_bit_eq_mult)
qed simp

lemma packed_map_add:
  assumes "\<forall>b. unat (f b) + unat (g b) < 256"
  shows "(rd_word (map f xs) + rd_word (map g xs) :: u32) = rd_word (map (\<lambda>b. f b + g b) xs)"
proof -
  have "packed (map (\<lambda>b. f b + g b) xs) = packed (map f xs) + packed (map g xs)"
  proof (induction xs)
    case (Cons b xs)
    have "unat (f b + g b) = unat (f b) + unat (g b)" using assms by (simp add: unat_word_ariths)
    then show ?case using Cons by simp
  qed simp
  then show ?thesis by (simp add: rd_word_packed)
qed

lemma packed_map_diff:
  assumes "\<forall>b. g b \<le> f b"
  shows "(rd_word (map f xs) - rd_word (map g xs) :: u32) = rd_word (map (\<lambda>b. f b - g b) xs)"
proof -
  have "packed (map f xs) = packed (map (\<lambda>b. f b - g b) xs) + packed (map g xs)"
  proof (induction xs)
    case (Cons b xs)
    have "unat (f b) = unat (f b - g b) + unat (g b)" using assms by (simp add: unat_sub word_le_nat_alt)
    then show ?case using Cons by simp
  qed simp
  then show ?thesis by (simp add: rd_word_packed)
qed

lemma bit_rd_word_32:
  "bit (rd_word bs :: u32) i \<longleftrightarrow> i < 32 \<and> i div 8 < length bs \<and> bit (bs ! (i div 8)) (i mod 8)"
  by (simp add: bit_rd_word)

lemma packed_shift_mask:
  assumes "\<forall>k < 8. bit m k \<longrightarrow> k + s < 8"
  shows "(drop_bit s (rd_word xs) AND rd_word (replicate (length xs) m) :: u32) =
    rd_word (map (\<lambda>b. drop_bit s b AND m) xs)"
proof (rule bit_word_eqI)
  fix i assume "i < LENGTH(32)"
  show "bit (drop_bit s (rd_word xs) AND rd_word (replicate (length xs) m) :: u32) i =
      bit (rd_word (map (\<lambda>b. drop_bit s b AND m) xs) :: u32) i"
  proof (cases "i div 8 < length xs \<and> bit m (i mod 8)")
    case True
    then have "i mod 8 + s < 8" using assms by simp
    moreover have "i + s = (i mod 8 + s) + 8 * (i div 8)" by simp
    ultimately have "(i + s) div 8 = i div 8" "(i + s) mod 8 = i mod 8 + s"
      by (metis add.right_neutral add_0 div_less div_mult_self2 zero_neq_numeral,
          metis mod_less mod_mult_self2)
    moreover from this(1) have "i + s < 32 \<longleftrightarrow> i < 32"
      by (simp flip: div_less_iff_less_mult [of 8 _ 4, simplified])
    ultimately show ?thesis using True
      by (simp add: bit_and_iff bit_drop_bit_eq bit_rd_word_32 add.commute [of s]) blast
  next
    case False
    then show ?thesis
      by (cases "i div 8 < length xs") (simp_all add: bit_and_iff bit_rd_word_32)
  qed
qed

section \<open>Counting bits\<close>

definition bits8 :: "u8 \<Rightarrow> nat" where
  "bits8 b = length (filter (bit b) [0..<8])"

text \<open>The three steps of the bit count on one byte.\<close>

definition pairs8 :: "u8 \<Rightarrow> u8" where
  "pairs8 b = b - (drop_bit 1 b AND 0x55)"

definition nibbles8 :: "u8 \<Rightarrow> u8" where
  "nibbles8 b = (pairs8 b AND 0x33) + (drop_bit 2 (pairs8 b) AND 0x33)"

lemma byte_steps:
  "drop_bit 1 b AND 0x55 \<le> b"
  "unat (pairs8 b AND 0x33) + unat (drop_bit 2 (pairs8 b) AND 0x33) < 256"
  "unat (nibbles8 b) mod 16 \<le> 4" "unat (nibbles8 b) div 16 \<le> 4"
  "unat (nibbles8 b) mod 16 + unat (nibbles8 b) div 16 = bits8 b"
proof -
  have all: "list_all (\<lambda>n. let b = word_of_nat n :: u8 in
      drop_bit 1 b AND 0x55 \<le> b \<and>
      unat (pairs8 b AND 0x33) + unat (drop_bit 2 (pairs8 b) AND 0x33) < 256 \<and>
      unat (nibbles8 b) mod 16 \<le> 4 \<and> unat (nibbles8 b) div 16 \<le> 4 \<and>
      unat (nibbles8 b) mod 16 + unat (nibbles8 b) div 16 = bits8 b) [0..<256]"
    by code_simp
  have mem: "unat b \<in> set [0..<256]" by simp
  show "drop_bit 1 b AND 0x55 \<le> b"
    "unat (pairs8 b AND 0x33) + unat (drop_bit 2 (pairs8 b) AND 0x33) < 256"
    "unat (nibbles8 b) mod 16 \<le> 4" "unat (nibbles8 b) div 16 \<le> 4"
    "unat (nibbles8 b) mod 16 + unat (nibbles8 b) div 16 = bits8 b"
    using bspec [OF all [unfolded list_all_iff] mem] unfolding Let_def of_nat_unat ucast_id by blast+
qed

lemma all_less_8: "(\<forall>k < 8. P k) \<longleftrightarrow> P 0 \<and> P 1 \<and> P 2 \<and> P 3 \<and> P 4 \<and> P 5 \<and> P 6 \<and> P (7 :: nat)"
  using ex_less_8 [of "\<lambda>k. \<not> P k"] by blast

lemma nibbles_packed:
  assumes "length xs = 4"
  shows "(let v = rd_word xs - (drop_bit 1 (rd_word xs) AND 0x55555555)
          in (v AND 0x33333333) + (drop_bit 2 v AND 0x33333333)) = (rd_word (map nibbles8 xs) :: u32)"
proof -
  have m5: "(0x55555555 :: u32) = rd_word (replicate (length xs) 0x55)"
    and m3: "(0x33333333 :: u32) = rd_word (replicate (length (map pairs8 xs)) 0x33)"
    unfolding assms length_map by code_simp+
  have b5: "\<forall>k < 8. bit (0x55 :: u8) k \<longrightarrow> k + 1 < 8" and b3: "\<forall>k < 8. bit (0x33 :: u8) k \<longrightarrow> k + 2 < 8"
    and b3': "\<forall>k < 8. bit (0x33 :: u8) k \<longrightarrow> k + 0 < 8"
    unfolding all_less_8 by simp_all
  have v1: "rd_word xs - (drop_bit 1 (rd_word xs) AND 0x55555555) = (rd_word (map pairs8 xs) :: u32)"
    unfolding m5 packed_shift_mask [OF b5] pairs8_def
    using packed_map_diff [where f = "\<lambda>b. b" and xs = xs, OF allI [OF byte_steps(1)]]
    by (simp only: list.map_ident)
  have v2: "(rd_word (map pairs8 xs) AND 0x33333333) + (drop_bit 2 (rd_word (map pairs8 xs)) AND 0x33333333) =
      (rd_word (map nibbles8 xs) :: u32)"
    unfolding m3 packed_shift_mask [OF b3] packed_shift_mask [OF b3', unfolded drop_bit_0 id_apply]
      map_map comp_def nibbles8_def
    by (rule packed_map_add [OF allI [OF byte_steps(2)]])
  show ?thesis unfolding Let_def v1 by (rule v2)
qed

lemma and_15: "x < 16 \<Longrightarrow> (of_nat (x + 16 * y) AND 0x0f :: u8) = of_nat x"
proof -
  assume "x < 16"
  have "(0x0f :: u8) = mask 4" by code_simp
  then have "(of_nat (x + 16 * y) AND 0x0f :: u8) = take_bit 4 (of_nat (x + 16 * y))"
    by (simp only: take_bit_eq_mask)
  also have "\<dots> = of_nat x"
  proof (rule word_unat_eq_iff [THEN iffD2])
    have "take_bit 4 (x + 16 * y) = x" using \<open>x < 16\<close> by (simp add: take_bit_eq_mod)
    moreover have "unat (of_nat x :: u8) = x" using \<open>x < 16\<close> by (intro unat_of_nat_small) simp
    ultimately show "unat (take_bit 4 (of_nat (x + 16 * y)) :: u8) = unat (of_nat x :: u8)"
      unfolding unsigned_take_bit_eq unat_of_nat [of "x + 16 * y"]
      by (simp add: take_bit_eq_mod mod_mod_cancel)
  qed
  finally show ?thesis .
qed

lemma sum_of_bytes:
  assumes "x0 + x1 + x2 + x3 \<le> (32 :: nat)"
  shows "unat (drop_bit 24 (of_nat (x0 + 256 * (x1 + 256 * (x2 + 256 * x3))) * 0x01010101 :: u32)) =
    x0 + x1 + x2 + x3"
proof -
  let ?v = "x0 + 256 * (x1 + 256 * (x2 + 256 * x3))"
  let ?low = "16777216 * (x0 + x1 + x2 + x3) + (65536 * (x0 + x1 + x2) + 256 * (x0 + x1) + x0)"
  have rest: "65536 * (x0 + x1 + x2) + 256 * (x0 + x1) + x0 < 16777216"
  proof -
    have "65536 * (x0 + x1 + x2) \<le> 65536 * 32" "256 * (x0 + x1) \<le> 256 * 32" "x0 \<le> 32"
      using assms by simp_all
    then show ?thesis by linarith
  qed
  have "(of_nat ?v * 0x01010101 :: u32) = of_nat (?v * 0x01010101)" by simp
  then have "unat (of_nat ?v * 0x01010101 :: u32) = ?v * 0x01010101 mod 4294967296"
    by (simp only: unat_of_nat) (simp add: take_bit_eq_mod)
  also have "?v * 0x01010101 = ?low + 4294967296 * (x1 + x2 + x3 + 256 * (x2 + x3) + 65536 * x3)"
    by simp
  also have "\<dots> mod 4294967296 = ?low mod 4294967296" by (rule mod_mult_self2)
  also have "\<dots> = ?low" using rest mult_le_mono2 [OF assms, of 16777216]
    by (intro mod_less) linarith
  finally have "unat (of_nat ?v * 0x01010101 :: u32) = ?low" .
  then show ?thesis unfolding unat_drop_bit using rest by simp
qed

lemma nibble_sum:
  assumes "n0 = 16 * h0 + l0" "n1 = 16 * h1 + l1" "n2 = 16 * h2 + l2" "n3 = 16 * h3 + l3" "l0 < (16 :: nat)"
  shows "n0 + 256 * (n1 + 256 * (n2 + 256 * n3)) + (n0 + 256 * (n1 + 256 * (n2 + 256 * n3))) div 16 =
    (l0 + h0 + 16 * (h0 + l1)) + 256 * ((l1 + h1 + 16 * (h1 + l2)) +
      256 * ((l2 + h2 + 16 * (h2 + l3)) + 256 * (l3 + h3 + 16 * h3)))"
proof -
  let ?q = "h0 + 16 * l1 + 256 * (h1 + 16 * l2 + 256 * (h2 + 16 * l3 + 256 * h3))"
  have v: "n0 + 256 * (n1 + 256 * (n2 + 256 * n3)) = l0 + 16 * ?q" by (simp add: assms)
  have "(l0 + 16 * ?q) div 16 = ?q" using assms(5) by (simp only: div_mult_self2)
  then show ?thesis unfolding v by simp
qed

lemma packed_less: "packed bs < 256 ^ length bs"
proof (induction bs)
  case (Cons b bs)
  have "256 * Suc (packed bs) \<le> 256 * 256 ^ length bs" using Cons by (intro mult_le_mono2) simp
  moreover have "unat b < 256" by simp
  ultimately show ?case
    unfolding packed.simps list.size power_Suc add_Suc_right add_0_right mult_Suc_right by linarith
qed simp

lemma drop_bit_4_of_nat:
  assumes "n < 2 ^ 32"
  shows "drop_bit 4 (of_nat n :: u32) = of_nat (n div 16)"
proof (rule word_unat_eq_iff [THEN iffD2])
  have "n div 16 < 2 ^ 32" using assms by (rule order.strict_trans1 [OF div_le_dividend])
  then have "unat (of_nat (n div 16) :: u32) = n div 16" by (intro unat_of_nat_small) simp
  moreover have "unat (of_nat n :: u32) = n" using assms by (intro unat_of_nat_small) simp
  ultimately show "unat (drop_bit 4 (of_nat n :: u32)) = unat (of_nat (n div 16) :: u32)"
    by (simp add: unat_drop_bit)
qed

lemma count_bits_word_bytes:
  assumes "length xs = 4"
  shows "count_bits_word (rd_word xs) = of_nat (sum_list (map bits8 xs))"
proof -
  obtain a b c d where xs: "xs = [a, b, c, d]" using assms by (rule length_4_cases)
  let ?l = "\<lambda>x. unat (nibbles8 x) mod 16" and ?h = "\<lambda>x. unat (nibbles8 x) div 16"
  let ?V = "packed (map nibbles8 xs)"
  let ?ss = "[?l a + ?h a + 16 * (?h a + ?l b), ?l b + ?h b + 16 * (?h b + ?l c),
              ?l c + ?h c + 16 * (?h c + ?l d), ?l d + ?h d + 16 * ?h d]"
  note small = byte_steps(3,4)
  have m: "(0xF0F0F0F :: u32) = rd_word (replicate (length (map word_of_nat ?ss :: u8 list)) 0x0f)"
    by (simp only: length_map list.size) code_simp
  have b0: "\<forall>k < 8. bit (0x0f :: u8) k \<longrightarrow> k + 0 < 8" unfolding all_less_8 by simp
  have V: "?V < 2 ^ 32" using packed_less [of "map nibbles8 xs"] by (simp add: xs)
  have "unat (word_of_nat (?l x + ?h x + 16 * (?h x + ?l y)) :: u8) = ?l x + ?h x + 16 * (?h x + ?l y)"
    "unat (word_of_nat (?l x + ?h x + 16 * ?h x) :: u8) = ?l x + ?h x + 16 * ?h x" for x y
  proof -
    have "?l x + ?h x + 16 * (?h x + ?l y) \<le> 4 + 4 + 16 * (4 + 4)" "?l x + ?h x + 16 * ?h x \<le> 4 + 4 + 16 * 4"
      using small [of x] small [of y] by (intro add_le_mono mult_le_mono; simp)+
    then show "unat (word_of_nat (?l x + ?h x + 16 * (?h x + ?l y)) :: u8) = ?l x + ?h x + 16 * (?h x + ?l y)"
      "unat (word_of_nat (?l x + ?h x + 16 * ?h x) :: u8) = ?l x + ?h x + 16 * ?h x"
      by (intro unat_of_nat_small; simp)+
  qed
  then have "packed (map word_of_nat ?ss) = ?V + ?V div 16"
    using nibble_sum [of "unat (nibbles8 a)" "?h a" "?l a" "unat (nibbles8 b)" "?h b" "?l b"
        "unat (nibbles8 c)" "?h c" "?l c" "unat (nibbles8 d)" "?h d" "?l d"]
    by (simp only: xs list.map packed.simps mult_div_mod_eq) simp
  then have sum: "(rd_word (map nibbles8 xs) + drop_bit 4 (rd_word (map nibbles8 xs)) :: u32) =
      rd_word (map word_of_nat ?ss)"
    by (simp only: rd_word_packed drop_bit_4_of_nat [OF V] of_nat_add)
  have low: "map (\<lambda>b. drop_bit 0 b AND 0x0f) (map word_of_nat ?ss) = (map (\<lambda>x. word_of_nat (bits8 x)) xs :: u8 list)"
  proof -
    have "(word_of_nat (?l x + ?h x + 16 * y) AND 0x0f :: u8) = word_of_nat (bits8 x)" for x y
    proof -
      have "?l x + ?h x < 16" using small [of x] by linarith
      then show ?thesis by (simp only: and_15 byte_steps(5))
    qed
    then show ?thesis by (simp only: xs list.map drop_bit_0 id_apply)
  qed
  have bits: "bits8 x \<le> 8" "unat (word_of_nat (bits8 x) :: u8) = bits8 x" for x
  proof -
    show "bits8 x \<le> 8" using small [of x] byte_steps(5) [of x] by linarith
    then show "unat (word_of_nat (bits8 x) :: u8) = bits8 x" by (intro unat_of_nat_small) simp
  qed
  have "count_bits_word (rd_word xs) =
      drop_bit 24 (rd_word (map (\<lambda>x. word_of_nat (bits8 x)) xs :: u8 list) * 0x01010101)"
    using nibbles_packed [OF assms] unfolding count_bits_word_def Let_def
    by (simp only: sum m packed_shift_mask [OF b0, unfolded drop_bit_0 id_apply]
        low [unfolded drop_bit_0 id_apply])
  also have "\<dots> = of_nat (sum_list (map bits8 xs))"
  proof (rule word_unat_eq_iff [THEN iffD2])
    have le: "bits8 a + bits8 b + bits8 c + bits8 d \<le> 32"
      using bits(1) [of a] bits(1) [of b] bits(1) [of c] bits(1) [of d] by linarith
    then have "unat (of_nat (bits8 a + bits8 b + bits8 c + bits8 d) :: u32) = bits8 a + bits8 b + bits8 c + bits8 d"
      by (intro unat_of_nat_small) simp
    then show "unat (drop_bit 24 (rd_word (map (\<lambda>x. word_of_nat (bits8 x)) xs :: u8 list) * 0x01010101 :: u32)) =
        unat (of_nat (sum_list (map bits8 xs)) :: u32)"
      using sum_of_bytes [OF le] by (simp add: xs rd_word_packed bits add.assoc)
  qed
  finally show ?thesis .
qed

lemma count_bits_loop_spec:
  "4 * i \<le> length ptr \<Longrightarrow>
     count_bits_loop i ptr ret = ret + of_nat (sum_list (map bits8 (take (4 * i) ptr)))"
proof (induction i arbitrary: ptr ret)
  case (Suc i)
  have all: "count_bits_word 0xffffffff = 32" by code_simp
  have "count_bits_loop (Suc i) ptr ret =
      count_bits_loop i (drop 4 ptr) (ret + count_bits_word (rd_word (take 4 ptr)))"
    by (simp add: Let_def all)
  then show ?case using Suc by (simp add: count_bits_word_bytes take_add)
qed simp

section \<open>Counting bytes\<close>

lemma mask_byte:
  assumes "length c = 4" "k < 4"
  shows "(rd_word c AND push_bit (8 * k) 0xff :: u32) = push_bit (8 * k) (ucast (c ! k))"
proof (rule bit_word_eqI)
  fix i assume "i < LENGTH(32)"
  have ff: "(0xff :: u32) = mask 8" by (simp add: mask_eq_exp_minus_1)
  show "bit (rd_word c AND push_bit (8 * k) 0xff :: u32) i = bit (push_bit (8 * k) (ucast (c ! k)) :: u32) i"
  proof (cases "8 * k \<le> i \<and> i < 8 * k + 8")
    case True
    then have "i div 8 = k" "i mod 8 = i - 8 * k" by (auto simp: div_nat_eqI minus_div_mult_eq_mod [symmetric])
    moreover have "i - 8 * k < 8" using True by linarith
    ultimately show ?thesis using True assms \<open>i < LENGTH(32)\<close>
      by (simp add: ff bit_and_iff bit_rd_word_32 bit_push_bit_iff bit_ucast_iff bit_mask_iff)
  next
    case False
    then show ?thesis
      by (auto simp: ff bit_and_iff bit_push_bit_iff bit_ucast_iff bit_mask_iff)
  qed
qed

lemma push_byte_eq:
  assumes "k < 4"
  shows "(push_bit (8 * k) (ucast x) :: u32) = push_bit (8 * k) (ucast y) \<longleftrightarrow> x = (y :: u8)"
proof -
  have "(ucast (drop_bit (8 * k) (push_bit (8 * k) (ucast x) :: u32)) :: u8) = x" for x :: u8
    by (rule bit_word_eqI) (use assms in \<open>auto simp: bit_ucast_iff bit_drop_bit_eq bit_push_bit_iff\<close>)
  then show ?thesis by metis
qed

lemma byte_tests:
  assumes "length c = 4"
  shows "(rd_word c AND 0x000000ff = (0 :: u32)) = (c ! 0 = 0)" "(rd_word c AND 0x0000ff00 = (0 :: u32)) = (c ! 1 = 0)"
    "(rd_word c AND 0x00ff0000 = (0 :: u32)) = (c ! 2 = 0)" "(rd_word c AND 0xff000000 = (0 :: u32)) = (c ! 3 = 0)"
    "(rd_word c AND 0x000000ff = (0x000000ff :: u32)) = (c ! 0 = 0xff)"
    "(rd_word c AND 0x0000ff00 = (0x0000ff00 :: u32)) = (c ! 1 = 0xff)"
    "(rd_word c AND 0x00ff0000 = (0x00ff0000 :: u32)) = (c ! 2 = 0xff)"
    "(rd_word c AND 0xff000000 = (0xff000000 :: u32)) = (c ! 3 = 0xff)"
  using mask_byte [OF assms, of 0] mask_byte [OF assms, of 1] mask_byte [OF assms, of 2] mask_byte [OF assms, of 3]
    push_byte_eq [of 0 _ 0] push_byte_eq [of 1 _ 0] push_byte_eq [of 2 _ 0] push_byte_eq [of 3 _ 0]
    push_byte_eq [of 0 _ "0xff"] push_byte_eq [of 1 _ "0xff"] push_byte_eq [of 2 _ "0xff"] push_byte_eq [of 3 _ "0xff"]
  by simp_all

lemma sum_filter_4:
  assumes "length c = 4"
  shows "(of_nat (length (filter P c)) :: u32) =
    (if P (c ! 0) then 1 else 0) + (if P (c ! 1) then 1 else 0) +
    (if P (c ! 2) then 1 else 0) + (if P (c ! 3) then 1 else 0)"
proof -
  obtain x0 x1 x2 x3 where "c = [x0, x1, x2, x3]" using assms by (rule length_4_cases)
  then show ?thesis by simp
qed

lemma count_bytes_loop_spec:
  "4 * i \<le> length ptr \<Longrightarrow>
     count_bytes_loop i ptr ret = ret + of_nat (length (filter (\<lambda>b. b \<noteq> 0) (take (4 * i) ptr)))"
proof (induction i arbitrary: ptr ret)
  case (Suc i)
  let ?c = "take 4 ptr"
  have len: "length ?c = 4" using Suc.prems by simp
  have zero: "rd_word ?c = (0 :: u32) \<Longrightarrow> filter (\<lambda>b. b \<noteq> 0) ?c = []"
    using rd_word_eq_0 [of ?c, where ?'a = 32] len by (simp add: filter_empty_conv)
  have "count_bytes_loop (Suc i) ptr ret =
      count_bytes_loop i (drop 4 ptr) (ret + of_nat (length (filter (\<lambda>b. b \<noteq> 0) ?c)))"
  proof (cases "rd_word ?c = (0 :: u32)")
    case False
    then show ?thesis
      by (simp only: count_bytes_loop.simps Let_def byte_tests [OF len] sum_filter_4 [OF len] if_False)
         (simp add: algebra_simps)
  qed (simp add: zero)
  then show ?case using Suc by (simp add: take_add)
qed simp

lemma count_non_255_loop_spec:
  "4 * i \<le> length ptr \<Longrightarrow>
     count_non_255_loop i ptr ret = ret + of_nat (length (filter (\<lambda>b. b \<noteq> 0xff) (take (4 * i) ptr)))"
proof (induction i arbitrary: ptr ret)
  case (Suc i)
  let ?c = "take 4 ptr"
  have len: "length ?c = 4" using Suc.prems by simp
  have ones: "filter (\<lambda>b. b \<noteq> 0xff) ?c = []" if "rd_word ?c = (0xffffffff :: u32)"
  proof -
    have "?c = le_word 4 (rd_word ?c :: u32)" using len by simp
    also have "\<dots> = replicate 4 0xff" unfolding that by code_simp
    finally show ?thesis by (simp only: filter_empty_conv) simp
  qed
  have "count_non_255_loop (Suc i) ptr ret =
      count_non_255_loop i (drop 4 ptr) (ret + of_nat (length (filter (\<lambda>b. b \<noteq> 0xff) ?c)))"
  proof (cases "rd_word ?c = (0xffffffff :: u32)")
    case False
    then show ?thesis
      by (simp only: count_non_255_loop.simps Let_def byte_tests [OF len] sum_filter_4 [OF len] if_False)
         (simp add: algebra_simps)
  next
    case True
    then show ?thesis by (simp only: count_non_255_loop.simps Let_def ones [OF True]) simp
  qed
  then show ?case using Suc by (simp add: take_add)
qed simp

section \<open>Properties\<close>

text \<open>
  C10: The three counters are exact.  On a map that is set up, \<open>count_bits\<close> is the number of set
  bits, \<open>count_bytes\<close> the number of non-zero bytes and \<open>count_non_255_bytes\<close> the number of bytes
  other than 255, over the bytes of the target's map rounded up to 32-bit words, as 32-bit numbers.
\<close>

theorem counters_exact:
  assumes "map_ok afl" "length mem = unat (map_size afl)"
  shows "let m = take (covered 4 afl) mem
    in count_bits afl mem = of_nat (sum_list (map bits8 m)) \<and>
       count_bytes afl mem = of_nat (length (filter (\<lambda>b. b \<noteq> 0) m)) \<and>
       count_non_255_bytes afl mem = of_nat (length (filter (\<lambda>b. b \<noteq> 0xff) m))"
proof -
  have "covered 4 afl \<le> length mem" using size_words(2) [OF assms(1), of 4] assms(2) by simp
  then show ?thesis
    using count_bits_loop_spec [of "unat (drop_bit 2 (real_map_size afl + 3))" mem 0]
      count_bytes_loop_spec [of "unat (drop_bit 2 (real_map_size afl + 3))" mem 0]
      count_non_255_loop_spec [of "unat (drop_bit 2 (real_map_size afl + 3))" mem 0]
    by (simp add: Let_def count_bits_def count_bytes_def count_non_255_bytes_def words_32 [OF assms(1)])
qed

theorem counters_exact_witness:
  "map_ok sample_map \<and> count_bytes sample_map (trace_bits sample_map) = 2"
proof -
  have "length (trace_bits sample_map) = unat (map_size sample_map)" "covered 4 sample_map = 64"
    "take 64 (trace_bits sample_map) = [3, 0, 9] @ replicate 61 0"
    by (simp_all add: sample_map_def covered_def)
  then show ?thesis
    using counters_exact [OF map_ok_sample, of "trace_bits sample_map"] map_ok_sample by (simp add: Let_def)
qed

end
