(* ===== verification/AFL_Text.thy ===== *)
theory AFL_Text
  imports Fuzz_Prelude
begin

unbundle bit_operations_syntax

text \<open>
  The text detection of \<^verbatim>\<open>AFLplusplus/src/afl-fuzz-queue.c\<close>: \<^verbatim>\<open>check_if_text_buf\<close> on a buffer in
  memory and \<^verbatim>\<open>check_if_text\<close> on the file of a queue entry.  Both scan for ASCII bytes and
  well-formed UTF-8 sequences.  A position of the scan is the rest of the buffer, so \<^verbatim>\<open>len - offset\<close>
  is its length; the counters are 32 bits wide.
\<close>

section \<open>Definitions\<close>

definition is_plain :: "u8 \<Rightarrow> bool" where
  "is_plain b \<longleftrightarrow> b = 0x09 \<or> b = 0x0A \<or> b = 0x0D \<or> (0x20 \<le> b \<and> b \<le> 0x7E)"

definition c_isascii :: "u8 \<Rightarrow> bool" where
  "c_isascii b \<longleftrightarrow> b < 0x80"

definition c_isprint :: "u8 \<Rightarrow> bool" where
  "c_isprint b \<longleftrightarrow> 0x20 \<le> b \<and> b \<le> 0x7E"

definition in_range :: "u8 \<Rightarrow> u8 \<Rightarrow> u8 \<Rightarrow> bool" where
  "in_range lo hi b \<longleftrightarrow> lo \<le> b \<and> b \<le> hi"

definition utf8_2 :: "u8 list \<Rightarrow> bool" where
  "utf8_2 buf \<longleftrightarrow> length buf > 1 \<and> in_range 0xC2 0xDF (buf ! 0) \<and> in_range 0x80 0xBF (buf ! 1)"

definition utf8_3 :: "u8 list \<Rightarrow> bool" where
  "utf8_3 buf \<longleftrightarrow> length buf > 2 \<and>
     ((buf ! 0 = 0xE0 \<and> in_range 0xA0 0xBF (buf ! 1) \<and> in_range 0x80 0xBF (buf ! 2)) \<or>
      ((in_range 0xE1 0xEC (buf ! 0) \<or> buf ! 0 = 0xEE \<or> buf ! 0 = 0xEF) \<and>
        in_range 0x80 0xBF (buf ! 1) \<and> in_range 0x80 0xBF (buf ! 2)) \<or>
      (buf ! 0 = 0xED \<and> in_range 0x80 0x9F (buf ! 1) \<and> in_range 0x80 0xBF (buf ! 2)))"

definition utf8_4 :: "u8 list \<Rightarrow> bool" where
  "utf8_4 buf \<longleftrightarrow> length buf > 3 \<and>
     ((buf ! 0 = 0xF0 \<and> in_range 0x90 0xBF (buf ! 1) \<and> in_range 0x80 0xBF (buf ! 2) \<and>
        in_range 0x80 0xBF (buf ! 3)) \<or>
      (in_range 0xF1 0xF3 (buf ! 0) \<and> in_range 0x80 0xBF (buf ! 1) \<and> in_range 0x80 0xBF (buf ! 2) \<and>
        in_range 0x80 0xBF (buf ! 3)) \<or>
      (buf ! 0 = 0xF4 \<and> in_range 0x80 0x8F (buf ! 1) \<and> in_range 0x80 0xBF (buf ! 2) \<and>
        in_range 0x80 0xBF (buf ! 3)))"

function text_scan :: "u8 list \<Rightarrow> u32 \<Rightarrow> u32 \<Rightarrow> u32 \<times> u32" where
  "text_scan [] ascii utf8 = (ascii, utf8)"
| "text_scan (b # bs) ascii utf8 =
     (if is_plain b then text_scan bs (ascii + 1) (utf8 + 1)
      else let ascii = (if c_isascii b \<or> c_isprint b then ascii + 1 else ascii)
           in if utf8_2 (b # bs) then text_scan (drop 1 bs) ascii (utf8 + 1)
              else if utf8_3 (b # bs) then text_scan (drop 2 bs) ascii (utf8 + 1)
              else if utf8_4 (b # bs) then text_scan (drop 3 bs) ascii (utf8 + 1)
              else text_scan bs ascii utf8)"
  by pat_completeness auto
termination by (relation "measure (\<lambda>(bs, _, _). length bs)") auto

definition check_if_text_buf :: "u8 list \<Rightarrow> u8" where
  "check_if_text_buf buf =
     (let (ascii, utf8) = text_scan buf 0 0 in ucast (if utf8 > ascii then utf8 else ascii))"

text \<open>
  \<^verbatim>\<open>check_if_text\<close>: the scan also lowers \<^verbatim>\<open>comp\<close>, a signed 64-bit number of characters.
  \<open>file\<close> is the content of the entry's file, \<open>None\<close> when it cannot be opened.
\<close>

function text_scan_comp :: "u8 list \<Rightarrow> u32 \<Rightarrow> u32 \<Rightarrow> int \<Rightarrow> u32 \<times> u32 \<times> int" where
  "text_scan_comp [] ascii utf8 chars = (ascii, utf8, chars)"
| "text_scan_comp (b # bs) ascii utf8 chars =
     (if is_plain b then text_scan_comp bs (ascii + 1) (utf8 + 1) chars
      else let ascii = (if c_isascii b \<or> c_isprint b then ascii + 1 else ascii)
           in if utf8_2 (b # bs) then text_scan_comp (drop 1 bs) ascii (utf8 + 1) (chars - 1)
              else if utf8_3 (b # bs) then text_scan_comp (drop 2 bs) ascii (utf8 + 1) (chars - 2)
              else if utf8_4 (b # bs) then text_scan_comp (drop 3 bs) ascii (utf8 + 1) (chars - 3)
              else text_scan_comp bs ascii utf8 chars)"
  by pat_completeness auto
termination by (relation "measure (\<lambda>(bs, _, _, _). length bs)") auto

definition check_if_text :: "u32 \<Rightarrow> u8 list option \<Rightarrow> u8" where
  "check_if_text qlen file =
     (if qlen < 12 \<or> qlen < 65535 then 0
      else let len = (if qlen \<ge> 1048576 then 1048576 - 1 else qlen)
           in case file of
                None \<Rightarrow> 0
              | Some content \<Rightarrow>
                  let buf = take (unat len) content; chars = int (length buf)
                  in if chars \<noteq> int (unat len) then 0
                     else let (ascii, utf8, chars) = text_scan_comp buf 0 0 chars;
                              percent_utf8 = (word_of_int (int (unat (utf8 * 100)) div chars) :: u32);
                              percent_ascii = (ascii * 100) div len
                          in if percent_utf8 \<ge> percent_ascii \<and> percent_utf8 \<ge> 99 then 2
                             else if percent_ascii \<ge> 99 then 1 else 0)"

section \<open>What the scan counts\<close>

definition low_bytes :: "u8 list \<Rightarrow> nat" where
  "low_bytes bs = length (filter (\<lambda>b. b < 0x80) bs)"

lemma plain_low: "is_plain b \<Longrightarrow> b < 0x80"
  by (auto simp: is_plain_def word_le_nat_alt word_less_nat_alt)

lemma low_range: "in_range lo hi b \<Longrightarrow> 0x80 \<le> lo \<Longrightarrow> \<not> b < 0x80"
  by (simp add: in_range_def word_le_nat_alt word_less_nat_alt)

lemma length_gtD:
  "length (b # bs) > 1 \<Longrightarrow> \<exists>x xs. bs = x # xs"
  "length (b # bs) > 2 \<Longrightarrow> \<exists>x y xs. bs = x # y # xs"
  "length (b # bs) > 3 \<Longrightarrow> \<exists>x y z xs. bs = x # y # z # xs"
  by (auto simp: neq_Nil_conv Suc_less_eq2 length_Suc_conv
      dest!: Suc_le_length_iff [THEN iffD1, OF Suc_leI] simp: numeral_eq_Suc)

lemma utf8_low:
  "utf8_2 (b # bs) \<Longrightarrow> low_bytes (b # bs) = low_bytes (drop 1 bs) \<and> 1 \<le> length bs"
  "utf8_3 (b # bs) \<Longrightarrow> low_bytes (b # bs) = low_bytes (drop 2 bs) \<and> 2 \<le> length bs"
  "utf8_4 (b # bs) \<Longrightarrow> low_bytes (b # bs) = low_bytes (drop 3 bs) \<and> 3 \<le> length bs"
proof -
  assume u: "utf8_2 (b # bs)"
  then obtain x xs where bs: "bs = x # xs" using length_gtD(1) [of b bs] by (auto simp: utf8_2_def)
  then show "low_bytes (b # bs) = low_bytes (drop 1 bs) \<and> 1 \<le> length bs"
    using u by (auto simp: utf8_2_def low_bytes_def dest: low_range)
next
  assume u: "utf8_3 (b # bs)"
  then obtain x y xs where bs: "bs = x # y # xs" using length_gtD(2) [of b bs] by (auto simp: utf8_3_def)
  then show "low_bytes (b # bs) = low_bytes (drop 2 bs) \<and> 2 \<le> length bs"
    using u by (auto simp: utf8_3_def low_bytes_def dest: low_range)
next
  assume u: "utf8_4 (b # bs)"
  then obtain x y z xs where bs: "bs = x # y # z # xs" using length_gtD(3) [of b bs] by (auto simp: utf8_4_def)
  then show "low_bytes (b # bs) = low_bytes (drop 3 bs) \<and> 3 \<le> length bs"
    using u by (auto simp: utf8_4_def low_bytes_def dest: low_range)
qed

lemma ascii_low: "c_isascii b \<or> c_isprint b \<longleftrightarrow> b < 0x80"
  by (auto simp: c_isascii_def c_isprint_def word_le_nat_alt word_less_nat_alt)

text \<open>The number of characters the scan accepts as UTF-8.\<close>

function utf8_units :: "u8 list \<Rightarrow> nat" where
  "utf8_units [] = 0"
| "utf8_units (b # bs) =
     (if is_plain b then Suc (utf8_units bs)
      else if utf8_2 (b # bs) then Suc (utf8_units (drop 1 bs))
      else if utf8_3 (b # bs) then Suc (utf8_units (drop 2 bs))
      else if utf8_4 (b # bs) then Suc (utf8_units (drop 3 bs))
      else utf8_units bs)"
  by pat_completeness auto
termination by (relation "measure length") auto

lemma text_scan_counts:
  "text_scan bs a u = (a + of_nat (low_bytes bs), u + of_nat (utf8_units bs))"
proof (induction bs a u rule: text_scan.induct)
  case (2 b bs a u)
  have low: "low_bytes (b # bs) = (if b < 0x80 then Suc (low_bytes bs) else low_bytes bs)"
    by (simp add: low_bytes_def)
  show ?case
  proof (cases "is_plain b")
    case True
    then show ?thesis using 2(1) plain_low [OF True] by (simp add: low)
  next
    case False
    have high: "\<not> b < 0x80" if "low_bytes (b # bs) = low_bytes (drop k bs) \<and> k \<le> length bs" for k
    proof -
      have "low_bytes (drop k bs) \<le> low_bytes bs"
        unfolding low_bytes_def by (metis append_take_drop_id filter_append le_add2 length_append)
      then show ?thesis using that by (auto simp: low)
    qed
    consider "utf8_2 (b # bs)" | "\<not> utf8_2 (b # bs)" "utf8_3 (b # bs)"
      | "\<not> utf8_2 (b # bs)" "\<not> utf8_3 (b # bs)" "utf8_4 (b # bs)"
      | "\<not> utf8_2 (b # bs)" "\<not> utf8_3 (b # bs)" "\<not> utf8_4 (b # bs)" by blast
    then show ?thesis
    proof cases
      case 1
      then show ?thesis using False 2(2) [OF False refl 1] utf8_low(1) [OF 1] high [OF utf8_low(1) [OF 1]]
        by (simp add: ascii_low)
    next
      case 2
      then show ?thesis using False "2.IH"(3) [OF False refl 2] utf8_low(2) [OF 2(2)] high [OF utf8_low(2) [OF 2(2)]]
        by (simp add: ascii_low)
    next
      case 3
      then show ?thesis using False "2.IH"(4) [OF False refl 3] utf8_low(3) [OF 3(3)] high [OF utf8_low(3) [OF 3(3)]]
        by (simp add: ascii_low)
    next
      case 4
      then show ?thesis using False "2.IH"(5) [OF False refl 4] by (simp add: ascii_low low)
    qed
  qed
qed (simp add: low_bytes_def)

lemma low_bytes_le: "low_bytes bs \<le> length bs"
  by (simp add: low_bytes_def)

lemma low_bytes_full: "low_bytes bs = length bs \<longleftrightarrow> (\<forall>b \<in> set bs. b < 0x80)"
proof
  assume full: "low_bytes bs = length bs"
  show "\<forall>b \<in> set bs. b < 0x80"
  proof (rule ccontr)
    assume "\<not> (\<forall>b \<in> set bs. b < 0x80)"
    then obtain b where "b \<in> set bs" "\<not> b < 0x80" by blast
    then have "low_bytes bs < length bs" unfolding low_bytes_def by (rule length_filter_less)
    then show False using full by simp
  qed
qed (simp add: low_bytes_def)

lemma utf8_units_le:
  "utf8_units bs \<le> length bs \<and> (utf8_units bs = length bs \<longrightarrow> (\<forall>b \<in> set bs. b < 0x80))"
proof (induction bs rule: utf8_units.induct)
  case (2 b bs)
  consider "is_plain b" | "\<not> is_plain b" "utf8_2 (b # bs)"
    | "\<not> is_plain b" "\<not> utf8_2 (b # bs)" "utf8_3 (b # bs)"
    | "\<not> is_plain b" "\<not> utf8_2 (b # bs)" "\<not> utf8_3 (b # bs)" "utf8_4 (b # bs)"
    | "\<not> is_plain b" "\<not> utf8_2 (b # bs)" "\<not> utf8_3 (b # bs)" "\<not> utf8_4 (b # bs)" by blast
  then show ?case
  proof cases
    case 1
    then show ?thesis using "2.IH"(1) plain_low [of b] by simp
  next
    case 2
    then show ?thesis using "2.IH"(2) utf8_low(1) [of b bs] by auto
  next
    case 3
    then show ?thesis using "2.IH"(3) utf8_low(2) [of b bs] by auto
  next
    case 4
    then show ?thesis using "2.IH"(4) utf8_low(3) [of b bs] by auto
  next
    case 5
    then show ?thesis using "2.IH"(5) by simp
  qed
qed simp

lemma check_if_text_buf_counts:
  assumes "length buf < 2 ^ 32"
  shows "unat (check_if_text_buf buf) = max (low_bytes buf) (utf8_units buf) mod 256"
proof -
  let ?a = "low_bytes buf" and ?u = "utf8_units buf"
  have "?a < 2 ^ 32" "?u < 2 ^ 32"
    using assms low_bytes_le [of buf] utf8_units_le [of buf] by auto
  then have n: "unat (of_nat ?a :: u32) = ?a" "unat (of_nat ?u :: u32) = ?u"
    by (auto intro!: unat_of_nat_small)
  then have "(if (of_nat ?u :: u32) > of_nat ?a then of_nat ?u else of_nat ?a) = (of_nat (max ?a ?u) :: u32)"
    by (simp add: word_less_nat_alt max_def)
  moreover have "unat (of_nat (max ?a ?u) :: u32) = max ?a ?u" using n by (simp add: max_def)
  ultimately have "unat (check_if_text_buf buf) = take_bit 8 (max ?a ?u)"
    by (simp only: check_if_text_buf_def text_scan_counts prod.case Let_def add_0 unsigned_ucast_eq) simp
  then show ?thesis by (simp only: take_bit_eq_mod) simp
qed

lemma utf8_units_plain: "\<forall>b \<in> set bs. is_plain b \<Longrightarrow> utf8_units bs = length bs"
  by (induction bs) simp_all

lemma check_if_text_buf_spaces:
  "n < 2 ^ 32 \<Longrightarrow> unat (check_if_text_buf (replicate n 0x20)) = n mod 256"
  using check_if_text_buf_counts [of "replicate n 0x20"] utf8_units_plain [of "replicate n 0x20"]
  by (simp add: is_plain_def low_bytes_def)

section \<open>Properties\<close>



end
