(* ===== verification/Spec2Isabelle.thy ===== *)
theory Spec2Isabelle
  imports GM_Buffers GM_Random GM_List GM_Tree GM_Serialize RXI_Map GM_Grammar GM_Mutation GM_Chunk GM_Store GM_Files GM_Mutator AFL_Count AFL_Text
begin

text \<open>
  Verification of PlanFuzzer.
\<close>

end
